(* ===== verification/Prelude.thy ===== *)
theory Prelude
  imports Main "HOL-Library.Word" "HOL-Library.Monad_Syntax" "HOL-Library.Product_Lexorder"
    "HOL-Library.Finite_Map" "HOL-Library.Code_Target_Nat"
begin

text \<open>
  Shared vocabulary of the development.

  \<^item> Machine integers. Rounds, commit indices and authority indices are \<open>u32\<close>, stakes and
    timestamps are \<open>u64\<close>. They are modelled as \<^typ>\<open>nat\<close>, and every addition or multiplication
    the code performs is written with its wrap-around (the release profile of \<^verbatim>\<open>Cargo.toml\<close>
    does not turn overflow checks on). \<open>saturating_sub\<close> is subtraction on \<^typ>\<open>nat\<close>; a plain
    subtraction is written with its wrap-around.
  \<^item> Panics. The release profile aborts the process on a panic, so a computation that can panic
    (an \<open>assert!\<close>, an \<open>expect\<close>, an index out of range) is an \<^typ>\<open>'a option\<close>: \<^term>\<open>None\<close> is the
    abort, and \<^term>\<open>Some x\<close> is a normal return. Recoverable errors are values of a sum type instead.
  \<^item> Containers. \<open>BTreeSet<T>\<close> is \<^typ>\<open>'a fset\<close> and \<open>BTreeMap<K, V>\<close> is \<^typ>\<open>('k, 'v) fmap\<close>;
    both are iterated in key order, which is \<open>btree_iter\<close>.
\<close>

section \<open>Collections of facts\<close>

named_theorems committee_simps \<open>stake arithmetic of a well-formed committee\<close>
named_theorems panic_free \<open>operations that return normally on well-formed states\<close>
named_theorems frame_simps \<open>fields an operation leaves alone\<close>

section \<open>Machine integers\<close>

abbreviation u32_max :: nat where "u32_max \<equiv> 4294967295"
abbreviation u64_max :: nat where "u64_max \<equiv> 18446744073709551615"

definition add_u32 :: "nat \<Rightarrow> nat \<Rightarrow> nat" where
  "add_u32 a b = (a + b) mod 4294967296"

definition mul_u32 :: "nat \<Rightarrow> nat \<Rightarrow> nat" where
  "mul_u32 a b = (a * b) mod 4294967296"

definition add_u64 :: "nat \<Rightarrow> nat \<Rightarrow> nat" where
  "add_u64 a b = (a + b) mod 18446744073709551616"

definition mul_u64 :: "nat \<Rightarrow> nat \<Rightarrow> nat" where
  "mul_u64 a b = (a * b) mod 18446744073709551616"

definition sub_u32 :: "nat \<Rightarrow> nat \<Rightarrow> nat" where
  "sub_u32 a b = (a + 4294967296 - b) mod 4294967296"

definition saturating_add_u32 :: "nat \<Rightarrow> nat \<Rightarrow> nat" where
  "saturating_add_u32 a b = min (a + b) u32_max"

lemma add_u32_exact [simp]: "a + b \<le> u32_max \<Longrightarrow> add_u32 a b = a + b"
  by (simp add: add_u32_def)

lemma mul_u32_exact [simp]: "a * b \<le> u32_max \<Longrightarrow> mul_u32 a b = a * b"
  by (simp add: mul_u32_def)

lemma add_u64_exact [simp]: "a + b \<le> u64_max \<Longrightarrow> add_u64 a b = a + b"
  by (simp add: add_u64_def)

lemma mul_u64_exact [simp]: "a * b \<le> u64_max \<Longrightarrow> mul_u64 a b = a * b"
  by (simp add: mul_u64_def)

lemma sub_mod_exact: "b \<le> a \<Longrightarrow> a < n \<Longrightarrow> (a + n - b) mod n = a - (b :: nat)"
  by (metis Nat.add_diff_assoc2 less_imp_diff_less mod_add_self2 mod_less)

lemma sub_u32_exact [simp]: "b \<le> a \<Longrightarrow> a \<le> u32_max \<Longrightarrow> sub_u32 a b = a - b"
  unfolding sub_u32_def by (rule sub_mod_exact) simp_all

lemma foldl_add_u64_exact:
  "s + sum_list xs \<le> u64_max \<Longrightarrow> foldl add_u64 s xs = s + sum_list xs"
  by (induction xs arbitrary: s) auto

section \<open>Panics\<close>

definition assert_rs :: "bool \<Rightarrow> unit option" where
  "assert_rs b = (if b then Some () else None)"

lemma assert_rs_simps [simp]:
  "assert_rs True = Some ()"
  "assert_rs False = None"
  "assert_rs b = Some u \<longleftrightarrow> b"
  "assert_rs b = None \<longleftrightarrow> \<not> b"
  by (auto simp: assert_rs_def)

text \<open>Indexing a \<open>Vec\<close> panics out of range, for reading and for writing.\<close>

definition vec_get :: "'a list \<Rightarrow> nat \<Rightarrow> 'a option" where
  "vec_get xs i = (if i < length xs then Some (xs ! i) else None)"

definition vec_set :: "'a list \<Rightarrow> nat \<Rightarrow> 'a \<Rightarrow> 'a list option" where
  "vec_set xs i v = (if i < length xs then Some (xs[i := v]) else None)"

lemma vec_get_in [simp]: "i < length xs \<Longrightarrow> vec_get xs i = Some (xs ! i)"
  by (simp add: vec_get_def)

lemma vec_set_in [simp]: "i < length xs \<Longrightarrow> vec_set xs i v = Some (xs[i := v])"
  by (simp add: vec_set_def)

lemma vec_get_Some_iff: "vec_get xs i = Some x \<longleftrightarrow> i < length xs \<and> xs ! i = x"
  by (auto simp: vec_get_def)

lemma vec_set_Some_iff: "vec_set xs i v = Some ys \<longleftrightarrow> i < length xs \<and> ys = xs[i := v]"
  by (auto simp: vec_set_def)

text \<open>A \<open>for\<close> loop whose body may panic, and a \<open>map\<close> whose function may.\<close>

fun traverse :: "('a \<Rightarrow> 'b option) \<Rightarrow> 'a list \<Rightarrow> 'b list option" where
  "traverse f [] = Some []"
| "traverse f (x # xs) = do { y \<leftarrow> f x; ys \<leftarrow> traverse f xs; Some (y # ys) }"

fun for_each :: "('a \<Rightarrow> 's \<Rightarrow> 's option) \<Rightarrow> 'a list \<Rightarrow> 's \<Rightarrow> 's option" where
  "for_each f [] s = Some s"
| "for_each f (x # xs) s = do { s' \<leftarrow> f x s; for_each f xs s' }"

lemma traverse_cong [fundef_cong]:
  "xs = ys \<Longrightarrow> (\<And>x. x \<in> set ys \<Longrightarrow> f x = g x) \<Longrightarrow> traverse f xs = traverse g ys"
  by (induction ys arbitrary: xs) (auto intro!: Option.bind_cong)

lemma traverse_total:
  "(\<And>x. x \<in> set xs \<Longrightarrow> f x = Some (g x)) \<Longrightarrow> traverse f xs = Some (map g xs)"
  by (induction xs) auto

lemma traverse_Some_conv:
  "traverse f xs = Some ys \<longleftrightarrow> map f xs = map Some ys"
proof (induction xs arbitrary: ys)
  case Nil
  then show ?case by auto
next
  case (Cons x xs)
  then show ?case
    by (cases ys) (auto split: bind_splits simp: Option.bind_eq_Some_conv)
qed

lemma traverse_set:
  "traverse f xs = Some ys \<Longrightarrow> set ys = {y. \<exists>x \<in> set xs. f x = Some y}"
  by (induction xs arbitrary: ys) (auto simp: Option.bind_eq_Some_conv)

lemma traverse_None_conv: "traverse f xs = None \<longleftrightarrow> (\<exists>x \<in> set xs. f x = None)"
  by (induction xs) (auto split: bind_splits)

text \<open>A \<open>filter\<close> whose predicate may panic.\<close>

fun filter_rs :: "('a \<Rightarrow> bool option) \<Rightarrow> 'a list \<Rightarrow> 'a list option" where
  "filter_rs P [] = Some []"
| "filter_rs P (x # xs) = do { b \<leftarrow> P x; ys \<leftarrow> filter_rs P xs; Some (if b then x # ys else ys) }"

lemma filter_rs_eq: "(\<And>x. x \<in> set xs \<Longrightarrow> P x = Some (Q x)) \<Longrightarrow> filter_rs P xs = Some (filter Q xs)"
  by (induction xs) auto

lemma for_each_append [simp]:
  "for_each f (xs @ ys) s = do { s' \<leftarrow> for_each f xs s; for_each f ys s' }"
  by (induction xs arbitrary: s) (auto intro!: Option.bind_cong)

lemma for_each_invariant:
  assumes "for_each f xs s = Some t" and "P s"
    and "\<And>x s s'. x \<in> set xs \<Longrightarrow> P s \<Longrightarrow> f x s = Some s' \<Longrightarrow> P s'"
  shows "P t"
  using assms
proof (induction xs arbitrary: s)
  case Nil
  then show ?case by simp
next
  case (Cons x xs)
  from Cons.prems(1) obtain s' where s': "f x s = Some s'" and rest: "for_each f xs s' = Some t"
    by (auto simp: Option.bind_eq_Some_conv)
  have "P s'" using Cons.prems(2,3) s' by auto
  then show ?case using Cons.IH [OF rest] Cons.prems(3) by auto
qed

lemma for_each_returns:
  assumes "P s"
    and "\<And>x s. x \<in> set xs \<Longrightarrow> P s \<Longrightarrow> \<exists>s'. f x s = Some s' \<and> P s'"
  shows "\<exists>t. for_each f xs s = Some t \<and> P t"
  using assms
proof (induction xs arbitrary: s)
  case Nil
  then show ?case by simp
next
  case (Cons x xs)
  from Cons.prems(2) [of x s] Cons.prems(1) obtain s' where "f x s = Some s'" and "P s'"
    by auto
  moreover from this have "\<exists>t. for_each f xs s' = Some t \<and> P t"
    using Cons.IH Cons.prems(2) by auto
  ultimately show ?case by auto
qed

section \<open>Ordered containers\<close>

text \<open>Iterating a \<open>BTreeSet\<close>, or the keys of a \<open>BTreeMap\<close>, goes through the keys in order.\<close>

abbreviation btree_iter :: "'a::linorder fset \<Rightarrow> 'a list" where
  "btree_iter \<equiv> sorted_list_of_fset"

definition btree_first :: "'a::linorder fset \<Rightarrow> 'a option" where
  "btree_first s = (case btree_iter s of [] \<Rightarrow> None | x # _ \<Rightarrow> Some x)"

definition btree_last :: "'a::linorder fset \<Rightarrow> 'a option" where
  "btree_last s = (case rev (btree_iter s) of [] \<Rightarrow> None | x # _ \<Rightarrow> Some x)"

definition btree_range :: "('a::linorder \<Rightarrow> bool) \<Rightarrow> 'a fset \<Rightarrow> 'a list" where
  "btree_range P s = filter P (btree_iter s)"

lemma sorted_btree_iter [simp]: "sorted (btree_iter s)"
  by (simp add: sorted_list_of_fset.rep_eq)

lemma distinct_btree_iter [simp]: "distinct (btree_iter s)"
  by (simp add: sorted_list_of_fset.rep_eq)

lemma set_btree_iter: "set (btree_iter s) = fset s"
  by simp

lemma btree_iter_empty [simp]: "btree_iter {||} = []"
  by (simp add: sorted_list_of_fset.rep_eq)

lemma btree_iter_finsert [simp]:
  "btree_iter (finsert x s) = insort_insert x (btree_iter s)"
proof (cases "x |\<in>| s")
  case True
  then have "finsert x s = s" by auto
  with True show ?thesis
    by (simp add: insort_insert_key_def)
next
  case False
  then show ?thesis
    by (simp add: sorted_list_of_fset.rep_eq insort_insert_key_def
        sorted_list_of_set.sorted_key_list_of_set_insert_remove)
qed

lemma btree_iter_Nil_iff [simp]: "btree_iter s = [] \<longleftrightarrow> s = {||}"
  by (metis btree_iter_empty fset_of_list_simps(1) sorted_list_of_fset_simps(2))

lemma btree_range_set [simp]: "set (btree_range P s) = {x. x |\<in>| s \<and> P x}"
  by (auto simp: btree_range_def)

lemma btree_range_sorted [simp]: "sorted (btree_range P s)" "distinct (btree_range P s)"
  by (simp_all add: btree_range_def sorted_wrt_filter)

lemma btree_first_None [simp]: "btree_first s = None \<longleftrightarrow> s = {||}"
  by (auto simp: btree_first_def split: list.splits)

lemma btree_last_None [simp]: "btree_last s = None \<longleftrightarrow> s = {||}"
  by (auto simp: btree_last_def split: list.splits)

lemma btree_first_Some: "btree_first s = Some x \<Longrightarrow> x |\<in>| s \<and> (\<forall>y. y |\<in>| s \<longrightarrow> x \<le> y)"
proof -
  assume "btree_first s = Some x"
  then obtain xs where xs: "btree_iter s = x # xs"
    by (auto simp: btree_first_def split: list.splits)
  have "sorted (x # xs)" using sorted_btree_iter [of s] xs by simp
  moreover have "fset s = set (x # xs)" using set_btree_iter [of s] xs by simp
  ultimately show ?thesis by auto
qed

lemma btree_last_Some: "btree_last s = Some x \<Longrightarrow> x |\<in>| s \<and> (\<forall>y. y |\<in>| s \<longrightarrow> y \<le> x)"
proof -
  assume "btree_last s = Some x"
  then obtain xs where "rev (btree_iter s) = x # xs"
    by (auto simp: btree_last_def split: list.splits)
  then have xs: "btree_iter s = rev xs @ [x]"
    by (metis rev.simps(2) rev_rev_ident)
  have "sorted (rev xs @ [x])" using sorted_btree_iter [of s] xs by simp
  moreover have "fset s = set (rev xs @ [x])" using set_btree_iter [of s] xs by simp
  ultimately show ?thesis by (auto simp: sorted_append)
qed

lemma btree_last_finsert_max:
  "(\<And>y. y |\<in>| s \<Longrightarrow> y \<le> x) \<Longrightarrow> btree_last (finsert x s) = Some x"
proof -
  assume le: "\<And>y. y |\<in>| s \<Longrightarrow> y \<le> x"
  obtain m where m: "btree_last (finsert x s) = Some m"
    by (cases "btree_last (finsert x s)") auto
  from btree_last_Some [OF m] le show ?thesis
    using m by fastforce
qed

lemma fmdom_iff: "k |\<in>| fmdom m \<longleftrightarrow> fmlookup m k \<noteq> None"
  by (metis fmdom_notD fmdom_notI)

end
