(* ===== verification/Committee.thy ===== *)
theory Committee
  imports Prelude
begin

text \<open>
  The committee of an epoch (\<^verbatim>\<open>consensus/config/src/committee.rs\<close>): the authorities with their
  stakes and the two thresholds, and the interface the rest of the protocol relies on, stated as
  the locale \<open>quorum_system\<close>: a quorum and any other quorum share an authority outside every set
  of faulty authorities that stays below the validity threshold.
\<close>

section \<open>Data\<close>

type_synonym bytes = "8 word list"
type_synonym authority_index = nat
type_synonym stake = nat

record authority =
  auth_stake :: stake
  auth_address :: string
  auth_hostname :: string
  authority_key :: bytes
  protocol_key :: bytes
  network_key :: bytes

record committee =
  com_epoch :: nat
  com_total_stake :: stake
  com_quorum_threshold :: stake
  com_validity_threshold :: stake
  com_authorities :: "authority list"

section \<open>Operations\<close>

definition committee_new :: "nat \<Rightarrow> authority list \<Rightarrow> committee option" where
  "committee_new epoch authorities = do {
     assert_rs (authorities \<noteq> []);
     assert_rs (length authorities < u32_max);
     let total = foldl add_u64 0 (map auth_stake authorities);
     assert_rs (total \<noteq> 0);
     Some \<lparr> com_epoch = epoch,
            com_total_stake = total,
            com_quorum_threshold = add_u64 (mul_u64 2 total div 3) 1,
            com_validity_threshold = add_u64 total 2 div 3,
            com_authorities = authorities \<rparr>
   }"

definition committee_size :: "committee \<Rightarrow> nat" where
  "committee_size c = length (com_authorities c)"

definition committee_stake :: "committee \<Rightarrow> authority_index \<Rightarrow> stake option" where
  "committee_stake c i = map_option auth_stake (vec_get (com_authorities c) i)"

definition committee_authority :: "committee \<Rightarrow> authority_index \<Rightarrow> authority option" where
  "committee_authority c i = vec_get (com_authorities c) i"

definition committee_authorities :: "committee \<Rightarrow> (authority_index \<times> authority) list" where
  "committee_authorities c = List.enumerate 0 (com_authorities c)"

definition reached_quorum :: "committee \<Rightarrow> stake \<Rightarrow> bool" where
  "reached_quorum c s \<longleftrightarrow> com_quorum_threshold c \<le> s"

definition reached_validity :: "committee \<Rightarrow> stake \<Rightarrow> bool" where
  "reached_validity c s \<longleftrightarrow> com_validity_threshold c \<le> s"

definition to_authority_index :: "committee \<Rightarrow> nat \<Rightarrow> authority_index option" where
  "to_authority_index c i = (if i < committee_size c then Some i else None)"

definition is_valid_index :: "committee \<Rightarrow> authority_index \<Rightarrow> bool" where
  "is_valid_index c i \<longleftrightarrow> i < committee_size c"

section \<open>Well-formed committees\<close>

text \<open>
  The stakes of an epoch sum to 10000 (the comment at \<open>Stake\<close>), so twice the total fits in a
  \<open>u64\<close> with a wide margin. The bound is what the threshold arithmetic needs.
\<close>

definition committee_wf :: "committee \<Rightarrow> bool" where
  "committee_wf c \<longleftrightarrow>
     com_authorities c \<noteq> [] \<and>
     length (com_authorities c) < u32_max \<and>
     com_total_stake c = sum_list (map auth_stake (com_authorities c)) \<and>
     0 < com_total_stake c \<and>
     2 * com_total_stake c \<le> u64_max - 3 \<and>
     com_quorum_threshold c = 2 * com_total_stake c div 3 + 1 \<and>
     com_validity_threshold c = (com_total_stake c + 2) div 3"

definition members :: "committee \<Rightarrow> authority_index set" where
  "members c = {..<committee_size c}"

definition weight :: "committee \<Rightarrow> authority_index set \<Rightarrow> stake" where
  "weight c S = (\<Sum>i \<in> S. auth_stake (com_authorities c ! i))"

lemma committee_new_Some_iff:
  "committee_new e as = Some c \<longleftrightarrow>
     as \<noteq> [] \<and> length as < u32_max \<and> foldl add_u64 0 (map auth_stake as) \<noteq> 0 \<and>
     c = \<lparr> com_epoch = e,
           com_total_stake = foldl add_u64 0 (map auth_stake as),
           com_quorum_threshold = add_u64 (mul_u64 2 (foldl add_u64 0 (map auth_stake as)) div 3) 1,
           com_validity_threshold = add_u64 (foldl add_u64 0 (map auth_stake as)) 2 div 3,
           com_authorities = as \<rparr>"
  by (auto simp: committee_new_def Let_def Option.bind_eq_Some_conv)

lemma committee_new_is_wf:
  assumes new: "committee_new e as = Some c"
    and fits: "2 * sum_list (map auth_stake as) \<le> u64_max - 3"
  shows "committee_wf c"
proof -
  define t where "t = sum_list (map auth_stake as)"
  have total: "foldl add_u64 0 (map auth_stake as) = t"
    using foldl_add_u64_exact [of 0 "map auth_stake as"] fits by (simp add: t_def)
  have fits': "2 * t \<le> u64_max - 3" using fits by (simp add: t_def)
  then have q: "add_u64 (mul_u64 2 t div 3) 1 = 2 * t div 3 + 1" by simp
  have v: "add_u64 t 2 = t + 2" using fits' by (intro add_u64_exact) linarith
  from new have "as \<noteq> []" "length as < u32_max" "t \<noteq> 0"
    and c: "c = \<lparr> com_epoch = e, com_total_stake = t, com_quorum_threshold = 2 * t div 3 + 1,
                com_validity_threshold = (t + 2) div 3, com_authorities = as \<rparr>"
    unfolding committee_new_Some_iff total q v by blast+
  with fits' show ?thesis
    by (simp add: committee_wf_def t_def [symmetric])
qed

lemma wf_total_weight: "committee_wf c \<Longrightarrow> com_total_stake c = weight c (members c)"
  by (simp add: committee_wf_def weight_def members_def committee_size_def sum_list_sum_nth
      atLeast0LessThan)

lemma finite_members [simp]: "finite (members c)"
  by (simp add: members_def)

lemma finite_subset_members: "S \<subseteq> members c \<Longrightarrow> finite S"
  by (rule finite_subset [OF _ finite_members])

lemma weight_empty [simp]: "weight c {} = 0"
  by (simp add: weight_def)

lemma weight_insert:
  "finite S \<Longrightarrow> i \<notin> S \<Longrightarrow> weight c (insert i S) = auth_stake (com_authorities c ! i) + weight c S"
  by (simp add: weight_def)

lemma weight_mono: "S \<subseteq> T \<Longrightarrow> finite T \<Longrightarrow> weight c S \<le> weight c T"
  by (simp add: weight_def sum_mono2)

lemma weight_Un_Int:
  "finite S \<Longrightarrow> finite T \<Longrightarrow> weight c (S \<union> T) + weight c (S \<inter> T) = weight c S + weight c T"
  by (simp add: weight_def sum.union_inter)

lemma weight_le_total: "committee_wf c \<Longrightarrow> S \<subseteq> members c \<Longrightarrow> weight c S \<le> com_total_stake c"
  by (simp add: wf_total_weight weight_mono)

lemma committee_stake_valid [simp]:
  "i < committee_size c \<Longrightarrow> committee_stake c i = Some (auth_stake (com_authorities c ! i))"
  by (simp add: committee_stake_def committee_size_def)

lemma committee_stake_Some_iff:
  "committee_stake c i = Some s \<longleftrightarrow>
     i < committee_size c \<and> s = auth_stake (com_authorities c ! i)"
  by (auto simp: committee_stake_def committee_size_def vec_get_Some_iff)

lemma wf_bounds [committee_simps]:
  assumes "committee_wf c"
  shows "0 < com_quorum_threshold c" and "com_quorum_threshold c \<le> com_total_stake c"
    and "0 < com_validity_threshold c" and "com_validity_threshold c \<le> com_quorum_threshold c"
    and "com_total_stake c \<le> u64_max" and "0 < committee_size c"
  using assms unfolding committee_wf_def committee_size_def by auto

section \<open>Quorum arithmetic\<close>

text \<open>
  With a total stake of \<open>n\<close>, two quorums overlap in at least a validity threshold of stake, and the
  complement of a set below the validity threshold is a quorum.
\<close>

lemma threshold_overlap:
  assumes "committee_wf c"
  shows "com_total_stake c + com_validity_threshold c \<le> 2 * com_quorum_threshold c"
  using assms unfolding committee_wf_def by auto

lemma threshold_complement:
  assumes "committee_wf c" and "b < com_validity_threshold c"
  shows "com_quorum_threshold c + b \<le> com_total_stake c"
  using assms unfolding committee_wf_def by auto

lemma threshold_blocking:
  assumes "committee_wf c"
  shows "com_total_stake c < com_quorum_threshold c + com_validity_threshold c"
  using assms unfolding committee_wf_def by auto

lemma quorum_overlap_weight:
  assumes wf: "committee_wf c" and S: "S \<subseteq> members c" and T: "T \<subseteq> members c"
    and qS: "reached_quorum c (weight c S)" and qT: "reached_quorum c (weight c T)"
  shows "com_validity_threshold c \<le> weight c (S \<inter> T)"
proof -
  have "weight c (S \<union> T) \<le> com_total_stake c"
    using wf S T by (intro weight_le_total) auto
  moreover have "weight c (S \<union> T) + weight c (S \<inter> T) = weight c S + weight c T"
    using S T by (intro weight_Un_Int) (auto intro: finite_subset_members)
  ultimately show ?thesis
    using qS qT threshold_overlap [OF wf] by (simp add: reached_quorum_def)
qed

lemma complement_is_quorum:
  assumes wf: "committee_wf c" and B: "B \<subseteq> members c"
    and few: "\<not> reached_validity c (weight c B)"
  shows "reached_quorum c (weight c (members c - B))"
proof -
  have "weight c (members c) = weight c (members c - B) + weight c B"
    using B weight_Un_Int [of "members c - B" B c]
    by (simp add: Int_commute Un_absorb2 finite_subset_members)
  then show ?thesis
    using threshold_complement [OF wf, of "weight c B"] few wf
    by (simp add: reached_quorum_def reached_validity_def wf_total_weight)
qed

section \<open>The interface of a quorum system\<close>

text \<open>
  What the protocol uses of a committee. \<open>ok c\<close> is its well-formedness, \<open>univ c\<close> its members,
  \<open>quorum c S\<close> says that the authorities of \<open>S\<close> reach the quorum threshold, and \<open>faulty c B\<close> that
  the stake of \<open>B\<close> stays below the validity threshold.
\<close>

locale quorum_system =
  fixes ok :: "'c \<Rightarrow> bool"
    and univ :: "'c \<Rightarrow> 'a set"
    and quorum :: "'c \<Rightarrow> 'a set \<Rightarrow> bool"
    and faulty :: "'c \<Rightarrow> 'a set \<Rightarrow> bool"
  assumes quorum_up: "ok c \<Longrightarrow> quorum c S \<Longrightarrow> S \<subseteq> T \<Longrightarrow> T \<subseteq> univ c \<Longrightarrow> quorum c T"
    and quorum_meets: "ok c \<Longrightarrow> S \<subseteq> univ c \<Longrightarrow> T \<subseteq> univ c \<Longrightarrow> B \<subseteq> univ c \<Longrightarrow>
      quorum c S \<Longrightarrow> quorum c T \<Longrightarrow> faulty c B \<Longrightarrow> \<exists>a. a \<in> S \<and> a \<in> T \<and> a \<notin> B"
    and correct_quorum: "ok c \<Longrightarrow> B \<subseteq> univ c \<Longrightarrow> faulty c B \<Longrightarrow> quorum c (univ c - B)"
    and none_faulty: "ok c \<Longrightarrow> faulty c {}"
begin

lemma quorum_has_correct:
  assumes "ok c" "S \<subseteq> univ c" "B \<subseteq> univ c" "quorum c S" "faulty c B"
  shows "\<exists>a. a \<in> S \<and> a \<notin> B"
  using quorum_meets [of c S S B] assms by blast

lemma quorum_nonempty:
  assumes "ok c" "S \<subseteq> univ c" "quorum c S"
  shows "S \<noteq> {}"
  using quorum_has_correct [of c S "{}"] none_faulty assms by blast

lemma quorums_meet:
  assumes "ok c" "S \<subseteq> univ c" "T \<subseteq> univ c" "quorum c S" "quorum c T"
  shows "S \<inter> T \<noteq> {}"
  using quorum_meets [of c S T "{}"] none_faulty assms by blast

lemma correct_quorum_meets:
  assumes "ok c" "S \<subseteq> univ c" "B \<subseteq> univ c" "quorum c S" "faulty c B"
  shows "S \<inter> (univ c - B) \<noteq> {}"
  using quorum_has_correct assms by blast

end

definition is_quorum :: "committee \<Rightarrow> authority_index set \<Rightarrow> bool" where
  "is_quorum c S \<longleftrightarrow> reached_quorum c (weight c S)"

definition below_validity :: "committee \<Rightarrow> authority_index set \<Rightarrow> bool" where
  "below_validity c B \<longleftrightarrow> \<not> reached_validity c (weight c B)"

lemma quorums_share_correct:
  assumes wf: "committee_wf c" and sub: "S \<subseteq> members c" "T \<subseteq> members c" "B \<subseteq> members c"
    and q: "is_quorum c S" "is_quorum c T" and f: "below_validity c B"
  shows "\<exists>a. a \<in> S \<and> a \<in> T \<and> a \<notin> B"
proof (rule ccontr)
  assume "\<not> ?thesis"
  then have "S \<inter> T \<subseteq> B" by blast
  then have "weight c (S \<inter> T) \<le> weight c B"
    using sub by (intro weight_mono) (auto intro: finite_subset_members)
  with quorum_overlap_weight [OF wf sub(1,2)] q f show False
    by (simp add: is_quorum_def below_validity_def reached_validity_def)
qed

interpretation cq: quorum_system committee_wf members is_quorum below_validity
proof unfold_locales
  fix c S T
  assume wf: "committee_wf c" and "is_quorum c S" "S \<subseteq> T" "T \<subseteq> members c"
  then show "is_quorum c T"
    using weight_mono [of S T c] finite_subset_members [of T c]
    by (simp add: is_quorum_def reached_quorum_def)
next
  fix c S T B
  assume "committee_wf c" "S \<subseteq> members c" "T \<subseteq> members c" "B \<subseteq> members c"
    "is_quorum c S" "is_quorum c T" "below_validity c B"
  then show "\<exists>a. a \<in> S \<and> a \<in> T \<and> a \<notin> B" by (rule quorums_share_correct)
next
  fix c B
  assume "committee_wf c" "B \<subseteq> members c" "below_validity c B"
  then show "is_quorum c (members c - B)"
    by (simp add: is_quorum_def below_validity_def complement_is_quorum)
next
  fix c
  assume "committee_wf c"
  then show "below_validity c {}"
    by (simp add: below_validity_def reached_validity_def wf_bounds)
qed

section \<open>A concrete committee\<close>

text \<open>Four authorities of equal stake: the input data of the witnesses.\<close>

definition sample_authority :: "stake \<Rightarrow> authority" where
  "sample_authority s = \<lparr> auth_stake = s, auth_address = '''', auth_hostname = '''',
     authority_key = [], protocol_key = [], network_key = [] \<rparr>"

definition sample_committee :: committee where
  "sample_committee = \<lparr> com_epoch = 0, com_total_stake = 4, com_quorum_threshold = 3,
     com_validity_threshold = 2, com_authorities = replicate 4 (sample_authority 1) \<rparr>"

lemma sample_committee_wf: "committee_wf sample_committee"
  by (simp add: committee_wf_def sample_committee_def sample_authority_def sum_list_replicate)

lemma sample_members: "members sample_committee = {0, 1, 2, 3}"
  by (auto simp: members_def committee_size_def sample_committee_def)

section \<open>Properties\<close>

text \<open>
  C14. A committee accepted by \<open>Committee::new\<close>, whose doubled total stake fits in a \<open>u64\<close>, is a
  Byzantine quorum system: two sets of authorities that reach the quorum threshold share an
  authority outside any set of authorities whose stake stays below the validity threshold.
\<close>

theorem committee_new_quorum_intersection:
  assumes "committee_new e as = Some c"
    and "2 * sum_list (map auth_stake as) \<le> u64_max - 3"
    and "S \<subseteq> members c" and "T \<subseteq> members c" and "B \<subseteq> members c"
    and "reached_quorum c (weight c S)" and "reached_quorum c (weight c T)"
    and "\<not> reached_validity c (weight c B)"
  shows "\<exists>a. a \<in> S \<and> a \<in> T \<and> a \<notin> B"
  using cq.quorum_meets [OF committee_new_is_wf [OF assms(1,2)] assms(3-5)] assms(6-8)
  by (simp add: is_quorum_def below_validity_def)

theorem committee_new_quorum_intersection_witness:
  "committee_new 0 (replicate 4 (sample_authority 1)) = Some sample_committee \<and>
   (\<exists>a. a \<in> {0, 1, 2} \<and> a \<in> {1, 2, 3} \<and> a \<notin> {1 :: nat})"
proof -
  have new: "committee_new 0 (replicate 4 (sample_authority 1)) = Some sample_committee"
    by code_simp
  have "2 * sum_list (map auth_stake (replicate 4 (sample_authority 1))) \<le> u64_max - 3"
    by code_simp
  moreover have "reached_quorum sample_committee (weight sample_committee {0, 1, 2})" by code_simp
  moreover have "reached_quorum sample_committee (weight sample_committee {1, 2, 3})" by code_simp
  moreover have "\<not> reached_validity sample_committee (weight sample_committee {1})" by code_simp
  ultimately show ?thesis
    using new committee_new_quorum_intersection [OF new, of "{0, 1, 2}" "{1, 2, 3}" "{1}"]
    by (auto simp: sample_members)
qed

end
