(* ===== verification/Stake_Aggregator.thy ===== *)
theory Stake_Aggregator
  imports Committee
begin

text \<open>
  \<open>StakeAggregator\<close> (\<^verbatim>\<open>consensus/core/src/stake_aggregator.rs\<close>): the set of authorities that voted
  and the running sum of their stakes. The invariant \<open>agg_wf\<close> says that the running sum is the
  weight of the set, so an aggregator answers exactly whether its voters form a quorum and the
  \<open>u64\<close> sum never wraps.
\<close>

datatype committee_threshold = QuorumThreshold | ValidityThreshold

fun is_threshold :: "committee_threshold \<Rightarrow> committee \<Rightarrow> stake \<Rightarrow> bool" where
  "is_threshold QuorumThreshold c amount = reached_quorum c amount"
| "is_threshold ValidityThreshold c amount = reached_validity c amount"

fun threshold :: "committee_threshold \<Rightarrow> committee \<Rightarrow> stake" where
  "threshold QuorumThreshold c = com_quorum_threshold c"
| "threshold ValidityThreshold c = com_validity_threshold c"

record stake_aggregator =
  agg_votes :: "authority_index fset"
  agg_stake :: stake

definition agg_new :: stake_aggregator where
  "agg_new = \<lparr> agg_votes = {||}, agg_stake = 0 \<rparr>"

definition agg_count :: "stake_aggregator \<Rightarrow> authority_index \<Rightarrow> committee \<Rightarrow> stake_aggregator option" where
  "agg_count a vote c = do {
     s \<leftarrow> committee_stake c vote;
     Some (a\<lparr> agg_votes := finsert vote (agg_votes a), agg_stake := add_u64 (agg_stake a) s \<rparr>)
   }"

definition agg_add ::
  "committee_threshold \<Rightarrow> stake_aggregator \<Rightarrow> authority_index \<Rightarrow> committee \<Rightarrow>
     (stake_aggregator \<times> bool) option" where
  "agg_add T a vote c = do {
     a' \<leftarrow> (if vote |\<notin>| agg_votes a then agg_count a vote c else Some a);
     Some (a', is_threshold T c (agg_stake a'))
   }"

definition agg_add_unique ::
  "stake_aggregator \<Rightarrow> authority_index \<Rightarrow> committee \<Rightarrow> (stake_aggregator \<times> bool) option" where
  "agg_add_unique a vote c =
     (if vote |\<notin>| agg_votes a
      then do { a' \<leftarrow> agg_count a vote c; Some (a', True) }
      else Some (a, False))"

definition agg_reached_threshold ::
  "committee_threshold \<Rightarrow> stake_aggregator \<Rightarrow> committee \<Rightarrow> bool" where
  "agg_reached_threshold T a c = is_threshold T c (agg_stake a)"

definition agg_clear :: "stake_aggregator \<Rightarrow> stake_aggregator" where
  "agg_clear a = a\<lparr> agg_votes := {||}, agg_stake := 0 \<rparr>"

section \<open>The invariant\<close>

definition agg_wf :: "committee \<Rightarrow> stake_aggregator \<Rightarrow> bool" where
  "agg_wf c a \<longleftrightarrow> fset (agg_votes a) \<subseteq> members c \<and> agg_stake a = weight c (fset (agg_votes a))"

lemma agg_wf_new [simp]: "agg_wf c agg_new"
  by (simp add: agg_wf_def agg_new_def)

lemma agg_clear_eq_new [simp]: "agg_clear a = agg_new"
  by (simp add: agg_clear_def agg_new_def)

lemma agg_votes_new [simp]: "agg_votes agg_new = {||}" "agg_stake agg_new = 0"
  by (simp_all add: agg_new_def)

lemma agg_wf_stake_bound: "committee_wf c \<Longrightarrow> agg_wf c a \<Longrightarrow> agg_stake a \<le> com_total_stake c"
  by (simp add: agg_wf_def weight_le_total)

lemma agg_count_wf:
  assumes wf: "committee_wf c" and a: "agg_wf c a" and v: "v \<in> members c" and new: "v |\<notin>| agg_votes a"
  shows "\<exists>a'. agg_count a v c = Some a' \<and> agg_wf c a' \<and> agg_votes a' = finsert v (agg_votes a)"
proof -
  let ?S = "fset (agg_votes a)"
  let ?s = "auth_stake (com_authorities c ! v)"
  have w: "weight c (insert v ?S) = ?s + weight c ?S"
    using new by (intro weight_insert) auto
  have "weight c (insert v ?S) \<le> com_total_stake c"
    using wf a v by (intro weight_le_total) (auto simp: agg_wf_def)
  then have "agg_stake a + ?s \<le> u64_max"
    using w a wf_bounds(5) [OF wf] by (simp add: agg_wf_def)
  moreover have "committee_stake c v = Some ?s"
    using v by (simp add: members_def)
  ultimately show ?thesis
    using a v w by (auto simp: agg_count_def agg_wf_def)
qed

lemma agg_add_spec:
  assumes wf: "committee_wf c" and a: "agg_wf c a" and v: "v \<in> members c"
  shows "\<exists>a'. agg_add QuorumThreshold a v c = Some (a', is_quorum c (fset (agg_votes a'))) \<and>
              agg_wf c a' \<and> agg_votes a' = finsert v (agg_votes a)"
proof (cases "v |\<in>| agg_votes a")
  case True
  then have "finsert v (agg_votes a) = agg_votes a" by auto
  with True a show ?thesis
    by (simp add: agg_add_def agg_wf_def is_quorum_def)
next
  case False
  from agg_count_wf [OF wf a v False] obtain a' where
    "agg_count a v c = Some a'" "agg_wf c a'" "agg_votes a' = finsert v (agg_votes a)" by blast
  with False show ?thesis
    by (simp add: agg_add_def agg_wf_def is_quorum_def)
qed

lemma agg_add_unique_spec:
  assumes wf: "committee_wf c" and a: "agg_wf c a" and v: "v \<in> members c"
  shows "\<exists>a'. agg_add_unique a v c = Some (a', v |\<notin>| agg_votes a) \<and>
              agg_wf c a' \<and> agg_votes a' = finsert v (agg_votes a)"
proof (cases "v |\<in>| agg_votes a")
  case True
  then have "finsert v (agg_votes a) = agg_votes a" by auto
  with True a show ?thesis by (simp add: agg_add_unique_def)
next
  case False
  from agg_count_wf [OF wf a v False] obtain a' where
    "agg_count a v c = Some a'" "agg_wf c a'" "agg_votes a' = finsert v (agg_votes a)" by blast
  with False show ?thesis by (simp add: agg_add_unique_def)
qed

lemma agg_reached_iff:
  "agg_wf c a \<Longrightarrow> agg_reached_threshold QuorumThreshold a c \<longleftrightarrow> is_quorum c (fset (agg_votes a))"
  by (simp add: agg_reached_threshold_def agg_wf_def is_quorum_def)

section \<open>Loops that stop at a quorum\<close>

text \<open>
  Several components run the same loop: add the authority of every element that passes a test and
  return as soon as the aggregator reaches the threshold. \<open>quorum_scan\<close> is that loop for a test
  that cannot panic; \<open>quorum_scan_spec\<close> says what it computes.
\<close>

fun quorum_scan ::
  "committee \<Rightarrow> ('b \<Rightarrow> bool) \<Rightarrow> ('b \<Rightarrow> authority_index) \<Rightarrow> 'b list \<Rightarrow> stake_aggregator \<Rightarrow> bool option" where
  "quorum_scan c P au [] a = Some False"
| "quorum_scan c P au (x # xs) a =
     (if P x
      then do {
        (a', hit) \<leftarrow> agg_add QuorumThreshold a (au x) c;
        if hit then Some True else quorum_scan c P au xs a'
      }
      else quorum_scan c P au xs a)"

lemma quorum_scan_spec:
  assumes wf: "committee_wf c" and a: "agg_wf c a" and nq: "\<not> is_quorum c (fset (agg_votes a))"
    and valid: "\<And>x. x \<in> set xs \<Longrightarrow> P x \<Longrightarrow> au x \<in> members c"
  shows "quorum_scan c P au xs a =
           Some (is_quorum c (fset (agg_votes a) \<union> {au x | x. x \<in> set xs \<and> P x}))"
  using a nq valid
proof (induction xs arbitrary: a)
  case Nil
  then show ?case by simp
next
  case (Cons x xs)
  show ?case
  proof (cases "P x")
    case False
    then have "{au y |y. y \<in> set (x # xs) \<and> P y} = {au y |y. y \<in> set xs \<and> P y}" by auto
    with False Cons.IH [OF Cons.prems(1,2)] Cons.prems(3) show ?thesis by simp
  next
    case True
    let ?rest = "{au y |y. y \<in> set xs \<and> P y}"
    from agg_add_spec [OF wf Cons.prems(1), of "au x"] True Cons.prems(3) obtain a' where
      add: "agg_add QuorumThreshold a (au x) c = Some (a', is_quorum c (fset (agg_votes a')))"
      and a': "agg_wf c a'" "agg_votes a' = finsert (au x) (agg_votes a)" by auto
    have all: "fset (agg_votes a) \<union> {au y |y. y \<in> set (x # xs) \<and> P y} = fset (agg_votes a') \<union> ?rest"
      using True a'(2) by auto
    have sub: "fset (agg_votes a') \<union> ?rest \<subseteq> members c"
      using a'(1) Cons.prems(3) by (auto simp: agg_wf_def)
    show ?thesis
    proof (cases "is_quorum c (fset (agg_votes a'))")
      case q: True
      have "is_quorum c (fset (agg_votes a') \<union> ?rest)"
        using cq.quorum_up [OF wf q _ sub] by simp
      with True add q all show ?thesis by simp
    next
      case False
      with True add all Cons.IH [OF a'(1) False] Cons.prems(3) show ?thesis by simp
    qed
  qed
qed

lemma quorum_scan_new:
  assumes wf: "committee_wf c" and valid: "\<And>x. x \<in> set xs \<Longrightarrow> P x \<Longrightarrow> au x \<in> members c"
  shows "quorum_scan c P au xs agg_new = Some (is_quorum c {au x | x. x \<in> set xs \<and> P x})"
proof -
  have "\<not> is_quorum c {}" using cq.quorum_nonempty [OF wf, of "{}"] by auto
  then show ?thesis
    using quorum_scan_spec [OF wf agg_wf_new _ valid] by simp
qed

section \<open>Properties\<close>

lemma agg_add_all:
  assumes wf: "committee_wf c" and a: "agg_wf c a" and "set vs \<subseteq> members c"
  shows "\<exists>a'. for_each (\<lambda>v a. map_option fst (agg_add QuorumThreshold a v c)) vs a = Some a' \<and>
     agg_wf c a' \<and> fset (agg_votes a') = fset (agg_votes a) \<union> set vs"
  using a assms(3)
proof (induction vs arbitrary: a)
  case Nil
  then show ?case by simp
next
  case (Cons v vs)
  from agg_add_spec [OF wf Cons.prems(1), of v] Cons.prems(2) obtain a1 where
    add: "agg_add QuorumThreshold a v c = Some (a1, is_quorum c (fset (agg_votes a1)))"
    and a1: "agg_wf c a1" "agg_votes a1 = finsert v (agg_votes a)" by auto
  from Cons.IH [OF a1(1)] Cons.prems(2) obtain a' where
    "for_each (\<lambda>v a. map_option fst (agg_add QuorumThreshold a v c)) vs a1 = Some a'"
    "agg_wf c a'" "fset (agg_votes a') = fset (agg_votes a1) \<union> set vs" by auto
  with add a1(2) show ?case by auto
qed

text \<open>
  C15. Whatever sequence of votes of committee members a fresh aggregator receives, with repeated
  votes, no \<open>add\<close> panics, the accumulated stake is the exact stake of the distinct voters (the
  \<open>u64\<close> sum never wraps and a repeated vote is not counted twice), and the quorum threshold is
  reported exactly when the distinct voters form a quorum.
\<close>

theorem aggregator_counts_distinct_votes:
  assumes wf: "committee_wf c" and votes: "set vs \<subseteq> members c"
  shows "\<exists>a. for_each (\<lambda>v a. map_option fst (agg_add QuorumThreshold a v c)) vs agg_new = Some a \<and>
     agg_stake a = weight c (set vs) \<and>
     (agg_reached_threshold QuorumThreshold a c \<longleftrightarrow> reached_quorum c (weight c (set vs)))"
  using agg_add_all [OF wf agg_wf_new votes]
  by (auto simp: agg_wf_def agg_reached_threshold_def)

theorem aggregator_counts_distinct_votes_witness:
  "\<exists>a. for_each (\<lambda>v a. map_option fst (agg_add QuorumThreshold a v sample_committee))
        [3, 1, 3, 0] agg_new = Some a \<and>
     agg_stake a = 3 \<and> agg_reached_threshold QuorumThreshold a sample_committee"
proof -
  have "weight sample_committee (set [3, 1, 3, 0]) = 3" by code_simp
  moreover have "reached_quorum sample_committee 3" by code_simp
  ultimately show ?thesis
    using aggregator_counts_distinct_votes [OF sample_committee_wf, of "[3, 1, 3, 0]"]
    by (simp add: sample_members)
qed

end
