(* ===== verification/Blocks.thy ===== *)
theory Blocks
  imports Committee
begin

text \<open>
  Blocks, references and slots (\<^verbatim>\<open>consensus/types/src/block.rs\<close>, \<^verbatim>\<open>consensus/core/src/block.rs\<close>),
  the per-epoch context (\<^verbatim>\<open>consensus/core/src/context.rs\<close>) and the error type
  (\<^verbatim>\<open>consensus/core/src/error.rs\<close>).

  A digest is a \<^typ>\<open>256 word\<close>: the unsigned order of the 256-bit number is the lexicographic order
  of the 32 bytes. Hashing, BCS serialization and signatures come from third-party crates and are
  the fields of the parameter \<open>crypto\<close>.
\<close>

section \<open>References and slots\<close>

type_synonym round = nat
type_synonym digest = "256 word"
type_synonym transaction_index = nat
type_synonym commit_index = nat

abbreviation digest_min :: digest where "digest_min \<equiv> 0"
abbreviation digest_max :: digest where "digest_max \<equiv> - 1"

definition GENESIS_ROUND :: round where "GENESIS_ROUND = 0"

datatype block_ref = BlockRef (ref_round: round) (ref_author: authority_index) (ref_digest: digest)

definition block_ref_min :: block_ref where "block_ref_min = BlockRef 0 0 digest_min"
definition block_ref_max :: block_ref where "block_ref_max = BlockRef u32_max u32_max digest_max"

text \<open>The derived \<open>Ord\<close> of a struct compares its fields in the order of their declaration.\<close>

definition ref_key :: "block_ref \<Rightarrow> nat \<times> nat \<times> digest" where
  "ref_key r = (ref_round r, ref_author r, ref_digest r)"

lemma ref_key_inject [simp]: "ref_key a = ref_key b \<longleftrightarrow> a = b"
  by (auto simp: ref_key_def block_ref.expand)

instantiation block_ref :: linorder
begin

definition less_eq_block_ref :: "block_ref \<Rightarrow> block_ref \<Rightarrow> bool" where
  "less_eq_block_ref a b \<longleftrightarrow> ref_key a \<le> ref_key b"

definition less_block_ref :: "block_ref \<Rightarrow> block_ref \<Rightarrow> bool" where
  "less_block_ref a b \<longleftrightarrow> ref_key a < ref_key b"

instance
  by intro_classes (auto simp: less_eq_block_ref_def less_block_ref_def order.strict_iff_order)

end

lemmas block_ref_order = less_eq_block_ref_def less_block_ref_def ref_key_def less_eq_prod_simp
  less_prod_simp

lemma block_ref_le_round: "a \<le> (b :: block_ref) \<Longrightarrow> ref_round a \<le> ref_round b"
  by (auto simp: block_ref_order)

lemma block_ref_less_round: "ref_round a < ref_round b \<Longrightarrow> a < (b :: block_ref)"
  by (auto simp: block_ref_order)

datatype slot = Slot (slot_round: round) (slot_authority: authority_index)

definition slot_of :: "block_ref \<Rightarrow> slot" where
  "slot_of r = Slot (ref_round r) (ref_author r)"

lemma slot_of_eq_iff: "slot_of r = s \<longleftrightarrow> ref_round r = slot_round s \<and> ref_author r = slot_authority s"
  by (cases s) (auto simp: slot_of_def)

lemma slot_of_sel [simp]:
  "slot_round (slot_of r) = ref_round r" "slot_authority (slot_of r) = ref_author r"
  by (simp_all add: slot_of_def)

datatype commit_ref = CommitRef (cref_index: commit_index) (cref_digest: digest)

type_synonym commit_vote = commit_ref

text \<open>The data of a commit, which blocks do not contain but errors do.\<close>

record commit_v1 =
  cv1_index :: commit_index
  cv1_previous_digest :: digest
  cv1_timestamp_ms :: nat
  cv1_leader :: block_ref
  cv1_blocks :: "block_ref list"

datatype commit = CommitV1 commit_v1

section \<open>Blocks\<close>

datatype transaction = Transaction (tx_data: bytes)

record block_transaction_votes =
  btv_block_ref :: block_ref
  btv_rejects :: "transaction_index list"

datatype misbehavior_proof = InvalidBlock block_ref

record misbehavior_report =
  mr_target :: authority_index
  mr_proof :: misbehavior_proof

record block_v1 =
  v1_epoch :: nat
  v1_round :: round
  v1_author :: authority_index
  v1_timestamp_ms :: nat
  v1_ancestors :: "block_ref list"
  v1_transactions :: "transaction list"
  v1_commit_votes :: "commit_vote list"
  v1_misbehavior_reports :: "misbehavior_report list"

record block_v2 =
  v2_epoch :: nat
  v2_round :: round
  v2_author :: authority_index
  v2_timestamp_ms :: nat
  v2_ancestors :: "block_ref list"
  v2_transactions :: "transaction list"
  v2_transaction_votes :: "block_transaction_votes list"
  v2_commit_votes :: "commit_vote list"
  v2_misbehavior_reports :: "misbehavior_report list"

datatype block = V1 block_v1 | V2 block_v2

fun blk_epoch :: "block \<Rightarrow> nat" where
  "blk_epoch (V1 b) = v1_epoch b"
| "blk_epoch (V2 b) = v2_epoch b"

fun blk_round :: "block \<Rightarrow> round" where
  "blk_round (V1 b) = v1_round b"
| "blk_round (V2 b) = v2_round b"

fun blk_author :: "block \<Rightarrow> authority_index" where
  "blk_author (V1 b) = v1_author b"
| "blk_author (V2 b) = v2_author b"

definition blk_slot :: "block \<Rightarrow> slot" where
  "blk_slot b = Slot (blk_round b) (blk_author b)"

fun blk_timestamp_ms :: "block \<Rightarrow> nat" where
  "blk_timestamp_ms (V1 b) = v1_timestamp_ms b"
| "blk_timestamp_ms (V2 b) = v2_timestamp_ms b"

fun blk_ancestors :: "block \<Rightarrow> block_ref list" where
  "blk_ancestors (V1 b) = v1_ancestors b"
| "blk_ancestors (V2 b) = v2_ancestors b"

fun blk_transactions :: "block \<Rightarrow> transaction list" where
  "blk_transactions (V1 b) = v1_transactions b"
| "blk_transactions (V2 b) = v2_transactions b"

definition blk_transactions_data :: "block \<Rightarrow> bytes list" where
  "blk_transactions_data b = map tx_data (blk_transactions b)"

fun blk_commit_votes :: "block \<Rightarrow> commit_vote list" where
  "blk_commit_votes (V1 b) = v1_commit_votes b"
| "blk_commit_votes (V2 b) = v2_commit_votes b"

fun blk_transaction_votes :: "block \<Rightarrow> block_transaction_votes list" where
  "blk_transaction_votes (V1 b) = []"
| "blk_transaction_votes (V2 b) = v2_transaction_votes b"

fun blk_misbehavior_reports :: "block \<Rightarrow> misbehavior_report list" where
  "blk_misbehavior_reports (V1 b) = v1_misbehavior_reports b"
| "blk_misbehavior_reports (V2 b) = v2_misbehavior_reports b"

record signed_block =
  sb_inner :: block
  sb_signature :: bytes

record verified_block =
  vb_signed :: signed_block
  vb_digest :: digest
  vb_serialized :: bytes

text \<open>\<open>VerifiedBlock\<close> dereferences to its inner \<open>Block\<close>.\<close>

abbreviation vb_block :: "verified_block \<Rightarrow> block" where "vb_block b \<equiv> sb_inner (vb_signed b)"
abbreviation vb_round :: "verified_block \<Rightarrow> round" where "vb_round b \<equiv> blk_round (vb_block b)"
abbreviation vb_author :: "verified_block \<Rightarrow> authority_index" where
  "vb_author b \<equiv> blk_author (vb_block b)"
abbreviation vb_timestamp_ms :: "verified_block \<Rightarrow> nat" where
  "vb_timestamp_ms b \<equiv> blk_timestamp_ms (vb_block b)"
abbreviation vb_ancestors :: "verified_block \<Rightarrow> block_ref list" where
  "vb_ancestors b \<equiv> blk_ancestors (vb_block b)"

definition vb_reference :: "verified_block \<Rightarrow> block_ref" where
  "vb_reference b = BlockRef (vb_round b) (vb_author b) (vb_digest b)"

definition vb_eq :: "verified_block \<Rightarrow> verified_block \<Rightarrow> bool" where
  "vb_eq a b \<longleftrightarrow> vb_digest a = vb_digest b"

lemma vb_reference_sel [simp]:
  "ref_round (vb_reference b) = vb_round b"
  "ref_author (vb_reference b) = vb_author b"
  "ref_digest (vb_reference b) = vb_digest b"
  by (simp_all add: vb_reference_def)

record extended_block =
  xb_block :: verified_block
  xb_excluded_ancestors :: "block_ref list"

record certified_block =
  cb_block :: verified_block
  cb_rejected :: "transaction_index list"

section \<open>Context\<close>

text \<open>
  The fields of \<open>Context\<close>, \<open>Parameters\<close> and \<open>ProtocolConfig\<close> that the modelled components read.
  Metrics and clocks are left out: no modelled decision depends on them.
\<close>

record consensus_context =
  epoch_start_timestamp_ms :: nat
  own_index :: authority_index
  ctx_committee :: committee
  dag_state_cached_rounds :: nat
  gc_depth :: nat
  mysticeti_fastpath :: bool
  enforce_checkpoint_timestamp_monotonicity :: bool
  mysticeti_num_leaders_per_round :: "nat option"
  consensus_bad_nodes_stake_threshold :: nat
  max_transaction_size_bytes :: nat
  max_num_transactions_in_block :: nat
  max_transactions_in_block_bytes :: nat

section \<open>Errors\<close>

datatype consensus_error =
    MalformedBlock string
  | MalformedCommit string
  | SerializationFailure string
  | TransactionTooLarge nat nat
  | TooManyTransactions nat nat
  | TooManyTransactionBytes nat nat
  | UnexpectedAuthority authority_index authority_index
  | WrongEpoch nat nat
  | UnexpectedGenesisBlock
  | UnexpectedGenesisBlockRequested
  | UnexpectedNumberOfBlocksFetched authority_index nat nat
  | UnexpectedFetchedBlock authority_index block_ref
  | UnexpectedLastOwnBlock authority_index block_ref
  | TooManyFetchedBlocksReturned authority_index
  | TooManyAuthoritiesProvided authority_index
  | InvalidSizeOfHighestAcceptedRounds nat nat
  | InvalidAuthorityIndex authority_index nat
  | MalformedSignature string
  | SignatureVerificationFailure string
  | SynchronizerSaturated authority_index
  | BlockRejected block_ref string
  | InvalidAncestorPosition authority_index authority_index nat
  | InvalidAncestorRound round round
  | InvalidGenesisAncestor block_ref
  | TooManyAncestors nat nat
  | DuplicatedAncestorsAuthority authority_index
  | InsufficientParentStakes stake stake
  | InvalidTransaction string
  | NoCommitReceived authority_index
  | UnexpectedStartCommit authority_index commit_index commit
  | UnexpectedCommitSequence authority_index commit commit
  | NotEnoughCommitVotes stake authority_index commit
  | UnexpectedBlockForCommit authority_index block_ref block_ref
  | UnexpectedCertifiedCommitIndex commit_index commit_index
  | RocksDBFailure string
  | UnknownNetworkPeer string
  | PeerDisconnected string
  | NetworkConfig string
  | NetworkClientConnection string
  | NetworkRequest string
  | NetworkRequestTimeout string
  | Shutdown

type_synonym 'a consensus_result = "consensus_error + 'a"

section \<open>Third-party cryptography\<close>

text \<open>
  \<open>cr_hash\<close> is the default hash function, \<open>cr_bcs_block\<close>, \<open>cr_bcs_signed\<close>, \<open>cr_bcs_commit\<close> and
  \<open>cr_bcs_intent\<close> the BCS encodings of a block, of a signed block, of a commit and of the intent
  message that wraps a block digest,
  \<open>cr_parse_signature\<close> the decoding of a signature and \<open>cr_verify\<close> its verification. Errors are the
  messages the crates report.
\<close>

record crypto =
  cr_hash :: "bytes \<Rightarrow> digest"
  cr_bcs_block :: "block \<Rightarrow> string + bytes"
  cr_bcs_signed :: "signed_block \<Rightarrow> string + bytes"
  cr_bcs_commit :: "commit \<Rightarrow> string + bytes"
  cr_bcs_intent :: "digest \<Rightarrow> string + bytes"
  cr_parse_signature :: "bytes \<Rightarrow> string + bytes"
  cr_verify :: "bytes \<Rightarrow> bytes \<Rightarrow> bytes \<Rightarrow> string + unit"

definition compute_inner_block_digest :: "crypto \<Rightarrow> block \<Rightarrow> digest consensus_result" where
  "compute_inner_block_digest cr b =
     (case cr_bcs_block cr b of
        Inl e \<Rightarrow> Inl (SerializationFailure e)
      | Inr bs \<Rightarrow> Inr (cr_hash cr bs))"

definition verify_block_signature ::
  "crypto \<Rightarrow> block \<Rightarrow> bytes \<Rightarrow> bytes \<Rightarrow> unit consensus_result" where
  "verify_block_signature cr b signature pubkey =
     (case compute_inner_block_digest cr b of
        Inl e \<Rightarrow> Inl e
      | Inr d \<Rightarrow>
        (case cr_bcs_intent cr d of
           Inl e \<Rightarrow> Inl (SerializationFailure e)
         | Inr message \<Rightarrow>
           (case cr_parse_signature cr signature of
              Inl e \<Rightarrow> Inl (MalformedSignature e)
            | Inr sig \<Rightarrow>
              (case cr_verify cr pubkey message sig of
                 Inl e \<Rightarrow> Inl (SignatureVerificationFailure e)
               | Inr u \<Rightarrow> Inr u))))"

definition verify_signature ::
  "crypto \<Rightarrow> consensus_context \<Rightarrow> signed_block \<Rightarrow> unit consensus_result" where
  "verify_signature cr ctx sb =
     (let b = sb_inner sb; c = ctx_committee ctx in
      if \<not> is_valid_index c (blk_author b)
      then Inl (InvalidAuthorityIndex (blk_author b) (committee_size c - 1))
      else verify_block_signature cr b (sb_signature sb)
             (protocol_key (com_authorities c ! blk_author b)))"

definition new_verified :: "crypto \<Rightarrow> signed_block \<Rightarrow> bytes \<Rightarrow> verified_block" where
  "new_verified cr sb serialized =
     \<lparr> vb_signed = sb, vb_digest = cr_hash cr serialized, vb_serialized = serialized \<rparr>"

section \<open>Genesis\<close>

definition genesis_timestamp :: "consensus_context \<Rightarrow> nat" where
  "genesis_timestamp ctx =
     (if enforce_checkpoint_timestamp_monotonicity ctx then epoch_start_timestamp_ms ctx else 0)"

definition genesis_block_v1 :: "consensus_context \<Rightarrow> authority_index \<Rightarrow> block_v1" where
  "genesis_block_v1 ctx author =
     \<lparr> v1_epoch = com_epoch (ctx_committee ctx), v1_round = GENESIS_ROUND, v1_author = author,
       v1_timestamp_ms = genesis_timestamp ctx, v1_ancestors = [], v1_transactions = [],
       v1_commit_votes = [], v1_misbehavior_reports = [] \<rparr>"

definition genesis_block_v2 :: "consensus_context \<Rightarrow> authority_index \<Rightarrow> block_v2" where
  "genesis_block_v2 ctx author =
     \<lparr> v2_epoch = com_epoch (ctx_committee ctx), v2_round = GENESIS_ROUND, v2_author = author,
       v2_timestamp_ms = genesis_timestamp ctx, v2_ancestors = [], v2_transactions = [],
       v2_transaction_votes = [], v2_commit_votes = [], v2_misbehavior_reports = [] \<rparr>"

definition new_genesis :: "block \<Rightarrow> signed_block" where
  "new_genesis b = \<lparr> sb_inner = b, sb_signature = [] \<rparr>"

definition genesis_block_of ::
  "crypto \<Rightarrow> consensus_context \<Rightarrow> authority_index \<Rightarrow> verified_block option" where
  "genesis_block_of cr ctx i =
     (let sb = new_genesis (if mysticeti_fastpath ctx then V2 (genesis_block_v2 ctx i)
                            else V1 (genesis_block_v1 ctx i)) in
      case cr_bcs_signed cr sb of
        Inl e \<Rightarrow> None
      | Inr serialized \<Rightarrow> Some (new_verified cr sb serialized))"

definition genesis_blocks :: "crypto \<Rightarrow> consensus_context \<Rightarrow> verified_block list option" where
  "genesis_blocks cr ctx =
     traverse (\<lambda>(i, _). genesis_block_of cr ctx i) (committee_authorities (ctx_committee ctx))"

lemma genesis_block_of_Some:
  assumes "genesis_block_of cr ctx i = Some b"
  shows "vb_round b = GENESIS_ROUND" and "vb_author b = i" and "vb_ancestors b = []"
  using assms
  by (auto simp: genesis_block_of_def new_genesis_def new_verified_def Let_def
      genesis_block_v1_def genesis_block_v2_def split: sum.splits if_splits)

lemma genesis_blocks_nth:
  assumes "genesis_blocks cr ctx = Some bs"
  shows "length bs = committee_size (ctx_committee ctx)"
    and "i < length bs \<Longrightarrow> genesis_block_of cr ctx i = Some (bs ! i)"
proof -
  let ?as = "committee_authorities (ctx_committee ctx)"
  have eq: "map (\<lambda>(i, _). genesis_block_of cr ctx i) ?as = map Some bs"
    using assms by (simp add: genesis_blocks_def traverse_Some_conv)
  then have len: "length bs = length ?as"
    by (metis length_map)
  then show "length bs = committee_size (ctx_committee ctx)"
    by (simp add: committee_authorities_def committee_size_def)
  show "genesis_block_of cr ctx i = Some (bs ! i)" if i: "i < length bs"
  proof -
    have "map (\<lambda>(i, _). genesis_block_of cr ctx i) ?as ! i = map Some bs ! i"
      using eq by simp
    with i len show ?thesis
      by (simp add: committee_authorities_def nth_enumerate_eq)
  qed
qed

end
