(* ===== verification/Sample_Network.thy ===== *)
theory Sample_Network
  imports Blocks
begin

text \<open>
  A concrete network over the committee \<open>sample_committee\<close>, with a toy hash and encoding, on which
  the theorems of the development are instantiated. Nothing here models code: it is the input data
  of the witnesses.
\<close>

definition sample_context :: consensus_context where
  "sample_context = \<lparr> epoch_start_timestamp_ms = 0, own_index = 0, ctx_committee = sample_committee,
     dag_state_cached_rounds = 500, gc_depth = 60, mysticeti_fastpath = False,
     enforce_checkpoint_timestamp_monotonicity = True, mysticeti_num_leaders_per_round = Some 1,
     consensus_bad_nodes_stake_threshold = 20, max_transaction_size_bytes = 100,
     max_num_transactions_in_block = 10, max_transactions_in_block_bytes = 500 \<rparr>"

text \<open>
  The toy hash sends every encoding to 0: blocks of different slots still have different references.
\<close>

definition sample_crypto :: crypto where
  "sample_crypto = \<lparr> cr_hash = (\<lambda>bs. 0), cr_bcs_block = (\<lambda>b. Inr []), cr_bcs_signed = (\<lambda>b. Inr []),
     cr_bcs_commit = (\<lambda>c. Inr []), cr_bcs_intent = (\<lambda>d. Inr []), cr_parse_signature = Inr, cr_verify = (\<lambda>k m s. Inr ()) \<rparr>"

definition sample_ref :: "round \<Rightarrow> authority_index \<Rightarrow> block_ref" where
  "sample_ref r a = BlockRef r a 0"

definition sample_signed :: "round \<Rightarrow> authority_index \<Rightarrow> nat \<Rightarrow> block_ref list \<Rightarrow> signed_block" where
  "sample_signed r a ts as = \<lparr> sb_inner = V1 \<lparr> v1_epoch = 0, v1_round = r, v1_author = a,
     v1_timestamp_ms = ts, v1_ancestors = as, v1_transactions = [Transaction [1, 2]],
     v1_commit_votes = [], v1_misbehavior_reports = [] \<rparr>, sb_signature = [] \<rparr>"

definition sample_block :: "round \<Rightarrow> authority_index \<Rightarrow> nat \<Rightarrow> block_ref list \<Rightarrow> verified_block" where
  "sample_block r a ts as = new_verified sample_crypto (sample_signed r a ts as) []"

definition sample_genesis :: "block_ref fset" where
  "sample_genesis = fset_of_list (map (sample_ref 0) [0, 1, 2, 3])"

lemma sample_context_committee [simp]: "ctx_committee sample_context = sample_committee"
  by (simp add: sample_context_def)

end
