(* ===== verification/Block_Verifier.thy ===== *)
theory Block_Verifier
  imports Sample_Network
begin

text \<open>
  \<open>SignedBlockVerifier\<close> (\<^verbatim>\<open>consensus/core/src/block_verifier.rs\<close>). \<open>verify_block\<close> is the check every
  received block passes before it reaches the DAG. Its accepted blocks are characterised by
  \<open>block_ok\<close>, which is what the commit rule relies on: the first ancestor is by the author itself,
  no two ancestors are by the same authority, ancestors are of lower rounds, and the parents (the
  ancestors of the previous round) reach a quorum.
\<close>

section \<open>Transaction limits\<close>

fun find_too_large :: "nat \<Rightarrow> bytes list \<Rightarrow> nat option" where
  "find_too_large limit [] = None"
| "find_too_large limit (t # ts) =
     (if limit < length t \<and> 0 < limit then Some (length t) else find_too_large limit ts)"

definition check_transactions :: "consensus_context \<Rightarrow> bytes list \<Rightarrow> unit consensus_result" where
  "check_transactions ctx batch =
     (let size_limit = max_transaction_size_bytes ctx;
          num_limit = max_num_transactions_in_block ctx;
          bytes_limit = max_transactions_in_block_bytes ctx in
      case find_too_large size_limit batch of
        Some len \<Rightarrow> Inl (TransactionTooLarge len size_limit)
      | None \<Rightarrow>
        if num_limit < length batch \<and> 0 < num_limit
        then Inl (TooManyTransactions (length batch) num_limit)
        else if bytes_limit < sum_list (map length batch) \<and> 0 < bytes_limit
        then Inl (TooManyTransactionBytes (length batch) bytes_limit)
        else Inr ())"

section \<open>Ancestors\<close>

text \<open>
  The loop over \<open>block.ancestors().iter().enumerate()\<close>: \<open>i\<close> is the position, \<open>seen\<close> the vector
  \<open>seen_ancestors\<close> and \<open>stakes\<close> the accumulator \<open>parent_stakes\<close>. The result is the stake of the
  parents, or the first error.
\<close>

fun verify_ancestors ::
  "committee \<Rightarrow> block_ref fset \<Rightarrow> block \<Rightarrow> nat \<Rightarrow> bool list \<Rightarrow> stake \<Rightarrow> block_ref list \<Rightarrow>
     stake consensus_result" where
  "verify_ancestors c genesis b i seen stakes [] = Inr stakes"
| "verify_ancestors c genesis b i seen stakes (a # as) =
     (if \<not> is_valid_index c (ref_author a)
      then Inl (InvalidAuthorityIndex (ref_author a) (committee_size c - 1))
      else if (i = 0 \<and> ref_author a \<noteq> blk_author b) \<or> (0 < i \<and> ref_author a = blk_author b)
      then Inl (InvalidAncestorPosition (blk_author b) (ref_author a) i)
      else if blk_round b \<le> ref_round a
      then Inl (InvalidAncestorRound (ref_round a) (blk_round b))
      else if ref_round a = GENESIS_ROUND \<and> a |\<notin>| genesis
      then Inl (InvalidGenesisAncestor a)
      else if seen ! ref_author a
      then Inl (DuplicatedAncestorsAuthority (ref_author a))
      else verify_ancestors c genesis b (i + 1) (seen[ref_author a := True])
             (if ref_round a = blk_round b - 1
              then add_u64 stakes (auth_stake (com_authorities c ! ref_author a))
              else stakes) as)"

definition verify_block ::
  "crypto \<Rightarrow> consensus_context \<Rightarrow> block_ref fset \<Rightarrow> signed_block \<Rightarrow> unit consensus_result" where
  "verify_block cr ctx genesis sb =
     (let c = ctx_committee ctx; b = sb_inner sb in
      if blk_epoch b \<noteq> com_epoch c then Inl (WrongEpoch (com_epoch c) (blk_epoch b))
      else if blk_round b = 0 then Inl UnexpectedGenesisBlock
      else if \<not> is_valid_index c (blk_author b)
      then Inl (InvalidAuthorityIndex (blk_author b) (committee_size c - 1))
      else case verify_signature cr ctx sb of
        Inl e \<Rightarrow> Inl e
      | Inr _ \<Rightarrow>
        if committee_size c < length (blk_ancestors b)
        then Inl (TooManyAncestors (length (blk_ancestors b)) (committee_size c))
        else if blk_ancestors b = []
        then Inl (InsufficientParentStakes 0 (com_quorum_threshold c))
        else case verify_ancestors c genesis b 0 (replicate (committee_size c) False) 0
                    (blk_ancestors b) of
          Inl e \<Rightarrow> Inl e
        | Inr parent_stakes \<Rightarrow>
          if \<not> reached_quorum c parent_stakes
          then Inl (InsufficientParentStakes parent_stakes (com_quorum_threshold c))
          else check_transactions ctx (blk_transactions_data b))"

text \<open>
  \<open>SignedBlockVerifier::new\<close> collects the references of the genesis blocks, and \<open>verify_and_vote\<close>
  verifies a block, then either votes on its transactions (fastpath) or verifies them as a batch.
  The application's transaction verifier is a parameter: \<open>verify_batch\<close> and \<open>verify_and_vote_batch\<close>.
\<close>

definition verifier_genesis :: "crypto \<Rightarrow> consensus_context \<Rightarrow> block_ref fset option" where
  "verifier_genesis cr ctx =
     map_option (\<lambda>bs. fset_of_list (map vb_reference bs)) (genesis_blocks cr ctx)"

definition vote_block ::
  "(block_ref \<Rightarrow> bytes list \<Rightarrow> string + transaction_index list) \<Rightarrow> verified_block \<Rightarrow>
     transaction_index list consensus_result" where
  "vote_block verify_and_vote_batch vb =
     (case verify_and_vote_batch (vb_reference vb) (blk_transactions_data (vb_block vb)) of
        Inl e \<Rightarrow> Inl (InvalidTransaction e)
      | Inr rejects \<Rightarrow> Inr rejects)"

definition verify_and_vote ::
  "crypto \<Rightarrow> consensus_context \<Rightarrow> block_ref fset \<Rightarrow>
     (bytes list \<Rightarrow> string + unit) \<Rightarrow>
     (block_ref \<Rightarrow> bytes list \<Rightarrow> string + transaction_index list) \<Rightarrow>
     signed_block \<Rightarrow> bytes \<Rightarrow> (verified_block \<times> transaction_index list) consensus_result" where
  "verify_and_vote cr ctx genesis verify_batch verify_and_vote_batch sb serialized =
     (case verify_block cr ctx genesis sb of
        Inl e \<Rightarrow> Inl e
      | Inr _ \<Rightarrow>
        let vb = new_verified cr sb serialized in
        if mysticeti_fastpath ctx
        then (case vote_block verify_and_vote_batch vb of
                Inl e \<Rightarrow> Inl e
              | Inr rejects \<Rightarrow> Inr (vb, rejects))
        else (case verify_batch (blk_transactions_data (vb_block vb)) of
                Inl e \<Rightarrow> Inl (InvalidTransaction e)
              | Inr _ \<Rightarrow> Inr (vb, [])))"

section \<open>What an accepted block looks like\<close>

definition parent_authors :: "block \<Rightarrow> authority_index set" where
  "parent_authors b = ref_author ` set (filter (\<lambda>a. ref_round a + 1 = blk_round b) (blk_ancestors b))"

definition ancestors_ok :: "committee \<Rightarrow> block_ref fset \<Rightarrow> block \<Rightarrow> bool" where
  "ancestors_ok c genesis b \<longleftrightarrow>
     blk_ancestors b \<noteq> [] \<and>
     ref_author (hd (blk_ancestors b)) = blk_author b \<and>
     distinct (map ref_author (blk_ancestors b)) \<and>
     (\<forall>a \<in> set (blk_ancestors b).
        ref_author a \<in> members c \<and> ref_round a < blk_round b \<and>
        (ref_round a = GENESIS_ROUND \<longrightarrow> a |\<in>| genesis)) \<and>
     is_quorum c (parent_authors b)"

definition block_ok :: "committee \<Rightarrow> block_ref fset \<Rightarrow> block \<Rightarrow> bool" where
  "block_ok c genesis b \<longleftrightarrow>
     blk_epoch b = com_epoch c \<and> 0 < blk_round b \<and> blk_author b \<in> members c \<and>
     ancestors_ok c genesis b"

definition parent_stake_list :: "committee \<Rightarrow> block \<Rightarrow> block_ref list \<Rightarrow> stake list" where
  "parent_stake_list c b as =
     map (\<lambda>a. auth_stake (com_authorities c ! ref_author a))
       (filter (\<lambda>a. ref_round a = blk_round b - 1) as)"

definition ancestor_entry_ok :: "committee \<Rightarrow> block_ref fset \<Rightarrow> block \<Rightarrow> block_ref \<Rightarrow> bool" where
  "ancestor_entry_ok c genesis b a \<longleftrightarrow>
     ref_author a \<in> members c \<and> ref_round a < blk_round b \<and>
     (ref_round a = GENESIS_ROUND \<longrightarrow> a |\<in>| genesis)"

lemma is_valid_index_iff: "is_valid_index c i \<longleftrightarrow> i \<in> members c"
  by (simp add: is_valid_index_def members_def)

lemma verify_ancestors_tail:
  assumes "0 < i" and "length seen = committee_size c"
  shows "verify_ancestors c genesis b i seen st as = Inr s \<longleftrightarrow>
     (\<forall>a \<in> set as. ancestor_entry_ok c genesis b a \<and> ref_author a \<noteq> blk_author b \<and>
        \<not> seen ! ref_author a) \<and>
     distinct (map ref_author as) \<and> s = foldl add_u64 st (parent_stake_list c b as)"
  using assms
proof (induction as arbitrary: i seen st)
  case Nil
  then show ?case by (auto simp: parent_stake_list_def)
next
  case (Cons a as)
  let ?seen = "seen[ref_author a := True]"
  let ?st = "if ref_round a = blk_round b - 1
             then add_u64 st (auth_stake (com_authorities c ! ref_author a)) else st"
  show ?case
  proof (cases "ancestor_entry_ok c genesis b a \<and> ref_author a \<noteq> blk_author b \<and> \<not> seen ! ref_author a")
    case False
    then show ?thesis
      using Cons.prems(1) by (auto simp: ancestor_entry_ok_def is_valid_index_iff)
  next
    case True
    have st: "foldl add_u64 ?st (parent_stake_list c b as) =
        foldl add_u64 st (parent_stake_list c b (a # as))"
      by (simp add: parent_stake_list_def)
    have at: "ref_author a < length seen"
      using True Cons.prems(2) by (simp add: ancestor_entry_ok_def members_def)
    have IH: "verify_ancestors c genesis b (i + 1) ?seen ?st as = Inr s \<longleftrightarrow>
      (\<forall>x \<in> set as. ancestor_entry_ok c genesis b x \<and> ref_author x \<noteq> blk_author b \<and>
        \<not> ?seen ! ref_author x) \<and>
      distinct (map ref_author as) \<and> s = foldl add_u64 ?st (parent_stake_list c b as)"
      using Cons.prems by (intro Cons.IH) auto
    have step: "verify_ancestors c genesis b i seen st (a # as) =
        verify_ancestors c genesis b (i + 1) ?seen ?st as"
      using True Cons.prems(1) by (auto simp: ancestor_entry_ok_def is_valid_index_iff)
    have seen: "(\<not> ?seen ! ref_author x) \<longleftrightarrow> ref_author x \<noteq> ref_author a \<and> \<not> seen ! ref_author x" for x
      using at by (cases "ref_author x = ref_author a") auto
    show ?thesis
      unfolding step IH st seen using True by (auto simp: image_iff)
  qed
qed

lemma verify_ancestors_Inr_iff:
  assumes ne: "blk_ancestors b \<noteq> []"
  shows "verify_ancestors c genesis b 0 (replicate (committee_size c) False) 0 (blk_ancestors b) = Inr s
     \<longleftrightarrow> (\<forall>a \<in> set (blk_ancestors b). ancestor_entry_ok c genesis b a) \<and>
        distinct (map ref_author (blk_ancestors b)) \<and>
        ref_author (hd (blk_ancestors b)) = blk_author b \<and>
        s = foldl add_u64 0 (parent_stake_list c b (blk_ancestors b))"
proof -
  obtain a as where as: "blk_ancestors b = a # as" using ne by (cases "blk_ancestors b") auto
  let ?seen = "(replicate (committee_size c) False)[ref_author a := True]"
  let ?st = "if ref_round a = blk_round b - 1
             then add_u64 0 (auth_stake (com_authorities c ! ref_author a)) else 0"
  show ?thesis
  proof (cases "ancestor_entry_ok c genesis b a \<and> ref_author a = blk_author b")
    case False
    then show ?thesis
      unfolding as by (auto simp: ancestor_entry_ok_def is_valid_index_iff)
  next
    case True
    then have at: "ref_author a < committee_size c"
      by (simp add: ancestor_entry_ok_def members_def)
    have st: "foldl add_u64 ?st (parent_stake_list c b as) =
        foldl add_u64 0 (parent_stake_list c b (a # as))"
      by (simp add: parent_stake_list_def)
    have tail: "verify_ancestors c genesis b 1 ?seen ?st as = Inr s \<longleftrightarrow>
      (\<forall>x \<in> set as. ancestor_entry_ok c genesis b x \<and> ref_author x \<noteq> blk_author b \<and>
        \<not> ?seen ! ref_author x) \<and>
      distinct (map ref_author as) \<and> s = foldl add_u64 ?st (parent_stake_list c b as)"
      by (intro verify_ancestors_tail) auto
    have seen: "(\<not> ?seen ! ref_author x) \<longleftrightarrow> ref_author x \<noteq> ref_author a"
      if "ancestor_entry_ok c genesis b x" for x
      using at that by (cases "ref_author x = ref_author a")
        (auto simp: ancestor_entry_ok_def members_def)
    have step: "verify_ancestors c genesis b 0 (replicate (committee_size c) False) 0 (a # as) =
        verify_ancestors c genesis b 1 ?seen ?st as"
      using True at by (auto simp: ancestor_entry_ok_def is_valid_index_iff)
    have tail': "(\<forall>x \<in> set as. ancestor_entry_ok c genesis b x \<and> ref_author x \<noteq> blk_author b \<and>
        \<not> ?seen ! ref_author x) \<longleftrightarrow>
      (\<forall>x \<in> set as. ancestor_entry_ok c genesis b x \<and> ref_author x \<noteq> ref_author a)"
      using True seen by metis
    show ?thesis
      unfolding as step tail tail' st using True by (auto simp: image_iff)
  qed
qed

lemma parent_authors_members:
  "\<forall>a \<in> set (blk_ancestors b). ancestor_entry_ok c genesis b a \<Longrightarrow> parent_authors b \<subseteq> members c"
  by (auto simp: parent_authors_def ancestor_entry_ok_def)

text \<open>With one parent per authority the \<open>u64\<close> sum cannot wrap: it is the weight of the authors.\<close>

lemma parent_stakes_weight:
  assumes wf: "committee_wf c" and round: "0 < blk_round b"
    and dist: "distinct (map ref_author (blk_ancestors b))"
    and entries: "\<forall>a \<in> set (blk_ancestors b). ancestor_entry_ok c genesis b a"
  shows "foldl add_u64 0 (parent_stake_list c b (blk_ancestors b)) = weight c (parent_authors b)"
proof -
  let ?ps = "filter (\<lambda>a. ref_round a = blk_round b - 1) (blk_ancestors b)"
  have "distinct (map ref_author ?ps)"
    using dist by (simp add: distinct_map_filter)
  then have "sum_list (map (\<lambda>i. auth_stake (com_authorities c ! i)) (map ref_author ?ps)) =
      (\<Sum>i \<in> set (map ref_author ?ps). auth_stake (com_authorities c ! i))"
    by (rule sum_list_distinct_conv_sum_set)
  moreover have "set (map ref_author ?ps) = parent_authors b"
    using round by (auto simp: parent_authors_def)
  ultimately have sum: "sum_list (parent_stake_list c b (blk_ancestors b)) = weight c (parent_authors b)"
    by (simp add: parent_stake_list_def weight_def comp_def)
  also have "\<dots> \<le> u64_max"
    using weight_le_total [OF wf parent_authors_members [OF entries]] wf_bounds(5) [OF wf] by simp
  finally show ?thesis
    using foldl_add_u64_exact [of 0 "parent_stake_list c b (blk_ancestors b)"] sum by simp
qed

lemma ancestors_ok_entries:
  "ancestors_ok c genesis b \<longleftrightarrow>
     blk_ancestors b \<noteq> [] \<and> ref_author (hd (blk_ancestors b)) = blk_author b \<and>
     distinct (map ref_author (blk_ancestors b)) \<and>
     (\<forall>a \<in> set (blk_ancestors b). ancestor_entry_ok c genesis b a) \<and>
     is_quorum c (parent_authors b)"
  by (auto simp: ancestors_ok_def ancestor_entry_ok_def)

lemma ancestors_ok_length:
  assumes "ancestors_ok c genesis b"
  shows "length (blk_ancestors b) \<le> committee_size c"
proof -
  have "distinct (map ref_author (blk_ancestors b))"
    and "set (map ref_author (blk_ancestors b)) \<subseteq> members c"
    using assms by (auto simp: ancestors_ok_def)
  then have "length (map ref_author (blk_ancestors b)) \<le> card (members c)"
    by (metis card_mono distinct_card finite_members)
  then show ?thesis by (simp add: members_def)
qed

lemma verify_ancestors_iff_ok:
  assumes wf: "committee_wf c" and round: "0 < blk_round b" and ne: "blk_ancestors b \<noteq> []"
  shows "(\<exists>s. verify_ancestors c genesis b 0 (replicate (committee_size c) False) 0 (blk_ancestors b) = Inr s
            \<and> reached_quorum c s) \<longleftrightarrow> ancestors_ok c genesis b"
  unfolding verify_ancestors_Inr_iff [OF ne] ancestors_ok_entries is_quorum_def
  using parent_stakes_weight [OF wf round] ne by auto

lemma find_too_large_None_iff:
  "find_too_large limit ts = None \<longleftrightarrow> limit = 0 \<or> (\<forall>t \<in> set ts. length t \<le> limit)"
  by (induction ts) auto

text \<open>What the transaction limits accept.\<close>

definition transactions_ok :: "consensus_context \<Rightarrow> bytes list \<Rightarrow> bool" where
  "transactions_ok ctx batch \<longleftrightarrow>
     (max_transaction_size_bytes ctx = 0 \<or> (\<forall>t \<in> set batch. length t \<le> max_transaction_size_bytes ctx)) \<and>
     (max_num_transactions_in_block ctx = 0 \<or> length batch \<le> max_num_transactions_in_block ctx) \<and>
     (max_transactions_in_block_bytes ctx = 0 \<or>
        sum_list (map length batch) \<le> max_transactions_in_block_bytes ctx)"

lemma check_transactions_Inr_iff: "check_transactions ctx batch = Inr () \<longleftrightarrow> transactions_ok ctx batch"
proof (cases "find_too_large (max_transaction_size_bytes ctx) batch")
  case None
  then have "max_transaction_size_bytes ctx = 0 \<or>
      (\<forall>t \<in> set batch. length t \<le> max_transaction_size_bytes ctx)"
    by (simp add: find_too_large_None_iff)
  with None show ?thesis
    by (auto simp: check_transactions_def transactions_ok_def Let_def split: if_splits)
next
  case (Some n)
  then have "\<not> (max_transaction_size_bytes ctx = 0 \<or>
      (\<forall>t \<in> set batch. length t \<le> max_transaction_size_bytes ctx))"
    by (metis find_too_large_None_iff option.distinct(1))
  with Some show ?thesis by (simp add: check_transactions_def transactions_ok_def Let_def)
qed

lemma verify_block_Inr_cases:
  "verify_block cr ctx genesis sb = Inr u \<longleftrightarrow>
     blk_epoch (sb_inner sb) = com_epoch (ctx_committee ctx) \<and> 0 < blk_round (sb_inner sb) \<and>
     blk_author (sb_inner sb) \<in> members (ctx_committee ctx) \<and>
     verify_signature cr ctx sb = Inr () \<and>
     length (blk_ancestors (sb_inner sb)) \<le> committee_size (ctx_committee ctx) \<and>
     blk_ancestors (sb_inner sb) \<noteq> [] \<and>
     (\<exists>s. verify_ancestors (ctx_committee ctx) genesis (sb_inner sb) 0
            (replicate (committee_size (ctx_committee ctx)) False) 0 (blk_ancestors (sb_inner sb)) = Inr s \<and>
          reached_quorum (ctx_committee ctx) s) \<and>
     check_transactions ctx (blk_transactions_data (sb_inner sb)) = Inr ()"
  by (auto simp: verify_block_def Let_def is_valid_index_iff split: sum.splits)

lemma verify_block_Inr_iff:
  assumes wf: "committee_wf (ctx_committee ctx)"
  shows "verify_block cr ctx genesis sb = Inr () \<longleftrightarrow>
     block_ok (ctx_committee ctx) genesis (sb_inner sb) \<and>
     verify_signature cr ctx sb = Inr () \<and>
     transactions_ok ctx (blk_transactions_data (sb_inner sb))"
proof -
  have anc: "length (blk_ancestors b) \<le> committee_size (ctx_committee ctx) \<and> blk_ancestors b \<noteq> [] \<and>
      (\<exists>s. verify_ancestors (ctx_committee ctx) genesis b 0
          (replicate (committee_size (ctx_committee ctx)) False) 0 (blk_ancestors b) = Inr s \<and>
        reached_quorum (ctx_committee ctx) s) \<longleftrightarrow> ancestors_ok (ctx_committee ctx) genesis b"
    if "0 < blk_round b" for b
    using verify_ancestors_iff_ok [OF wf that] ancestors_ok_length ancestors_ok_entries by metis
  show ?thesis
    unfolding verify_block_Inr_cases check_transactions_Inr_iff block_ok_def using anc by blast
qed

section \<open>Properties\<close>

text \<open>
  C16. \<open>SignedBlockVerifier::verify_block\<close> accepts exactly the blocks of the committee's epoch, of
  a round above genesis and by a valid author, with a valid signature, whose ancestors start with a
  block of the author, are by distinct valid authorities, are of lower rounds (those of round 0
  being the genesis blocks of the epoch) and contain a quorum of parents of the previous round, and
  whose transactions are within the three size limits.
\<close>

theorem verify_block_accepts_iff:
  assumes "committee_wf (ctx_committee ctx)"
  shows "verify_block cr ctx genesis sb = Inr () \<longleftrightarrow>
     block_ok (ctx_committee ctx) genesis (sb_inner sb) \<and>
     verify_signature cr ctx sb = Inr () \<and>
     transactions_ok ctx (blk_transactions_data (sb_inner sb))"
  using assms by (rule verify_block_Inr_iff)

theorem verify_block_accepts_iff_witness:
  "verify_block sample_crypto sample_context sample_genesis
     (sample_signed 1 0 5 (map (sample_ref 0) [0, 1, 2])) = Inr () \<and>
   verify_block sample_crypto sample_context sample_genesis
     (sample_signed 1 0 5 (map (sample_ref 0) [0, 1, 1])) \<noteq> Inr ()"
proof -
  have wf: "committee_wf (ctx_committee sample_context)" by (simp add: sample_committee_wf)
  have "block_ok sample_committee sample_genesis
      (sb_inner (sample_signed 1 0 5 (map (sample_ref 0) [0, 1, 2])))" by code_simp
  moreover have "verify_signature sample_crypto sample_context
      (sample_signed 1 0 5 (map (sample_ref 0) [0, 1, 2])) = Inr ()" by code_simp
  moreover have "transactions_ok sample_context
      (blk_transactions_data (sb_inner (sample_signed 1 0 5 (map (sample_ref 0) [0, 1, 2]))))"
    by code_simp
  moreover have "\<not> block_ok sample_committee sample_genesis
      (sb_inner (sample_signed 1 0 5 (map (sample_ref 0) [0, 1, 1])))" by code_simp
  ultimately show ?thesis
    by (simp only: verify_block_accepts_iff [OF wf] sample_context_committee) simp
qed

end
