(* ===== verification/Threshold_Clock.thy ===== *)
theory Threshold_Clock
  imports Stake_Aggregator Sample_Network
begin

text \<open>
  \<open>ThresholdClock\<close> (\<^verbatim>\<open>consensus/core/src/threshold_clock.rs\<close>): the round this authority may propose
  for, advanced when a quorum of blocks of the current round has been accepted. The field
  \<open>quorum_ts\<close> feeds metrics only and is left out.
\<close>

record threshold_clock =
  clk_aggregator :: stake_aggregator
  clk_round :: round

definition clock_new :: "round \<Rightarrow> threshold_clock" where
  "clock_new r = \<lparr> clk_aggregator = agg_new, clk_round = r \<rparr>"

definition clock_add_block ::
  "committee \<Rightarrow> threshold_clock \<Rightarrow> block_ref \<Rightarrow> (threshold_clock \<times> bool) option" where
  "clock_add_block c clk b =
     (if ref_round b < clk_round clk then Some (clk, False)
      else if ref_round b = clk_round clk then do {
        (agg, hit) \<leftarrow> agg_add QuorumThreshold (clk_aggregator clk) (ref_author b) c;
        if hit
        then Some (clk\<lparr> clk_aggregator := agg_clear agg, clk_round := add_u32 (ref_round b) 1 \<rparr>, True)
        else do {
          _ \<leftarrow> committee_authority c (ref_author b);
          Some (clk\<lparr> clk_aggregator := agg \<rparr>, False)
        }
      }
      else do {
        (agg, hit) \<leftarrow> agg_add QuorumThreshold (agg_clear (clk_aggregator clk)) (ref_author b) c;
        Some (clk\<lparr> clk_aggregator := agg,
                  clk_round := (if hit then add_u32 (ref_round b) 1 else ref_round b) \<rparr>, True)
      })"

definition clock_add_blocks ::
  "committee \<Rightarrow> block_ref list \<Rightarrow> threshold_clock \<Rightarrow> threshold_clock option" where
  "clock_add_blocks c bs clk = for_each (\<lambda>b clk. map_option fst (clock_add_block c clk b)) bs clk"

definition clock_get_round :: "threshold_clock \<Rightarrow> round" where
  "clock_get_round clk = clk_round clk"

section \<open>Specification\<close>

text \<open>
  The round the clock should show after the blocks \<open>bs\<close>, starting from round \<open>r\<close>: the highest round
  among them, or the next one when the blocks of that round are by a quorum of authorities.
\<close>

definition authors_at :: "block_ref list \<Rightarrow> round \<Rightarrow> authority_index set" where
  "authors_at bs r = ref_author ` set (filter (\<lambda>b. ref_round b = r) bs)"

definition highest_round :: "round \<Rightarrow> block_ref list \<Rightarrow> round" where
  "highest_round r bs = foldl max r (map ref_round bs)"

definition clock_spec :: "committee \<Rightarrow> round \<Rightarrow> block_ref list \<Rightarrow> round" where
  "clock_spec c r bs =
     (let m = highest_round r bs in if is_quorum c (authors_at bs m) then m + 1 else m)"

definition no_single_quorum :: "committee \<Rightarrow> bool" where
  "no_single_quorum c \<longleftrightarrow> (\<forall>a \<in> members c. \<not> is_quorum c {a})"

definition clock_inv :: "committee \<Rightarrow> round \<Rightarrow> block_ref list \<Rightarrow> threshold_clock \<Rightarrow> bool" where
  "clock_inv c r bs clk \<longleftrightarrow>
     clk_round clk = clock_spec c r bs \<and> agg_wf c (clk_aggregator clk) \<and>
     fset (agg_votes (clk_aggregator clk)) = authors_at bs (clk_round clk)"

lemma highest_round_snoc: "highest_round r (bs @ [b]) = max (highest_round r bs) (ref_round b)"
  by (simp add: highest_round_def)

lemma highest_round_ge: "r \<le> highest_round r bs" "b \<in> set bs \<Longrightarrow> ref_round b \<le> highest_round r bs"
  by (induction bs rule: rev_induct) (auto simp: highest_round_snoc, simp_all add: highest_round_def)

lemma authors_at_snoc:
  "authors_at (bs @ [b]) r = (if ref_round b = r then insert (ref_author b) (authors_at bs r) else authors_at bs r)"
  by (auto simp: authors_at_def)

lemma authors_at_above: "highest_round r bs < m \<Longrightarrow> authors_at bs m = {}"
  using highest_round_ge(2) [of _ bs r] by (force simp: authors_at_def)

lemma authors_at_members: "ref_author ` set bs \<subseteq> members c \<Longrightarrow> authors_at bs r \<subseteq> members c"
  by (auto simp: authors_at_def)

lemma empty_no_quorum: "committee_wf c \<Longrightarrow> \<not> is_quorum c {}"
  using cq.quorum_nonempty [of c "{}"] by auto


lemma clock_round_highest:
  "clock_inv c r bs clk \<Longrightarrow> clk_round clk = highest_round r bs \<or> clk_round clk = highest_round r bs + 1"
  by (simp add: clock_inv_def clock_spec_def Let_def)

lemma clock_add_block_below:
  assumes wf: "committee_wf c" and inv: "clock_inv c r bs clk"
    and mem: "ref_author ` set (bs @ [b]) \<subseteq> members c" and lt: "ref_round b < clk_round clk"
  shows "clock_add_block c clk b = Some (clk, False)" and "clock_inv c r (bs @ [b]) clk"
proof -
  show "clock_add_block c clk b = Some (clk, False)"
    using lt by (simp add: clock_add_block_def)
  have hi: "highest_round r (bs @ [b]) = highest_round r bs"
    using clock_round_highest [OF inv] lt by (auto simp: highest_round_snoc)
  have "is_quorum c (authors_at (bs @ [b]) (highest_round r bs))"
    if "is_quorum c (authors_at bs (highest_round r bs))"
    by (rule cq.quorum_up [OF wf that _ authors_at_members [OF mem]]) (auto simp: authors_at_snoc)
  moreover have "authors_at (bs @ [b]) (highest_round r bs) = authors_at bs (highest_round r bs)"
    if "\<not> is_quorum c (authors_at bs (highest_round r bs))"
    using that inv lt by (auto simp: authors_at_snoc clock_inv_def clock_spec_def Let_def)
  ultimately have "clock_spec c r (bs @ [b]) = clock_spec c r bs"
    by (auto simp: clock_spec_def hi Let_def)
  then show "clock_inv c r (bs @ [b]) clk"
    using inv lt by (simp add: clock_inv_def authors_at_snoc)
qed

lemma clock_add_block_equal:
  assumes wf: "committee_wf c" and inv: "clock_inv c r bs clk"
    and mem: "ref_author b \<in> members c" and fits: "ref_round b < u32_max"
    and eq: "ref_round b = clk_round clk"
  shows "\<exists>clk' adv. clock_add_block c clk b = Some (clk', adv) \<and> clock_inv c r (bs @ [b]) clk' \<and>
           adv = (clk_round clk < clk_round clk')"
proof -
  let ?R = "clk_round clk"
  let ?A = "insert (ref_author b) (authors_at bs ?R)"
  have hi: "highest_round r (bs @ [b]) = ?R"
    using clock_round_highest [OF inv] eq by (auto simp: highest_round_snoc)
  have at: "authors_at (bs @ [b]) ?R = ?A" by (simp add: authors_at_snoc eq)
  obtain agg where add: "agg_add QuorumThreshold (clk_aggregator clk) (ref_author b) c =
      Some (agg, is_quorum c ?A)" and agg: "agg_wf c agg" "fset (agg_votes agg) = ?A"
    using agg_add_spec [OF wf _ mem, of "clk_aggregator clk"] inv by (auto simp: clock_inv_def)
  have auth: "\<exists>x. committee_authority c (ref_author b) = Some x"
    using mem by (simp add: committee_authority_def members_def committee_size_def)
  have above: "authors_at (bs @ [b]) (?R + 1) = {}"
    using authors_at_above [of r "bs @ [b]" "?R + 1"] hi by simp
  show ?thesis
    using add agg auth above hi at eq fits
    by (auto simp: clock_add_block_def clock_inv_def clock_spec_def Let_def)
qed

lemma clock_add_block_above:
  assumes wf: "committee_wf c" and single: "no_single_quorum c" and inv: "clock_inv c r bs clk"
    and mem: "ref_author b \<in> members c" and gt: "clk_round clk < ref_round b"
  shows "\<exists>clk' adv. clock_add_block c clk b = Some (clk', adv) \<and> clock_inv c r (bs @ [b]) clk' \<and>
           adv = (clk_round clk < clk_round clk')"
proof -
  have lo: "highest_round r bs < ref_round b"
    using clock_round_highest [OF inv] gt by auto
  then have hi: "highest_round r (bs @ [b]) = ref_round b" by (simp add: highest_round_snoc)
  have at: "authors_at (bs @ [b]) (ref_round b) = {ref_author b}"
    using authors_at_above [OF lo] by (simp add: authors_at_snoc)
  have nq: "\<not> is_quorum c {ref_author b}" using single mem by (simp add: no_single_quorum_def)
  obtain agg where "agg_add QuorumThreshold agg_new (ref_author b) c = Some (agg, False)"
    and "agg_wf c agg" "fset (agg_votes agg) = {ref_author b}"
    using agg_add_spec [OF wf agg_wf_new mem] nq by auto
  with gt hi at nq show ?thesis
    by (auto simp: clock_add_block_def clock_inv_def clock_spec_def Let_def)
qed

lemma clock_add_block_step:
  assumes "committee_wf c" "no_single_quorum c" "clock_inv c r bs clk"
    "ref_author ` set (bs @ [b]) \<subseteq> members c" "ref_round b < u32_max"
  shows "\<exists>clk' adv. clock_add_block c clk b = Some (clk', adv) \<and> clock_inv c r (bs @ [b]) clk' \<and>
           adv = (clk_round clk < clk_round clk')"
  using clock_add_block_below [OF assms(1,3,4)] clock_add_block_equal [OF assms(1,3)]
    clock_add_block_above [OF assms(1-3)] assms(4,5)
  by (cases "ref_round b" "clk_round clk" rule: linorder_cases) auto

lemma clock_inv_new: "committee_wf c \<Longrightarrow> clock_inv c r [] (clock_new r)"
  by (simp add: clock_inv_def clock_spec_def clock_new_def highest_round_def authors_at_def
      empty_no_quorum)

lemma clock_add_blocks_inv:
  assumes "committee_wf c" "no_single_quorum c"
    "\<forall>b \<in> set bs. ref_author b \<in> members c \<and> ref_round b < u32_max"
  shows "\<exists>clk. clock_add_blocks c bs (clock_new r) = Some clk \<and> clock_inv c r bs clk"
  using assms(3)
proof (induction bs rule: rev_induct)
  case Nil
  then show ?case using clock_inv_new [OF assms(1)] by (simp add: clock_add_blocks_def)
next
  case (snoc b bs)
  then obtain clk where clk: "clock_add_blocks c bs (clock_new r) = Some clk" "clock_inv c r bs clk"
    by auto
  have "ref_author ` set (bs @ [b]) \<subseteq> members c" using snoc.prems by auto
  with clock_add_block_step [OF assms(1,2) clk(2)] snoc.prems obtain clk' adv where
    "clock_add_block c clk b = Some (clk', adv)" "clock_inv c r (bs @ [b]) clk'" by force
  with clk show ?case by (simp add: clock_add_blocks_def)
qed

section \<open>Properties\<close>



text \<open>
  The hypothesis is needed: when a block of a later round is by an authority that is a quorum by
  itself, \<open>add_block\<close> moves past its round without clearing the aggregator, and the next block then
  advances the clock whatever its author's stake.
\<close>

definition heavy_committee :: committee where
  "heavy_committee = \<lparr> com_epoch = 0, com_total_stake = 9, com_quorum_threshold = 7,
     com_validity_threshold = 3, com_authorities = map sample_authority [7, 1, 1] \<rparr>"

theorem threshold_clock_stale_votes:
  "committee_new 0 (map sample_authority [7, 1, 1]) = Some heavy_committee \<and>
   map_option clock_get_round
     (clock_add_blocks heavy_committee [sample_ref 1 0, sample_ref 2 1] (clock_new 0)) = Some 3 \<and>
   \<not> is_quorum heavy_committee (authors_at [sample_ref 1 0, sample_ref 2 1] 2)"
  by code_simp

end
