(* ===== verification/Commits.thy ===== *)
theory Commits
  imports Sample_Network
begin

text \<open>
  Commits and leader decisions (\<^verbatim>\<open>consensus/core/src/commit.rs\<close>): the commit summary with its
  digest, commit ranges, the committed sub-DAG handed to execution, the status of a leader slot, and
  the reconstruction of a committed sub-DAG from storage.
\<close>

section \<open>Commits\<close>

definition GENESIS_COMMIT_INDEX :: commit_index where "GENESIS_COMMIT_INDEX = 0"
definition MINIMUM_WAVE_LENGTH :: round where "MINIMUM_WAVE_LENGTH = 3"
definition DEFAULT_WAVE_LENGTH :: round where "DEFAULT_WAVE_LENGTH = MINIMUM_WAVE_LENGTH"

definition commit_new ::
  "commit_index \<Rightarrow> digest \<Rightarrow> nat \<Rightarrow> block_ref \<Rightarrow> block_ref list \<Rightarrow> commit" where
  "commit_new index previous_digest timestamp_ms leader blocks =
     CommitV1 \<lparr> cv1_index = index, cv1_previous_digest = previous_digest,
       cv1_timestamp_ms = timestamp_ms, cv1_leader = leader, cv1_blocks = blocks \<rparr>"

fun commit_round :: "commit \<Rightarrow> round" where
  "commit_round (CommitV1 c) = ref_round (cv1_leader c)"

fun commit_idx :: "commit \<Rightarrow> commit_index" where
  "commit_idx (CommitV1 c) = cv1_index c"

fun commit_previous_digest :: "commit \<Rightarrow> digest" where
  "commit_previous_digest (CommitV1 c) = cv1_previous_digest c"

fun commit_timestamp_ms :: "commit \<Rightarrow> nat" where
  "commit_timestamp_ms (CommitV1 c) = cv1_timestamp_ms c"

fun commit_leader :: "commit \<Rightarrow> block_ref" where
  "commit_leader (CommitV1 c) = cv1_leader c"

fun commit_blocks :: "commit \<Rightarrow> block_ref list" where
  "commit_blocks (CommitV1 c) = cv1_blocks c"

lemma commit_new_sel [simp]:
  "commit_round (commit_new i p t l bs) = ref_round l"
  "commit_idx (commit_new i p t l bs) = i"
  "commit_previous_digest (commit_new i p t l bs) = p"
  "commit_timestamp_ms (commit_new i p t l bs) = t"
  "commit_leader (commit_new i p t l bs) = l"
  "commit_blocks (commit_new i p t l bs) = bs"
  by (simp_all add: commit_new_def)

record trusted_commit =
  tc_commit :: commit
  tc_digest :: digest
  tc_serialized :: bytes

definition new_trusted :: "crypto \<Rightarrow> commit \<Rightarrow> bytes \<Rightarrow> trusted_commit" where
  "new_trusted cr c serialized =
     \<lparr> tc_commit = c, tc_digest = cr_hash cr serialized, tc_serialized = serialized \<rparr>"

definition tc_reference :: "trusted_commit \<Rightarrow> commit_ref" where
  "tc_reference tc = CommitRef (commit_idx (tc_commit tc)) (tc_digest tc)"

text \<open>\<open>TrustedCommit\<close> dereferences to its inner \<open>Commit\<close>.\<close>

abbreviation tc_round :: "trusted_commit \<Rightarrow> round" where "tc_round tc \<equiv> commit_round (tc_commit tc)"
abbreviation tc_index :: "trusted_commit \<Rightarrow> commit_index" where "tc_index tc \<equiv> commit_idx (tc_commit tc)"
abbreviation tc_timestamp_ms :: "trusted_commit \<Rightarrow> nat" where
  "tc_timestamp_ms tc \<equiv> commit_timestamp_ms (tc_commit tc)"
abbreviation tc_leader :: "trusted_commit \<Rightarrow> block_ref" where "tc_leader tc \<equiv> commit_leader (tc_commit tc)"
abbreviation tc_blocks :: "trusted_commit \<Rightarrow> block_ref list" where
  "tc_blocks tc \<equiv> commit_blocks (tc_commit tc)"

record certified_commit =
  cc_commit :: trusted_commit
  cc_blocks :: "verified_block list"

record certified_commits =
  ccs_commits :: "certified_commit list"
  ccs_votes :: "verified_block list"

text \<open>\<open>CommitRef\<close> derives its order: by index, then by digest.\<close>

definition cref_key :: "commit_ref \<Rightarrow> nat \<times> digest" where
  "cref_key r = (cref_index r, cref_digest r)"

lemma cref_key_inject [simp]: "cref_key a = cref_key b \<longleftrightarrow> a = b"
  by (cases a; cases b) (simp add: cref_key_def)

instantiation commit_ref :: linorder
begin

definition less_eq_commit_ref :: "commit_ref \<Rightarrow> commit_ref \<Rightarrow> bool" where
  "less_eq_commit_ref a b \<longleftrightarrow> cref_key a \<le> cref_key b"

definition less_commit_ref :: "commit_ref \<Rightarrow> commit_ref \<Rightarrow> bool" where
  "less_commit_ref a b \<longleftrightarrow> cref_key a < cref_key b"

instance
  by intro_classes (auto simp: less_eq_commit_ref_def less_commit_ref_def order.strict_iff_order)

end

section \<open>Commit ranges\<close>

text \<open>The end is stored exclusively, as in the underlying \<open>Range\<close>.\<close>

datatype commit_range = CommitRange (cr_first: commit_index) (cr_bound: commit_index)

definition range_new :: "commit_index \<Rightarrow> commit_index \<Rightarrow> commit_range" where
  "range_new s e = CommitRange s (saturating_add_u32 e 1)"

definition range_start :: "commit_range \<Rightarrow> commit_index" where
  "range_start r = cr_first r"

definition range_end :: "commit_range \<Rightarrow> commit_index" where
  "range_end r = cr_bound r - 1"

definition range_extend_to :: "commit_range \<Rightarrow> commit_index \<Rightarrow> commit_range option" where
  "range_extend_to r other =
     (let new_end = saturating_add_u32 other 1 in
      if cr_bound r \<le> new_end then Some (CommitRange (cr_first r) new_end) else None)"

definition range_size :: "commit_range \<Rightarrow> nat option" where
  "range_size r = (if cr_first r \<le> cr_bound r then Some (cr_bound r - cr_first r) else None)"

definition range_is_equal_size :: "commit_range \<Rightarrow> commit_range \<Rightarrow> bool option" where
  "range_is_equal_size r s = do { m \<leftarrow> range_size r; n \<leftarrow> range_size s; Some (m = n) }"

definition range_is_next :: "commit_range \<Rightarrow> commit_range \<Rightarrow> bool" where
  "range_is_next r s \<longleftrightarrow> cr_bound r = cr_first s"

definition range_default :: commit_range where "range_default = CommitRange 0 0"

definition range_members :: "commit_range \<Rightarrow> commit_index set" where
  "range_members r = {cr_first r..<cr_bound r}"

lemma range_new_members:
  assumes "s \<le> e" and "e < u32_max"
  shows "range_start (range_new s e) = s" and "range_end (range_new s e) = e"
    and "range_size (range_new s e) = Some (e - s + 1)"
    and "range_members (range_new s e) = {s..e}"
  using assms by (auto simp: range_new_def range_start_def range_end_def range_size_def
      range_members_def saturating_add_u32_def)

lemma range_extend_to_members:
  assumes "cr_first r \<le> cr_bound r" and "cr_bound r \<le> i" and "i < u32_max"
  shows "\<exists>r'. range_extend_to r i = Some r' \<and> range_members r' = range_members r \<union> {cr_bound r..i}"
  using assms by (auto simp: range_extend_to_def range_members_def saturating_add_u32_def Let_def)

section \<open>Reputation scores and commit info\<close>

record reputation_scores =
  scores_per_authority :: "nat list"
  rs_commit_range :: commit_range

definition reputation_scores_default :: reputation_scores where
  "reputation_scores_default = \<lparr> scores_per_authority = [], rs_commit_range = range_default \<rparr>"

record commit_info =
  ci_committed_rounds :: "round list"
  ci_reputation_scores :: reputation_scores

section \<open>Leader decisions\<close>

datatype decision = Direct | Indirect | Certified

datatype leader_status = Commit verified_block | Skip slot | Undecided slot

fun status_round :: "leader_status \<Rightarrow> round" where
  "status_round (Commit b) = vb_round b"
| "status_round (Skip l) = slot_round l"
| "status_round (Undecided l) = slot_round l"

fun is_decided :: "leader_status \<Rightarrow> bool" where
  "is_decided (Commit b) = True"
| "is_decided (Skip l) = True"
| "is_decided (Undecided l) = False"

datatype decided_leader = DecidedCommit verified_block bool | DecidedSkip slot

fun into_decided_leader :: "leader_status \<Rightarrow> bool \<Rightarrow> decided_leader option" where
  "into_decided_leader (Commit b) direct = Some (DecidedCommit b direct)"
| "into_decided_leader (Skip l) direct = Some (DecidedSkip l)"
| "into_decided_leader (Undecided l) direct = None"

fun decided_slot :: "decided_leader \<Rightarrow> slot" where
  "decided_slot (DecidedCommit b direct) = slot_of (vb_reference b)"
| "decided_slot (DecidedSkip l) = l"

fun into_committed_block :: "decided_leader \<Rightarrow> verified_block option" where
  "into_committed_block (DecidedCommit b direct) = Some b"
| "into_committed_block (DecidedSkip l) = None"

lemma into_decided_leader_None_iff: "into_decided_leader s d = None \<longleftrightarrow> \<not> is_decided s"
  by (cases s) auto

section \<open>Committed sub-DAGs\<close>

record committed_sub_dag =
  csd_leader :: block_ref
  csd_blocks :: "verified_block list"
  csd_timestamp_ms :: nat
  csd_commit_ref :: commit_ref
  csd_decided_with_local_blocks :: bool
  csd_reputation_scores_desc :: "(authority_index \<times> nat) list"
  csd_rejected_transactions_by_block :: "(block_ref, transaction_index list) fmap"

definition committed_sub_dag_new ::
  "block_ref \<Rightarrow> verified_block list \<Rightarrow> nat \<Rightarrow> commit_ref \<Rightarrow> committed_sub_dag" where
  "committed_sub_dag_new leader blocks timestamp_ms cref =
     \<lparr> csd_leader = leader, csd_blocks = blocks, csd_timestamp_ms = timestamp_ms,
       csd_commit_ref = cref, csd_decided_with_local_blocks = True,
       csd_reputation_scores_desc = [], csd_rejected_transactions_by_block = fmempty \<rparr>"

text \<open>\<open>sort_by\<close> of the standard library is stable, and so is \<^const>\<open>sort_key\<close>.\<close>

definition sort_sub_dag_blocks :: "verified_block list \<Rightarrow> verified_block list" where
  "sort_sub_dag_blocks blocks = sort_key (\<lambda>b. (vb_round b, vb_author b)) blocks"

text \<open>
  \<open>read_blocks\<close> is the operation of the store. The loop over the blocks remembers the index of the
  last block whose reference is the leader's.
\<close>

fun last_index_where :: "('a \<Rightarrow> bool) \<Rightarrow> nat \<Rightarrow> 'a list \<Rightarrow> nat option \<Rightarrow> nat option" where
  "last_index_where P i [] acc = acc"
| "last_index_where P i (x # xs) acc = last_index_where P (i + 1) xs (if P x then Some i else acc)"

definition load_committed_subdag_from_store ::
  "(block_ref list \<Rightarrow> verified_block option list) \<Rightarrow> trusted_commit \<Rightarrow>
     (authority_index \<times> nat) list \<Rightarrow> committed_sub_dag option" where
  "load_committed_subdag_from_store read_blocks tc reputation_scores_desc = do {
     blocks \<leftarrow> traverse (\<lambda>b. b) (read_blocks (tc_blocks tc));
     leader_block_idx \<leftarrow> last_index_where (\<lambda>b. vb_reference b = tc_leader tc) 0 blocks None;
     leader_block \<leftarrow> vec_get blocks leader_block_idx;
     Some ((committed_sub_dag_new (vb_reference leader_block) blocks (tc_timestamp_ms tc)
              (tc_reference tc))
            \<lparr> csd_reputation_scores_desc := reputation_scores_desc \<rparr>)
   }"

lemma last_index_where_Some:
  "(case last_index_where P i xs acc of
      None \<Rightarrow> acc = None \<and> (\<forall>x \<in> set xs. \<not> P x)
    | Some j \<Rightarrow> (acc = Some j \<and> (\<forall>x \<in> set xs. \<not> P x)) \<or> (i \<le> j \<and> j < i + length xs \<and> P (xs ! (j - i))))"
proof (induction xs arbitrary: i acc)
  case Nil
  then show ?case by (auto split: option.splits)
next
  case (Cons x xs)
  show ?case
    using Cons.IH [where i = "i + 1" and acc = "if P x then Some i else acc"]
    by (auto split: option.splits if_splits simp: nth_Cons')
qed

lemma last_index_where_found:
  assumes "x \<in> set xs" and "P x"
  shows "\<exists>j < length xs. last_index_where P 0 xs None = Some j \<and> P (xs ! j)"
  using last_index_where_Some [where P = P and i = 0 and xs = xs and acc = None] assms by (auto split: option.splits)

lemma load_committed_subdag_from_store_eq:
  assumes blocks: "read_blocks (tc_blocks tc) = map Some bs"
    and leader: "\<exists>b \<in> set bs. vb_reference b = tc_leader tc"
  shows "load_committed_subdag_from_store read_blocks tc scores =
     Some ((committed_sub_dag_new (tc_leader tc) bs (tc_timestamp_ms tc) (tc_reference tc))
            \<lparr> csd_reputation_scores_desc := scores \<rparr>)"
proof -
  have "traverse (\<lambda>b. b) (map Some bs) = Some bs"
    by (simp add: traverse_Some_conv)
  moreover obtain j where "j < length bs" "vb_reference (bs ! j) = tc_leader tc"
    "last_index_where (\<lambda>b. vb_reference b = tc_leader tc) 0 bs None = Some j"
    using last_index_where_found [of _ bs "\<lambda>b. vb_reference b = tc_leader tc"] leader by blast
  ultimately show ?thesis
    by (simp add: load_committed_subdag_from_store_def blocks)
qed

end
