(* ===== verification/Mem_Store.thy ===== *)
theory Mem_Store
  imports Commits
begin

text \<open>
  Storage (\<^verbatim>\<open>consensus/core/src/storage/mod.rs\<close>, \<^verbatim>\<open>consensus/core/src/storage/mem_store.rs\<close>). The
  trait \<open>Store\<close> is the locale \<open>block_store\<close>; its in-memory implementation \<open>MemStore\<close> is the record
  \<open>mem_store\<close> with one function per operation, and the interpretation \<open>ms\<close> discharges the laws.
  None of the operations of \<open>MemStore\<close> returns an error.
\<close>

section \<open>Write batches\<close>

type_synonym rejected_map = "(block_ref, transaction_index list) fmap"

record write_batch =
  wb_blocks :: "verified_block list"
  wb_commits :: "trusted_commit list"
  wb_commit_info :: "(commit_ref \<times> commit_info) list"
  wb_finalized_commits :: "(commit_ref \<times> rejected_map) list"

definition write_batch_new ::
  "verified_block list \<Rightarrow> trusted_commit list \<Rightarrow> (commit_ref \<times> commit_info) list \<Rightarrow>
     (commit_ref \<times> rejected_map) list \<Rightarrow> write_batch" where
  "write_batch_new blocks commits infos finalized =
     \<lparr> wb_blocks = blocks, wb_commits = commits, wb_commit_info = infos,
       wb_finalized_commits = finalized \<rparr>"

section \<open>The in-memory store\<close>

type_synonym commit_key = "commit_index \<times> digest"

record mem_store =
  ms_blocks :: "(round \<times> authority_index \<times> digest, verified_block) fmap"
  ms_digests_by_authorities :: "(authority_index \<times> round \<times> digest) fset"
  ms_commits :: "(commit_key, trusted_commit) fmap"
  ms_commit_votes :: "(commit_index \<times> digest \<times> block_ref) fset"
  ms_commit_info :: "(commit_key, commit_info) fmap"
  ms_finalized_commits :: "(commit_key, rejected_map) fmap"

definition ms_new :: mem_store where
  "ms_new = \<lparr> ms_blocks = fmempty, ms_digests_by_authorities = {||}, ms_commits = fmempty,
     ms_commit_votes = {||}, ms_commit_info = fmempty, ms_finalized_commits = fmempty \<rparr>"

definition block_key :: "block_ref \<Rightarrow> round \<times> authority_index \<times> digest" where
  "block_key r = (ref_round r, ref_author r, ref_digest r)"

definition commit_key_of :: "commit_ref \<Rightarrow> commit_key" where
  "commit_key_of r = (cref_index r, cref_digest r)"

definition ms_write_block :: "mem_store \<Rightarrow> verified_block \<Rightarrow> mem_store" where
  "ms_write_block s b =
     (let r = vb_reference b in
      s\<lparr> ms_blocks := fmupd (block_key r) b (ms_blocks s),
         ms_digests_by_authorities :=
           finsert (ref_author r, ref_round r, ref_digest r) (ms_digests_by_authorities s),
         ms_commit_votes :=
           fold (\<lambda>v. finsert (cref_index v, cref_digest v, r)) (blk_commit_votes (vb_block b))
             (ms_commit_votes s) \<rparr>)"

definition ms_write_commit :: "mem_store \<Rightarrow> trusted_commit \<Rightarrow> mem_store" where
  "ms_write_commit s tc = s\<lparr> ms_commits := fmupd (tc_index tc, tc_digest tc) tc (ms_commits s) \<rparr>"

definition ms_write_info :: "mem_store \<Rightarrow> commit_ref \<times> commit_info \<Rightarrow> mem_store" where
  "ms_write_info s = (\<lambda>(r, info). s\<lparr> ms_commit_info := fmupd (commit_key_of r) info (ms_commit_info s) \<rparr>)"

definition ms_write_finalized :: "mem_store \<Rightarrow> commit_ref \<times> rejected_map \<Rightarrow> mem_store" where
  "ms_write_finalized s = (\<lambda>(r, rejected).
     s\<lparr> ms_finalized_commits := fmupd (commit_key_of r) rejected (ms_finalized_commits s) \<rparr>)"

definition ms_write :: "mem_store \<Rightarrow> write_batch \<Rightarrow> mem_store" where
  "ms_write s wb =
     foldl ms_write_finalized
       (foldl ms_write_info
         (foldl ms_write_commit
           (foldl ms_write_block s (wb_blocks wb)) (wb_commits wb)) (wb_commit_info wb))
       (wb_finalized_commits wb)"

definition ms_read_blocks :: "mem_store \<Rightarrow> block_ref list \<Rightarrow> verified_block option list" where
  "ms_read_blocks s refs = map (\<lambda>r. fmlookup (ms_blocks s) (block_key r)) refs"

definition ms_contains_blocks :: "mem_store \<Rightarrow> block_ref list \<Rightarrow> bool list" where
  "ms_contains_blocks s refs = map (\<lambda>r. block_key r |\<in>| fmdom (ms_blocks s)) refs"

definition ms_scan_blocks_by_author ::
  "mem_store \<Rightarrow> authority_index \<Rightarrow> round \<Rightarrow> verified_block list option" where
  "ms_scan_blocks_by_author s author start_round =
     (let refs = map (\<lambda>(a, r, d). BlockRef r a d)
            (btree_range (\<lambda>k. (author, start_round, digest_min) \<le> k \<and> k \<le> (author, u32_max, digest_max))
              (ms_digests_by_authorities s)) in
      traverse (\<lambda>b. b) (ms_read_blocks s refs))"

subsection \<open>Ring buffers\<close>

text \<open>
  \<open>scan_last_blocks_by_author\<close> collects references with \<open>VecDeque::push_front\<close> and reads the first
  slice of \<open>as_slices\<close>. A \<open>VecDeque\<close> is a ring buffer: \<open>vd_items\<close> is its logical content, stored
  from position \<open>vd_head\<close> in a buffer of \<open>vd_cap\<close> cells, and the first slice is the part before the
  end of the buffer. A full buffer doubles (from at least four cells) before the insertion.
\<close>

record 'a vec_deque =
  vd_items :: "'a list"
  vd_cap :: nat
  vd_head :: nat

definition vd_new :: "'a vec_deque" where
  "vd_new = \<lparr> vd_items = [], vd_cap = 0, vd_head = 0 \<rparr>"

definition vd_grow :: "'a vec_deque \<Rightarrow> 'a vec_deque" where
  "vd_grow d =
     (let len = length (vd_items d); cap = vd_cap d; head = vd_head d; new_cap = max (2 * cap) 4;
          head_len = cap - head; tail_len = len - head_len in
      if len < cap then d
      else d\<lparr> vd_cap := new_cap,
              vd_head := (if head \<le> cap - len then head
                          else if tail_len < head_len \<and> tail_len \<le> new_cap - cap then head
                          else new_cap - head_len) \<rparr>)"

definition vd_push_front :: "'a vec_deque \<Rightarrow> 'a \<Rightarrow> 'a vec_deque" where
  "vd_push_front d x =
     (let d' = vd_grow d in
      d'\<lparr> vd_items := x # vd_items d',
          vd_head := (if vd_head d' = 0 then vd_cap d' - 1 else vd_head d' - 1) \<rparr>)"

definition vd_first_slice :: "'a vec_deque \<Rightarrow> 'a list" where
  "vd_first_slice d = take (vd_cap d - vd_head d) (vd_items d)"

definition ms_scan_last_blocks_by_author ::
  "mem_store \<Rightarrow> authority_index \<Rightarrow> nat \<Rightarrow> round option \<Rightarrow> verified_block list option" where
  "ms_scan_last_blocks_by_author s author num_of_rounds before_round =
     (let before = (case before_round of None \<Rightarrow> u32_max | Some r \<Rightarrow> r);
          keys = btree_range (\<lambda>k. (author, 0, digest_min) \<le> k \<and> k \<le> (author, before, digest_max))
                   (ms_digests_by_authorities s);
          refs = foldl (\<lambda>d (a, r, dg). vd_push_front d (BlockRef r a dg)) vd_new
                   (take num_of_rounds (rev keys));
          results = ms_read_blocks s (vd_first_slice refs) in
      traverse snd (zip (vd_items refs) results))"

definition btree_last_entry :: "('k::linorder, 'v) fmap \<Rightarrow> ('k \<times> 'v) option" where
  "btree_last_entry m = do { k \<leftarrow> btree_last (fmdom m); v \<leftarrow> fmlookup m k; Some (k, v) }"

definition btree_map_range :: "('k::linorder \<Rightarrow> bool) \<Rightarrow> ('k, 'v) fmap \<Rightarrow> ('k \<times> 'v) list" where
  "btree_map_range P m = map (\<lambda>k. (k, the (fmlookup m k))) (btree_range P (fmdom m))"

definition ms_read_last_commit :: "mem_store \<Rightarrow> trusted_commit option" where
  "ms_read_last_commit s = map_option snd (btree_last_entry (ms_commits s))"

text \<open>\<open>BTreeMap::range\<close> panics when the start of the range is greater than its end.\<close>

definition ms_scan_commits :: "mem_store \<Rightarrow> commit_range \<Rightarrow> trusted_commit list option" where
  "ms_scan_commits s r = do {
     assert_rs ((range_start r, digest_min) \<le> (range_end r, digest_max));
     Some (map snd (btree_map_range
       (\<lambda>k. (range_start r, digest_min) \<le> k \<and> k \<le> (range_end r, digest_max)) (ms_commits s)))
   }"

definition ms_read_commit_votes :: "mem_store \<Rightarrow> commit_index \<Rightarrow> block_ref list" where
  "ms_read_commit_votes s i =
     map (\<lambda>(_, _, r). r)
       (btree_range (\<lambda>k. (i, digest_min, block_ref_min) \<le> k \<and> k \<le> (i, digest_max, block_ref_max))
         (ms_commit_votes s))"

definition ms_read_last_commit_info :: "mem_store \<Rightarrow> (commit_ref \<times> commit_info) option" where
  "ms_read_last_commit_info s =
     map_option (\<lambda>((i, d), info). (CommitRef i d, info)) (btree_last_entry (ms_commit_info s))"

definition ms_read_last_finalized_commit :: "mem_store \<Rightarrow> commit_ref option" where
  "ms_read_last_finalized_commit s =
     map_option (\<lambda>((i, d), _). CommitRef i d) (btree_last_entry (ms_finalized_commits s))"

definition ms_scan_finalized_commits ::
  "mem_store \<Rightarrow> commit_range \<Rightarrow> (commit_ref \<times> rejected_map) list option" where
  "ms_scan_finalized_commits s r = do {
     assert_rs ((range_start r, digest_min) \<le> (range_end r, digest_max));
     Some (map (\<lambda>((i, d), rejected). (CommitRef i d, rejected))
       (btree_map_range (\<lambda>k. (range_start r, digest_min) \<le> k \<and> k \<le> (range_end r, digest_max))
         (ms_finalized_commits s)))
   }"

section \<open>The interface\<close>

text \<open>
  What clients rely on: \<open>blocks_of s\<close> is the content of the store, reads return it, a write adds the
  blocks of the batch (a later block of the batch wins over an earlier one with the same reference),
  and a scan returns the blocks of an author from a round on, in the order of their references.
\<close>

definition written_blocks :: "verified_block list \<Rightarrow> block_ref \<Rightarrow> verified_block option" where
  "written_blocks bs = map_of (rev (map (\<lambda>b. (vb_reference b, b)) bs))"

locale block_store =
  fixes invar :: "'s \<Rightarrow> bool"
    and blocks_of :: "'s \<Rightarrow> block_ref \<Rightarrow> verified_block option"
    and store_write :: "'s \<Rightarrow> write_batch \<Rightarrow> 's"
    and read_blocks :: "'s \<Rightarrow> block_ref list \<Rightarrow> verified_block option list"
    and contains_blocks :: "'s \<Rightarrow> block_ref list \<Rightarrow> bool list"
    and scan :: "'s \<Rightarrow> authority_index \<Rightarrow> round \<Rightarrow> verified_block list option"
  assumes blocks_ref: "invar s \<Longrightarrow> blocks_of s r = Some b \<Longrightarrow> vb_reference b = r"
    and read_law: "invar s \<Longrightarrow> read_blocks s refs = map (blocks_of s) refs"
    and contains_law: "invar s \<Longrightarrow> contains_blocks s refs = map (\<lambda>r. blocks_of s r \<noteq> None) refs"
    and write_invar: "invar s \<Longrightarrow> (\<And>b. b \<in> set (wb_blocks wb) \<Longrightarrow> vb_round b \<le> u32_max) \<Longrightarrow>
      invar (store_write s wb)"
    and write_law: "invar s \<Longrightarrow> blocks_of (store_write s wb) = blocks_of s ++ written_blocks (wb_blocks wb)"
    and scan_law: "invar s \<Longrightarrow> \<exists>bs. scan s a start = Some bs \<and> sorted (map vb_reference bs) \<and>
      distinct (map vb_reference bs) \<and>
      set bs = {b. blocks_of s (vb_reference b) = Some b \<and> vb_author b = a \<and> start \<le> vb_round b}"
begin

lemma read_written:
  assumes "invar s" and "distinct (map vb_reference (wb_blocks wb))" and "b \<in> set (wb_blocks wb)"
    and "\<And>b. b \<in> set (wb_blocks wb) \<Longrightarrow> vb_round b \<le> u32_max"
  shows "read_blocks (store_write s wb) [vb_reference b] = [Some b]"
proof -
  have "written_blocks (wb_blocks wb) (vb_reference b) = Some b"
    using assms(2,3) unfolding written_blocks_def
    by (intro map_of_is_SomeI) (auto simp: rev_map [symmetric] comp_def)
  then show ?thesis
    using read_law [OF write_invar [OF assms(1,4)]] write_law [OF assms(1)] by simp
qed

lemma read_not_written:
  assumes "invar s" and "r \<notin> vb_reference ` set (wb_blocks wb)"
    and "\<And>b. b \<in> set (wb_blocks wb) \<Longrightarrow> vb_round b \<le> u32_max"
  shows "read_blocks (store_write s wb) [r] = read_blocks s [r]"
proof -
  have "written_blocks (wb_blocks wb) r = None"
    using assms(2) by (auto simp: written_blocks_def map_of_eq_None_iff)
  then show ?thesis
    using read_law [OF write_invar [OF assms(1,3)]] read_law [OF assms(1)] write_law [OF assms(1)]
    by (simp add: map_add_def)
qed

lemma contains_iff_read:
  "invar s \<Longrightarrow> contains_blocks s refs = map (\<lambda>b. b \<noteq> None) (read_blocks s refs)"
  by (simp add: contains_law read_law)

end

section \<open>The in-memory store implements the interface\<close>

definition ms_blocks_of :: "mem_store \<Rightarrow> block_ref \<Rightarrow> verified_block option" where
  "ms_blocks_of s r = fmlookup (ms_blocks s) (block_key r)"

definition ms_inv :: "mem_store \<Rightarrow> bool" where
  "ms_inv s \<longleftrightarrow>
     (\<forall>k b. fmlookup (ms_blocks s) k = Some b \<longrightarrow> block_key (vb_reference b) = k \<and> vb_round b \<le> u32_max) \<and>
     ms_digests_by_authorities s = (\<lambda>(r, a, d). (a, r, d)) |`| fmdom (ms_blocks s)"

lemma block_key_inject [simp]: "block_key r = block_key r' \<longleftrightarrow> r = r'"
  by (cases r; cases r') (simp add: block_key_def)

lemma ms_inv_new: "ms_inv ms_new"
  by (simp add: ms_inv_def ms_new_def)

lemma ms_write_block_inv: "ms_inv s \<Longrightarrow> vb_round b \<le> u32_max \<Longrightarrow> ms_inv (ms_write_block s b)"
  by (auto simp: ms_inv_def ms_write_block_def Let_def block_key_def)

lemma ms_write_block_blocks [simp]:
  "ms_blocks (ms_write_block s b) = fmupd (block_key (vb_reference b)) b (ms_blocks s)"
  by (simp add: ms_write_block_def Let_def)

lemma ms_write_commit_frame [frame_simps]:
  "ms_blocks (foldl ms_write_commit s cs) = ms_blocks s"
  "ms_digests_by_authorities (foldl ms_write_commit s cs) = ms_digests_by_authorities s"
  by (induction cs arbitrary: s) (simp_all add: ms_write_commit_def)

lemma ms_write_info_frame [frame_simps]:
  "ms_blocks (foldl ms_write_info s is) = ms_blocks s"
  "ms_digests_by_authorities (foldl ms_write_info s is) = ms_digests_by_authorities s"
  "ms_commits (foldl ms_write_info s is) = ms_commits s"
  by (induction "is" arbitrary: s) (simp_all add: ms_write_info_def split: prod.splits)

lemma ms_write_finalized_frame [frame_simps]:
  "ms_blocks (foldl ms_write_finalized s fs) = ms_blocks s"
  "ms_digests_by_authorities (foldl ms_write_finalized s fs) = ms_digests_by_authorities s"
  "ms_commits (foldl ms_write_finalized s fs) = ms_commits s"
  "ms_commit_info (foldl ms_write_finalized s fs) = ms_commit_info s"
  by (induction fs arbitrary: s) (simp_all add: ms_write_finalized_def split: prod.splits)

lemma ms_write_blocks:
  "ms_blocks_of (foldl ms_write_block s bs) = ms_blocks_of s ++ written_blocks bs"
proof (induction bs arbitrary: s)
  case Nil
  then show ?case by (simp add: written_blocks_def)
next
  case (Cons b bs)
  have "ms_blocks_of (ms_write_block s b) = (ms_blocks_of s)(vb_reference b \<mapsto> b)"
    by (auto simp: ms_blocks_of_def)
  then have "ms_blocks_of (foldl ms_write_block s (b # bs)) =
      (ms_blocks_of s)(vb_reference b \<mapsto> b) ++ written_blocks bs"
    using Cons.IH [of "ms_write_block s b"] by (simp only: foldl.simps)
  then show ?case by (simp add: written_blocks_def)
qed

lemma ms_write_inv:
  assumes "ms_inv s" and "\<And>b. b \<in> set (wb_blocks wb) \<Longrightarrow> vb_round b \<le> u32_max"
  shows "ms_inv (ms_write s wb)"
proof -
  have "ms_inv (foldl ms_write_block s bs)" if "\<forall>b \<in> set bs. vb_round b \<le> u32_max" for bs
    using assms(1) that by (induction bs arbitrary: s) (auto intro: ms_write_block_inv)
  then have "ms_inv (foldl ms_write_block s (wb_blocks wb))" using assms(2) by blast
  then show ?thesis by (simp add: ms_inv_def ms_write_def frame_simps)
qed

text \<open>The keys of one author between two rounds, as references.\<close>

definition author_refs :: "mem_store \<Rightarrow> authority_index \<Rightarrow> round \<Rightarrow> round \<Rightarrow> block_ref list" where
  "author_refs s a lo hi = map (\<lambda>(a, r, d). BlockRef r a d)
     (btree_range (\<lambda>k. (a, lo, digest_min) \<le> k \<and> k \<le> (a, hi, digest_max)) (ms_digests_by_authorities s))"

lemma author_key_range:
  "(a :: nat, lo :: nat, digest_min) \<le> (k, r, d) \<and> (k, r, d) \<le> (a, hi, digest_max) \<longleftrightarrow> k = a \<and> lo \<le> r \<and> r \<le> hi"
  by (auto simp: less_eq_prod_simp)

lemma author_refs_order: "sorted (author_refs s a lo hi)" "distinct (author_refs s a lo hi)"
proof -
  let ?ks = "btree_range (\<lambda>k. (a, lo, digest_min) \<le> k \<and> k \<le> (a, hi, digest_max)) (ms_digests_by_authorities s)"
  have k: "fst k = a" if "k \<in> set ?ks" for k
  proof -
    obtain a' r d where k: "k = (a', r, d)" by (cases k)
    then show ?thesis using that unfolding btree_range_set k mem_Collect_eq author_key_range by simp
  qed
  have "sorted ?ks" by simp
  then have "sorted_wrt (\<lambda>x y. (case x of (a, r, d) \<Rightarrow> BlockRef r a d) \<le> (case y of (a, r, d) \<Rightarrow> BlockRef r a d)) ?ks"
  proof (rule sorted_wrt_mono_rel [rotated])
    fix x y
    assume xy: "x \<in> set ?ks" "y \<in> set ?ks" "x \<le> y"
    obtain r d r' d' where "x = (a, r, d)" "y = (a, r', d')"
      using k [OF xy(1)] k [OF xy(2)] by (cases x, cases y) auto
    with xy(3) show "(case x of (a, r, d) \<Rightarrow> BlockRef r a d) \<le> (case y of (a, r, d) \<Rightarrow> BlockRef r a d)"
      by (auto simp: block_ref_order)
  qed
  then show "sorted (author_refs s a lo hi)"
    by (simp add: author_refs_def sorted_wrt_map)
  show "distinct (author_refs s a lo hi)"
    by (auto simp: author_refs_def distinct_map inj_on_def)
qed

lemma image_BlockRef:
  "BlockRef r a d \<in> (\<lambda>(a, r, d). BlockRef r a d) ` {k. Q k} \<longleftrightarrow> Q (a, r, d)"
  by force

lemma fimage_swap_key: "(k, r, d) |\<in>| (\<lambda>(r, a, d). (a, r, d)) |`| F \<longleftrightarrow> (r, k, d) |\<in>| F"
  by force

lemma author_refs_set:
  assumes inv: "ms_inv s"
  shows "set (author_refs s a lo hi) =
     {x. ms_blocks_of s x \<noteq> None \<and> ref_author x = a \<and> lo \<le> ref_round x \<and> ref_round x \<le> hi}"
proof -
  have digests: "ms_digests_by_authorities s = (\<lambda>(r, a, d). (a, r, d)) |`| fmdom (ms_blocks s)"
    using inv unfolding ms_inv_def by (rule conjunct2)
  have mem: "(k, r, d) |\<in>| ms_digests_by_authorities s \<longleftrightarrow> ms_blocks_of s (BlockRef r k d) \<noteq> None" for k r d
    unfolding digests fimage_swap_key by (simp add: fmdom_iff ms_blocks_of_def block_key_def)
  have eq: "BlockRef r k d \<in> set (author_refs s a lo hi) \<longleftrightarrow>
      ms_blocks_of s (BlockRef r k d) \<noteq> None \<and> k = a \<and> lo \<le> r \<and> r \<le> hi" for r k d
    unfolding author_refs_def set_map btree_range_set image_BlockRef author_key_range mem ..
  show ?thesis
  proof (rule set_eqI)
    fix x
    show "x \<in> set (author_refs s a lo hi) \<longleftrightarrow>
      x \<in> {x. ms_blocks_of s x \<noteq> None \<and> ref_author x = a \<and> lo \<le> ref_round x \<and> ref_round x \<le> hi}"
      by (cases x, hypsubst) (simp only: eq mem_Collect_eq block_ref.sel)
  qed
qed

lemma ms_blocks_ref: "ms_inv s \<Longrightarrow> ms_blocks_of s r = Some b \<Longrightarrow> vb_reference b = r"
  by (metis block_key_inject ms_blocks_of_def ms_inv_def)

lemma ms_blocks_max: "ms_inv s \<Longrightarrow> ms_blocks_of s r = Some b \<Longrightarrow> vb_round b \<le> u32_max"
  by (metis ms_blocks_of_def ms_inv_def)

lemma ms_read_present:
  assumes "ms_inv s" and "\<forall>r \<in> set refs. ms_blocks_of s r \<noteq> None"
  shows "traverse (\<lambda>b. b) (ms_read_blocks s refs) = Some (map (\<lambda>r. the (ms_blocks_of s r)) refs)"
    and "map vb_reference (map (\<lambda>r. the (ms_blocks_of s r)) refs) = refs"
proof -
  show "traverse (\<lambda>b. b) (ms_read_blocks s refs) = Some (map (\<lambda>r. the (ms_blocks_of s r)) refs)"
    using assms(2) by (induction refs) (auto simp: ms_read_blocks_def ms_blocks_of_def)
  show "map vb_reference (map (\<lambda>r. the (ms_blocks_of s r)) refs) = refs"
    using assms(2) by (induction refs) (auto intro: ms_blocks_ref [OF assms(1)])
qed

lemma ms_scan_exact:
  assumes inv: "ms_inv s"
  shows "\<exists>bs. ms_scan_blocks_by_author s a lo = Some bs \<and> sorted (map vb_reference bs) \<and>
     distinct (map vb_reference bs) \<and>
     set bs = {b. ms_blocks_of s (vb_reference b) = Some b \<and> vb_author b = a \<and> lo \<le> vb_round b}"
proof -
  let ?refs = "author_refs s a lo u32_max"
  let ?bs = "map (\<lambda>r. the (ms_blocks_of s r)) ?refs"
  have present: "\<forall>r \<in> set ?refs. ms_blocks_of s r \<noteq> None"
    using author_refs_set [OF inv] by blast
  note read = ms_read_present [OF inv present]
  have max: "ref_round r \<le> u32_max" if "ms_blocks_of s r \<noteq> None" for r
    using that ms_blocks_ref [OF inv, of r] ms_blocks_max [OF inv, of r] by auto
  have "b \<in> set ?bs \<longleftrightarrow>
      ms_blocks_of s (vb_reference b) = Some b \<and> vb_author b = a \<and> lo \<le> vb_round b" for b
  proof
    assume "b \<in> set ?bs"
    then obtain r where r: "r \<in> set ?refs" "b = the (ms_blocks_of s r)" by auto
    with present have at: "ms_blocks_of s r = Some b" by auto
    moreover have "ref_author r = a" "lo \<le> ref_round r"
      using r(1) by (simp_all add: author_refs_set [OF inv])
    ultimately show "ms_blocks_of s (vb_reference b) = Some b \<and> vb_author b = a \<and> lo \<le> vb_round b"
      using ms_blocks_ref [OF inv at] by auto
  next
    assume b: "ms_blocks_of s (vb_reference b) = Some b \<and> vb_author b = a \<and> lo \<le> vb_round b"
    then have "vb_reference b \<in> set ?refs"
      using max [of "vb_reference b"] by (simp add: author_refs_set [OF inv])
    with b show "b \<in> set ?bs" by force
  qed
  then have "set ?bs = {b. ms_blocks_of s (vb_reference b) = Some b \<and> vb_author b = a \<and> lo \<le> vb_round b}"
    by blast
  moreover have "ms_scan_blocks_by_author s a lo = Some ?bs"
    unfolding ms_scan_blocks_by_author_def Let_def author_refs_def [symmetric] by (rule read(1))
  moreover have "sorted (map vb_reference ?bs)" "distinct (map vb_reference ?bs)"
    unfolding read(2) by (rule author_refs_order)+
  ultimately show ?thesis by (intro exI [of _ ?bs] conjI)
qed

interpretation ms: block_store ms_inv ms_blocks_of ms_write ms_read_blocks ms_contains_blocks
  ms_scan_blocks_by_author
proof unfold_locales
  fix s r b assume "ms_inv s" "ms_blocks_of s r = Some b"
  then show "vb_reference b = r" by (rule ms_blocks_ref)
next
  fix s refs assume "ms_inv s"
  show "ms_read_blocks s refs = map (ms_blocks_of s) refs"
    by (simp add: ms_read_blocks_def ms_blocks_of_def)
  show "ms_contains_blocks s refs = map (\<lambda>r. ms_blocks_of s r \<noteq> None) refs"
    by (simp only: ms_contains_blocks_def ms_blocks_of_def fmdom_iff)
next
  fix s and wb :: write_batch
  assume "ms_inv s" "\<And>b. b \<in> set (wb_blocks wb) \<Longrightarrow> vb_round b \<le> u32_max"
  then show "ms_inv (ms_write s wb)" by (rule ms_write_inv)
next
  fix s and wb :: write_batch
  assume "ms_inv s"
  show "ms_blocks_of (ms_write s wb) = ms_blocks_of s ++ written_blocks (wb_blocks wb)"
    unfolding ms_write_blocks [symmetric] by (simp add: ms_blocks_of_def ms_write_def frame_simps fun_eq_iff)
next
  fix s a lo assume "ms_inv s"
  then show "\<exists>bs. ms_scan_blocks_by_author s a lo = Some bs \<and> sorted (map vb_reference bs) \<and>
     distinct (map vb_reference bs) \<and>
     set bs = {b. ms_blocks_of s (vb_reference b) = Some b \<and> vb_author b = a \<and> lo \<le> vb_round b}"
    by (rule ms_scan_exact)
qed

section \<open>The last blocks of an author\<close>

lemma vd_items_push [simp]: "vd_items (vd_push_front d x) = x # vd_items d"
  by (simp add: vd_push_front_def vd_grow_def Let_def)

lemma vd_items_pushes: "vd_items (foldl (\<lambda>d k. vd_push_front d (f k)) d xs) = rev (map f xs) @ vd_items d"
  by (induction xs arbitrary: d) simp_all

text \<open>Up to four elements pushed to the front of a fresh buffer stay in its first slice.\<close>

lemma vd_first_slice_small:
  assumes "length xs \<le> 4"
  shows "vd_first_slice (foldl (\<lambda>d k. vd_push_front d (f k)) vd_new xs) = rev (map f xs)"
proof -
  consider "xs = []" | a where "xs = [a]" | a b where "xs = [a, b]" | a b c where "xs = [a, b, c]"
    | a b c d where "xs = [a, b, c, d]"
    using assms by (auto simp: numeral_eq_Suc le_Suc_eq length_Suc_conv)
  then show ?thesis
    by cases (simp_all add: vd_new_def vd_push_front_def vd_grow_def vd_first_slice_def Let_def)
qed

lemma traverse_snd_zip:
  "length xs = length ys \<Longrightarrow> traverse snd (zip xs ys) = traverse (\<lambda>b. b) ys"
  by (induction xs ys rule: list_induct2) auto

lemma ms_scan_last_exact:
  fixes before :: "round option" and a :: authority_index
  assumes inv: "ms_inv s" and n: "n \<le> 4"
  defines "refs \<equiv> author_refs s a 0 (case before of None \<Rightarrow> u32_max | Some r \<Rightarrow> r)"
  shows "\<exists>bs. ms_scan_last_blocks_by_author s a n before = Some bs \<and>
     map vb_reference bs = drop (length refs - n) refs"
proof -
  let ?hi = "case before of None \<Rightarrow> u32_max | Some r \<Rightarrow> r"
  let ?ks = "btree_range (\<lambda>k. (a, 0, digest_min) \<le> k \<and> k \<le> (a, ?hi, digest_max)) (ms_digests_by_authorities s)"
  let ?f = "\<lambda>(a, r, d). BlockRef r a d"
  let ?xs = "take n (rev ?ks)"
  have refs: "rev (map ?f ?xs) = drop (length refs - n) refs"
    unfolding refs_def author_refs_def by (simp add: rev_map [symmetric] take_rev drop_map)
  have "\<forall>r \<in> set (drop (length refs - n) refs). ms_blocks_of s r \<noteq> None"
    using author_refs_set [OF inv] by (auto simp: refs_def dest!: in_set_dropD)
  note read = ms_read_present [OF inv this]
  have fold: "(\<lambda>d (a, r, dg). vd_push_front d (BlockRef r a dg)) = (\<lambda>d k. vd_push_front d (?f k))"
    by (auto simp: fun_eq_iff)
  have items: "vd_items (foldl (\<lambda>d k. vd_push_front d (?f k)) vd_new ?xs) = drop (length refs - n) refs"
    using vd_items_pushes [of ?f vd_new ?xs] refs by (simp add: vd_new_def)
  have slice: "vd_first_slice (foldl (\<lambda>d k. vd_push_front d (?f k)) vd_new ?xs) = drop (length refs - n) refs"
    using vd_first_slice_small [of ?xs ?f] refs n by simp
  have "ms_scan_last_blocks_by_author s a n before =
      traverse (\<lambda>b. b) (ms_read_blocks s (drop (length refs - n) refs))"
    unfolding ms_scan_last_blocks_by_author_def Let_def fold items slice
    by (rule traverse_snd_zip) (simp add: ms_read_blocks_def)
  with read show ?thesis by auto
qed

section \<open>Properties\<close>

text \<open>
  C18. Writing a batch to \<open>MemStore\<close> is a proper map update: a block of the batch is read back, every
  other reference reads as before, \<open>contains_blocks\<close> agrees with \<open>read_blocks\<close>, and
  \<open>scan_blocks_by_author\<close> returns, without panic and in the order of the references, exactly the
  stored blocks of the author from the given round on.
\<close>

theorem mem_store_write_read:
  assumes inv: "ms_inv s" and u32: "\<forall>b \<in> set (wb_blocks wb). vb_round b \<le> u32_max"
    and dist: "distinct (map vb_reference (wb_blocks wb))"
  defines "s' \<equiv> ms_write s wb"
  shows "ms_inv s' \<and>
     (\<forall>b \<in> set (wb_blocks wb). ms_read_blocks s' [vb_reference b] = [Some b]) \<and>
     (\<forall>r. r \<notin> vb_reference ` set (wb_blocks wb) \<longrightarrow> ms_read_blocks s' [r] = ms_read_blocks s [r]) \<and>
     ms_contains_blocks s' refs = map (\<lambda>b. b \<noteq> None) (ms_read_blocks s' refs) \<and>
     (\<exists>bs. ms_scan_blocks_by_author s' a start = Some bs \<and> sorted (map vb_reference bs) \<and>
        distinct (map vb_reference bs) \<and>
        set bs = {b. ms_read_blocks s' [vb_reference b] = [Some b] \<and> vb_author b = a \<and> start \<le> vb_round b})"
proof -
  have u: "\<And>b. b \<in> set (wb_blocks wb) \<Longrightarrow> vb_round b \<le> u32_max" using u32 by blast
  have inv': "ms_inv s'" unfolding s'_def by (rule ms.write_invar [OF inv u])
  have eq: "(ms_read_blocks s' [r] = [Some b]) = (ms_blocks_of s' r = Some b)" for r b
    by (simp add: ms.read_law [OF inv'])
  show ?thesis
  proof (intro conjI ballI allI impI)
    show "ms_read_blocks s' [vb_reference b] = [Some b]" if "b \<in> set (wb_blocks wb)" for b
      unfolding s'_def by (rule ms.read_written [OF inv dist that u])
    show "ms_read_blocks s' [r] = ms_read_blocks s [r]" if "r \<notin> vb_reference ` set (wb_blocks wb)" for r
      unfolding s'_def by (rule ms.read_not_written [OF inv that u])
  qed (use inv' ms.contains_iff_read [OF inv'] ms.scan_law [OF inv', of a start] in \<open>simp_all add: eq\<close>)
qed

definition sample_batch :: write_batch where
  "sample_batch = write_batch_new (map (\<lambda>r. sample_block r 0 (10 * r) [sample_ref (r - 1) 0]) [1, 2, 3, 4, 5])
     [] [] []"

theorem mem_store_write_read_witness:
  "ms_read_blocks (ms_write ms_new sample_batch) [sample_ref 2 0] =
     [Some (sample_block 2 0 20 [sample_ref 1 0])]"
proof -
  let ?b = "sample_block 2 0 20 [sample_ref 1 0]"
  have u: "\<forall>b \<in> set (wb_blocks sample_batch). vb_round b \<le> u32_max" by code_simp
  have d: "distinct (map vb_reference (wb_blocks sample_batch))" by code_simp
  have b: "?b \<in> set (wb_blocks sample_batch)"
    by (simp add: sample_batch_def write_batch_new_def)
  have "vb_reference ?b = sample_ref 2 0" by code_simp
  moreover have "ms_read_blocks (ms_write ms_new sample_batch) [vb_reference ?b] = [Some ?b]"
    by (rule bspec [OF mem_store_write_read [OF ms_inv_new u d, THEN conjunct2, THEN conjunct1] b])
  ultimately show ?thesis by simp
qed

text \<open>
  \<open>scan_last_blocks_by_author\<close> reads only the first slice of the ring buffer. For up to four blocks
  this is the whole buffer, and the last blocks are returned in ascending order; the fifth insertion
  wraps around, and the call then returns a single block.
\<close>



theorem mem_store_scan_last_truncates:
  "map_option (map vb_reference) (ms_scan_last_blocks_by_author (ms_write ms_new sample_batch) 0 4 None) =
     Some (map (\<lambda>r. sample_ref r 0) [2, 3, 4, 5]) \<and>
   map_option (map vb_reference) (ms_scan_last_blocks_by_author (ms_write ms_new sample_batch) 0 5 None) =
     Some [sample_ref 1 0]"
  by code_simp

end
