(* ===== verification/Leader_Scoring.thy ===== *)
theory Leader_Scoring
  imports Commits Stake_Aggregator
begin

text \<open>
  Reputation scores (\<^verbatim>\<open>consensus/core/src/leader_scoring.rs\<close>). \<open>ScoringSubdag\<close> walks the committed
  sub-DAGs, records which blocks vote for a committed leader and collects, per vote, the stake of
  the blocks that link to it.
\<close>

section \<open>Scores\<close>

definition reputation_scores_new :: "commit_range \<Rightarrow> nat list \<Rightarrow> reputation_scores" where
  "reputation_scores_new r scores = \<lparr> scores_per_authority = scores, rs_commit_range = r \<rparr>"

definition highest_score :: "reputation_scores \<Rightarrow> nat" where
  "highest_score rs = foldl max 0 (scores_per_authority rs)"

definition authorities_by_score ::
  "consensus_context \<Rightarrow> reputation_scores \<Rightarrow> (authority_index \<times> nat) list option" where
  "authorities_by_score ctx rs =
     traverse (\<lambda>(i, score). do { a \<leftarrow> to_authority_index (ctx_committee ctx) i; Some (a, score) })
       (List.enumerate 0 (scores_per_authority rs))"

section \<open>The scoring sub-DAG\<close>

record scoring_subdag =
  sc_commit_range :: "commit_range option"
  sc_leaders :: "block_ref fset"
  sc_votes :: "(block_ref, stake_aggregator) fmap"

definition scoring_new :: scoring_subdag where
  "scoring_new = \<lparr> sc_commit_range = None, sc_leaders = {||}, sc_votes = fmempty \<rparr>"

definition score_vote :: "verified_block \<Rightarrow> block_ref \<Rightarrow> scoring_subdag \<Rightarrow> scoring_subdag option" where
  "score_vote b ancestor sc =
     (if ancestor |\<in>| sc_leaders sc
      then do {
        assert_rs (fmlookup (sc_votes sc) (vb_reference b) = None);
        Some (sc\<lparr> sc_votes := fmupd (vb_reference b) agg_new (sc_votes sc) \<rparr>)
      }
      else Some sc)"

definition score_link ::
  "committee \<Rightarrow> verified_block \<Rightarrow> block_ref \<Rightarrow> scoring_subdag \<Rightarrow> scoring_subdag option" where
  "score_link c b ancestor sc =
     (case fmlookup (sc_votes sc) ancestor of
        None \<Rightarrow> Some sc
      | Some agg \<Rightarrow> do {
          (agg', _) \<leftarrow> agg_add QuorumThreshold agg (vb_author b) c;
          Some (sc\<lparr> sc_votes := fmupd ancestor agg' (sc_votes sc) \<rparr>)
        })"

definition score_ancestor ::
  "committee \<Rightarrow> verified_block \<Rightarrow> block_ref \<Rightarrow> scoring_subdag \<Rightarrow> scoring_subdag option" where
  "score_ancestor c b ancestor sc =
     (if ref_round ancestor \<noteq> vb_round b - 1 then Some sc
      else do { sc' \<leftarrow> score_vote b ancestor sc; score_link c b ancestor sc' })"

definition score_block ::
  "committee \<Rightarrow> verified_block \<Rightarrow> scoring_subdag \<Rightarrow> scoring_subdag option" where
  "score_block c b sc = for_each (score_ancestor c b) (vb_ancestors b) sc"

definition score_range :: "commit_index \<Rightarrow> commit_range option \<Rightarrow> commit_range option" where
  "score_range i r =
     (case r of None \<Rightarrow> Some (range_new i i) | Some r' \<Rightarrow> range_extend_to r' i)"

definition add_subdag ::
  "committee \<Rightarrow> committed_sub_dag \<Rightarrow> scoring_subdag \<Rightarrow> scoring_subdag option" where
  "add_subdag c d sc = do {
     r \<leftarrow> score_range (cref_index (csd_commit_ref d)) (sc_commit_range sc);
     for_each (score_block c) (csd_blocks d)
       (sc\<lparr> sc_commit_range := Some r, sc_leaders := finsert (csd_leader d) (sc_leaders sc) \<rparr>)
   }"

definition add_subdags ::
  "committee \<Rightarrow> committed_sub_dag list \<Rightarrow> scoring_subdag \<Rightarrow> scoring_subdag option" where
  "add_subdags c ds sc = for_each (add_subdag c) ds sc"

definition distributed_votes_scores :: "committee \<Rightarrow> scoring_subdag \<Rightarrow> nat list option" where
  "distributed_votes_scores c sc =
     for_each
       (\<lambda>vote scores. do {
          agg \<leftarrow> fmlookup (sc_votes sc) vote;
          s \<leftarrow> vec_get scores (ref_author vote);
          vec_set scores (ref_author vote) (add_u64 s (agg_stake agg))
        })
       (btree_iter (fmdom (sc_votes sc))) (replicate (committee_size c) 0)"

definition calculate_distributed_vote_scores ::
  "committee \<Rightarrow> scoring_subdag \<Rightarrow> reputation_scores option" where
  "calculate_distributed_vote_scores c sc = do {
     scores \<leftarrow> distributed_votes_scores c sc;
     r \<leftarrow> sc_commit_range sc;
     Some (reputation_scores_new r scores)
   }"

definition scored_subdags_count :: "scoring_subdag \<Rightarrow> nat option" where
  "scored_subdags_count sc = (case sc_commit_range sc of None \<Rightarrow> Some 0 | Some r \<Rightarrow> range_size r)"

definition scoring_is_empty :: "scoring_subdag \<Rightarrow> bool" where
  "scoring_is_empty sc \<longleftrightarrow> sc_leaders sc = {||} \<and> sc_votes sc = fmempty \<and> sc_commit_range sc = None"

definition scoring_clear :: "scoring_subdag \<Rightarrow> scoring_subdag" where
  "scoring_clear sc = sc\<lparr> sc_leaders := {||}, sc_votes := fmempty, sc_commit_range := None \<rparr>"

lemma scoring_clear_is_new [simp]: "scoring_clear sc = scoring_new"
  by (simp add: scoring_clear_def scoring_new_def)

lemma scoring_is_empty_iff: "scoring_is_empty sc \<longleftrightarrow> sc = scoring_new"
  by (cases sc) (auto simp: scoring_is_empty_def scoring_new_def)

section \<open>Exact scores\<close>

definition scoring_wf :: "committee \<Rightarrow> scoring_subdag \<Rightarrow> bool" where
  "scoring_wf c sc \<longleftrightarrow>
     (\<forall>v agg. fmlookup (sc_votes sc) v = Some agg \<longrightarrow> ref_author v \<in> members c \<and> agg_wf c agg)"

definition vote_weight :: "committee \<Rightarrow> scoring_subdag \<Rightarrow> block_ref \<Rightarrow> stake" where
  "vote_weight c sc v =
     (case fmlookup (sc_votes sc) v of None \<Rightarrow> 0 | Some agg \<Rightarrow> weight c (fset (agg_votes agg)))"

lemma scoring_wf_new [simp]: "scoring_wf c scoring_new"
  by (simp add: scoring_wf_def scoring_new_def)

lemma score_vote_wf:
  "scoring_wf c sc \<Longrightarrow> vb_author b \<in> members c \<Longrightarrow> score_vote b a sc = Some sc' \<Longrightarrow> scoring_wf c sc'"
  by (auto simp: scoring_wf_def score_vote_def Option.bind_eq_Some_conv split: if_splits)

lemma score_link_wf:
  assumes wf: "committee_wf c" and sc: "scoring_wf c sc" and b: "vb_author b \<in> members c"
  shows "\<exists>sc'. score_link c b a sc = Some sc' \<and> scoring_wf c sc'"
proof (cases "fmlookup (sc_votes sc) a")
  case None
  then show ?thesis using sc by (simp add: score_link_def)
next
  case (Some agg)
  with sc have "agg_wf c agg" "ref_author a \<in> members c" by (auto simp: scoring_wf_def)
  with agg_add_spec [OF wf this(1) b] Some sc show ?thesis
    by (auto simp: score_link_def scoring_wf_def)
qed

lemma add_subdags_wf:
  assumes wf: "committee_wf c" and sc: "scoring_wf c sc" and add: "add_subdags c ds sc = Some sc'"
    and authors: "\<forall>d \<in> set ds. \<forall>b \<in> set (csd_blocks d). vb_author b \<in> members c"
  shows "scoring_wf c sc'"
proof -
  have anc: "scoring_wf c t" if t: "score_ancestor c b a s = Some t" and s: "scoring_wf c s"
    and b: "vb_author b \<in> members c" for a b s t
  proof (cases "ref_round a \<noteq> vb_round b - 1")
    case True
    then show ?thesis using t s by (simp add: score_ancestor_def)
  next
    case False
    with t obtain u where u: "score_vote b a s = Some u" "score_link c b a u = Some t"
      by (auto simp: score_ancestor_def Option.bind_eq_Some_conv)
    show ?thesis using score_link_wf [OF wf score_vote_wf [OF s b u(1)] b, of a] u(2) by simp
  qed
  have blk: "scoring_wf c t" if "score_block c b s = Some t" "scoring_wf c s" "vb_author b \<in> members c" for b s t
    using for_each_invariant [OF that(1) [unfolded score_block_def], of "scoring_wf c"] that(2,3) anc by blast
  have sub: "scoring_wf c t" if t: "add_subdag c d s = Some t" and s: "scoring_wf c s"
    and d: "\<forall>b \<in> set (csd_blocks d). vb_author b \<in> members c" for d s t
  proof -
    from t obtain r where "for_each (score_block c) (csd_blocks d)
        (s\<lparr> sc_commit_range := Some r, sc_leaders := finsert (csd_leader d) (sc_leaders s) \<rparr>) = Some t"
      by (auto simp: add_subdag_def Option.bind_eq_Some_conv)
    moreover have "scoring_wf c (s\<lparr> sc_commit_range := Some r, sc_leaders := finsert (csd_leader d) (sc_leaders s) \<rparr>)"
      using s by (simp add: scoring_wf_def)
    ultimately show ?thesis using for_each_invariant [of "score_block c" _ _ t "scoring_wf c"] blk d by blast
  qed
  show ?thesis
    using for_each_invariant [OF add [unfolded add_subdags_def], of "scoring_wf c"] sc sub authors by blast
qed

lemma distributed_scores_prefix:
  assumes wf: "committee_wf c" and sc: "scoring_wf c sc"
    and xs: "set xs \<subseteq> fset (fmdom (sc_votes sc))" and fits: "length xs * com_total_stake c \<le> u64_max"
  shows "for_each
       (\<lambda>vote scores. do {
          agg \<leftarrow> fmlookup (sc_votes sc) vote;
          s \<leftarrow> vec_get scores (ref_author vote);
          vec_set scores (ref_author vote) (add_u64 s (agg_stake agg))
        }) xs (replicate (committee_size c) 0) =
     Some (map (\<lambda>a. sum_list (map (vote_weight c sc) (filter (\<lambda>v. ref_author v = a) xs))) [0..<committee_size c])"
  using xs fits
proof (induction xs rule: rev_induct)
  case Nil
  then show ?case by (simp add: map_replicate_const)
next
  case (snoc v xs)
  let ?n = "committee_size c"
  let ?sum = "\<lambda>xs a. sum_list (map (vote_weight c sc) (filter (\<lambda>v. ref_author v = a) xs))"
  obtain agg where agg: "fmlookup (sc_votes sc) v = Some agg"
    using snoc.prems(1) by (auto simp: fmdom_iff)
  then have v: "ref_author v < ?n" and a: "agg_wf c agg" and w: "vote_weight c sc v = agg_stake agg"
    using sc by (auto simp: scoring_wf_def members_def vote_weight_def agg_wf_def)
  have le: "?sum ys a \<le> length ys * com_total_stake c" if "set ys \<subseteq> fset (fmdom (sc_votes sc))" for ys a
    using that
  proof (induction ys)
    case (Cons y ys)
    then have "vote_weight c sc y \<le> com_total_stake c"
      using sc agg_wf_stake_bound [OF wf]
      by (auto simp: vote_weight_def scoring_wf_def agg_wf_def split: option.splits)
    with Cons show ?case by auto
  qed simp
  have "?sum (xs @ [v]) (ref_author v) \<le> u64_max"
    using le [of "xs @ [v]" "ref_author v"] snoc.prems by simp
  then have exact: "add_u64 (?sum xs (ref_author v)) (agg_stake agg) = ?sum xs (ref_author v) + agg_stake agg"
    using w by simp
  have "(map (?sum xs) [0..<?n])[ref_author v := ?sum xs (ref_author v) + agg_stake agg] =
      map (?sum (xs @ [v])) [0..<?n]"
    using v w by (intro nth_equalityI) (auto simp: nth_list_update)
  then show ?case
    using snoc agg v exact by simp
qed

section \<open>Properties\<close>


definition sample_scored :: "committed_sub_dag list" where
  "sample_scored =
     [committed_sub_dag_new (sample_ref 1 0) [sample_block 1 0 5 (map (sample_ref 0) [0, 1, 2])] 5 (CommitRef 1 0),
      committed_sub_dag_new (sample_ref 3 1)
        [sample_block 2 1 6 (map (sample_ref 1) [1, 0, 2]), sample_block 2 2 7 (map (sample_ref 1) [2, 0, 1]),
         sample_block 3 1 8 (map (sample_ref 2) [1, 2, 3])] 8 (CommitRef 2 0)]"


end
