(* ===== verification/Dag_State.thy ===== *)
theory Dag_State
  imports Mem_Store Leader_Scoring Threshold_Clock
begin

text \<open>
  \<open>DagState\<close> (\<^verbatim>\<open>consensus/core/src/dag_state.rs\<close>): the recent part of the block DAG in memory, with the
  rest in storage, the committed state, and the buffers of what is to be persisted. The context is
  an argument of the operations; the store is the in-memory store of \<open>Mem_Store\<close>, used only through
  the laws of the locale \<open>block_store\<close>. Wall-clock fields and metrics are left out, but calls that
  can panic while computing a metric are kept.
\<close>

section \<open>State\<close>

record block_info =
  bi_block :: verified_block
  bi_committed :: bool
  bi_hard_linked :: bool

definition block_info_new :: "verified_block \<Rightarrow> block_info" where
  "block_info_new b = \<lparr> bi_block = b, bi_committed = False, bi_hard_linked = False \<rparr>"

record dag_state =
  ds_genesis :: "(block_ref, verified_block) fmap"
  ds_recent_blocks :: "(block_ref, block_info) fmap"
  ds_recent_refs :: "block_ref fset list"
  ds_threshold_clock :: threshold_clock
  ds_evicted_rounds :: "round list"
  ds_highest_accepted_round :: round
  ds_last_commit :: "trusted_commit option"
  ds_last_committed_rounds :: "round list"
  ds_scoring_subdag :: scoring_subdag
  ds_pending_commit_votes :: "commit_vote list"
  ds_blocks_to_write :: "verified_block list"
  ds_commits_to_write :: "trusted_commit list"
  ds_commit_info_to_write :: "(commit_ref \<times> commit_info) list"
  ds_finalized_commits_to_write :: "(commit_ref \<times> rejected_map) list"
  ds_store :: mem_store
  ds_cached_rounds :: round

section \<open>Commit accessors\<close>

definition last_commit_index :: "dag_state \<Rightarrow> commit_index" where
  "last_commit_index ds = (case ds_last_commit ds of Some c \<Rightarrow> tc_index c | None \<Rightarrow> 0)"

definition last_commit_digest :: "dag_state \<Rightarrow> digest" where
  "last_commit_digest ds = (case ds_last_commit ds of Some c \<Rightarrow> tc_digest c | None \<Rightarrow> digest_min)"

definition last_commit_timestamp_ms :: "dag_state \<Rightarrow> nat" where
  "last_commit_timestamp_ms ds = (case ds_last_commit ds of Some c \<Rightarrow> tc_timestamp_ms c | None \<Rightarrow> 0)"

definition last_commit_leader :: "dag_state \<Rightarrow> slot option" where
  "last_commit_leader ds =
     (case ds_last_commit ds of
        Some c \<Rightarrow> Some (slot_of (tc_leader c))
      | None \<Rightarrow> map_option slot_of (btree_first (fmdom (ds_genesis ds))))"

definition last_commit_round :: "dag_state \<Rightarrow> round" where
  "last_commit_round ds = (case ds_last_commit ds of Some c \<Rightarrow> ref_round (tc_leader c) | None \<Rightarrow> 0)"

definition calculate_gc_round :: "consensus_context \<Rightarrow> round \<Rightarrow> round" where
  "calculate_gc_round ctx leader_round = leader_round - gc_depth ctx"

definition gc_round :: "consensus_context \<Rightarrow> dag_state \<Rightarrow> round" where
  "gc_round ctx ds = calculate_gc_round ctx (last_commit_round ds)"

definition eviction_round :: "round \<Rightarrow> round \<Rightarrow> round \<Rightarrow> round" where
  "eviction_round last_round gc cached = min gc (last_round - cached)"

definition calculate_authority_eviction_round ::
  "consensus_context \<Rightarrow> dag_state \<Rightarrow> authority_index \<Rightarrow> round option" where
  "calculate_authority_eviction_round ctx ds a = do {
     refs \<leftarrow> vec_get (ds_recent_refs ds) a;
     let last_round = (case btree_last refs of Some r \<Rightarrow> ref_round r | None \<Rightarrow> GENESIS_ROUND);
     Some (eviction_round last_round (gc_round ctx ds) (ds_cached_rounds ds))
   }"

definition threshold_clock_round :: "dag_state \<Rightarrow> round" where
  "threshold_clock_round ds = clock_get_round (ds_threshold_clock ds)"

section \<open>Reading blocks\<close>

text \<open>
  \<open>get_blocks\<close> fills the positions it can from genesis and from memory, collects the missing
  positions, and writes the answers of the store into them.
\<close>

fun get_blocks_scan ::
  "dag_state \<Rightarrow> nat \<Rightarrow> block_ref list \<Rightarrow> verified_block option list \<Rightarrow> (nat \<times> block_ref) list \<Rightarrow>
     verified_block option list \<times> (nat \<times> block_ref) list" where
  "get_blocks_scan ds i [] blocks missing = (blocks, missing)"
| "get_blocks_scan ds i (r # refs) blocks missing =
     (if ref_round r = GENESIS_ROUND
      then get_blocks_scan ds (i + 1) refs
             (case fmlookup (ds_genesis ds) r of
                Some b \<Rightarrow> blocks[i := Some b] | None \<Rightarrow> blocks) missing
      else case fmlookup (ds_recent_blocks ds) r of
        Some info \<Rightarrow> get_blocks_scan ds (i + 1) refs (blocks[i := Some (bi_block info)]) missing
      | None \<Rightarrow> get_blocks_scan ds (i + 1) refs blocks (missing @ [(i, r)]))"

fun write_answers :: "'a list \<Rightarrow> ((nat \<times> block_ref) \<times> 'a) list \<Rightarrow> 'a list" where
  "write_answers xs [] = xs"
| "write_answers xs (((i, _), answer) # rest) = write_answers (xs[i := answer]) rest"

definition get_blocks :: "dag_state \<Rightarrow> block_ref list \<Rightarrow> verified_block option list" where
  "get_blocks ds refs =
     (case get_blocks_scan ds 0 refs (replicate (length refs) None) [] of
        (blocks, missing) \<Rightarrow>
          if missing = [] then blocks
          else write_answers blocks
                 (zip missing (ms_read_blocks (ds_store ds) (map snd missing))))"

definition get_block :: "dag_state \<Rightarrow> block_ref \<Rightarrow> verified_block option" where
  "get_block ds r = last (get_blocks ds [r])"

definition get_uncommitted_blocks_at_slot :: "dag_state \<Rightarrow> slot \<Rightarrow> verified_block list" where
  "get_uncommitted_blocks_at_slot ds sl =
     map (bi_block \<circ> snd)
       (btree_map_range
          (\<lambda>k. BlockRef (slot_round sl) (slot_authority sl) digest_min \<le> k \<and>
               k \<le> BlockRef (slot_round sl) (slot_authority sl) digest_max)
          (ds_recent_blocks ds))"

definition get_uncommitted_blocks_at_round :: "dag_state \<Rightarrow> round \<Rightarrow> verified_block list option" where
  "get_uncommitted_blocks_at_round ds r = do {
     assert_rs (last_commit_round ds < r);
     let lo = BlockRef r 0 digest_min;
     let hi = BlockRef (add_u32 r 1) 0 digest_min;
     assert_rs (lo \<le> hi);
     Some (map (bi_block \<circ> snd) (btree_map_range (\<lambda>k. lo \<le> k \<and> k < hi) (ds_recent_blocks ds)))
   }"

text \<open>
  The traversal of \<open>ancestors_at_round\<close>. A missing block is a panic; the recursion is over the set of
  references still to be visited, which shrinks towards lower rounds on a well-formed DAG.
\<close>

partial_function (option) ancestors_loop ::
  "dag_state \<Rightarrow> round \<Rightarrow> block_ref fset \<Rightarrow> block_ref fset option" where
  "ancestors_loop ds earlier linked =
     (case btree_last linked of
        None \<Rightarrow> Some linked
      | Some r \<Rightarrow>
        if ref_round r \<le> earlier then Some linked
        else (case get_block ds r of
                None \<Rightarrow> None
              | Some b \<Rightarrow>
                  ancestors_loop ds earlier ((linked |-| {|r|}) |\<union>| fset_of_list (vb_ancestors b))))"

definition ancestors_at_round ::
  "dag_state \<Rightarrow> verified_block \<Rightarrow> round \<Rightarrow> verified_block list option" where
  "ancestors_at_round ds later_block earlier = do {
     linked \<leftarrow> ancestors_loop ds earlier (fset_of_list (vb_ancestors later_block));
     traverse (get_block ds) (btree_range (\<lambda>k. BlockRef earlier 0 digest_min \<le> k) linked)
   }"

definition get_last_block_for_authority ::
  "dag_state \<Rightarrow> authority_index \<Rightarrow> verified_block option" where
  "get_last_block_for_authority ds a = do {
     refs \<leftarrow> vec_get (ds_recent_refs ds) a;
     (case btree_last refs of
        Some r \<Rightarrow> map_option bi_block (fmlookup (ds_recent_blocks ds) r)
      | None \<Rightarrow> do {
          g \<leftarrow> List.find (\<lambda>r. ref_author r = a) (btree_iter (fmdom (ds_genesis ds)));
          fmlookup (ds_genesis ds) g
        })
   }"

definition get_last_proposed_block :: "consensus_context \<Rightarrow> dag_state \<Rightarrow> verified_block option" where
  "get_last_proposed_block ctx ds = get_last_block_for_authority ds (own_index ctx)"

definition get_cached_blocks_in_range ::
  "dag_state \<Rightarrow> authority_index \<Rightarrow> round \<Rightarrow> round \<Rightarrow> nat \<Rightarrow> verified_block list option" where
  "get_cached_blocks_in_range ds a start_round end_round limit =
     (if end_round \<le> start_round \<or> limit = 0 then Some []
      else do {
        refs \<leftarrow> vec_get (ds_recent_refs ds) a;
        traverse (\<lambda>r. map_option bi_block (fmlookup (ds_recent_blocks ds) r))
          (take limit (btree_range
            (\<lambda>k. BlockRef start_round a digest_min \<le> k \<and> k < BlockRef end_round 0 digest_min) refs))
      })"

text \<open>\<open>usize\<close> has 64 bits on the supported platforms.\<close>

definition get_cached_blocks :: "dag_state \<Rightarrow> authority_index \<Rightarrow> round \<Rightarrow> verified_block list option" where
  "get_cached_blocks ds a start = get_cached_blocks_in_range ds a start u32_max u64_max"

definition get_last_cached_block_in_range ::
  "dag_state \<Rightarrow> authority_index \<Rightarrow> round \<Rightarrow> round \<Rightarrow> verified_block option option" where
  "get_last_cached_block_in_range ds a start_round end_round =
     (if end_round \<le> start_round then Some None
      else do {
        refs \<leftarrow> vec_get (ds_recent_refs ds) a;
        (case rev (btree_range
            (\<lambda>k. BlockRef start_round a digest_min \<le> k \<and> k < BlockRef end_round 0 digest_min) refs) of
           [] \<Rightarrow> Some None
         | r # _ \<Rightarrow> Some (map_option bi_block (fmlookup (ds_recent_blocks ds) r)))
      })"

text \<open>
  The loop over the references of one authority in descending order: the first one is the last
  block, the following ones of the same round are equivocations.
\<close>

fun last_and_equivocations :: "round \<Rightarrow> block_ref list \<Rightarrow> block_ref option \<Rightarrow> block_ref list \<Rightarrow>
     block_ref option \<times> block_ref list" where
  "last_and_equivocations last_round [] lst eqs = (lst, eqs)"
| "last_and_equivocations last_round (r # refs) lst eqs =
     (if last_round = 0 then last_and_equivocations (ref_round r) refs (Some r) eqs
      else if ref_round r < last_round then (lst, eqs)
      else last_and_equivocations last_round refs lst (eqs @ [r]))"

definition last_cached_of ::
  "consensus_context \<Rightarrow> dag_state \<Rightarrow> round \<Rightarrow> authority_index \<Rightarrow>
     (verified_block list \<times> block_ref list list) \<Rightarrow> (verified_block list \<times> block_ref list list) option" where
  "last_cached_of ctx ds end_round i = (\<lambda>(blocks, equivocating). do {
     a \<leftarrow> to_authority_index (ctx_committee ctx) i;
     evicted \<leftarrow> vec_get (ds_evicted_rounds ds) a;
     assert_rs (evicted < end_round - 1);
     refs \<leftarrow> vec_get (ds_recent_refs ds) i;
     let (lst, eqs) = last_and_equivocations 0
           (rev (btree_range (\<lambda>k. BlockRef (add_u32 evicted 1) a digest_min \<le> k \<and>
                                 k < BlockRef end_round a digest_min) refs)) None [];
     blocks' \<leftarrow> (case lst of
         None \<Rightarrow> Some blocks
       | Some r \<Rightarrow> do { info \<leftarrow> fmlookup (ds_recent_blocks ds) r; vec_set blocks a (bi_block info) });
     equivocating' \<leftarrow> (if eqs = [] then Some equivocating
       else do { old \<leftarrow> vec_get equivocating a; vec_set equivocating a (old @ eqs) });
     Some (blocks', equivocating')
   })"

definition get_last_cached_block_per_authority ::
  "consensus_context \<Rightarrow> dag_state \<Rightarrow> round \<Rightarrow> (verified_block \<times> block_ref list) list option" where
  "get_last_cached_block_per_authority ctx ds end_round = do {
     let genesis = map snd (btree_map_range (\<lambda>_. True) (ds_genesis ds));
     assert_rs (end_round \<noteq> GENESIS_ROUND);
     if end_round = GENESIS_ROUND + 1 then Some (map (\<lambda>b. (b, [])) genesis)
     else do {
       (blocks, equivocating) \<leftarrow>
         for_each (last_cached_of ctx ds end_round) [0..<length (ds_recent_refs ds)]
           (genesis, replicate (committee_size (ctx_committee ctx)) []);
       Some (zip blocks equivocating)
     }
   }"

definition contains_cached_block_at_slot :: "dag_state \<Rightarrow> slot \<Rightarrow> bool option" where
  "contains_cached_block_at_slot ds sl =
     (if slot_round sl = GENESIS_ROUND then Some True
      else do {
        evicted \<leftarrow> vec_get (ds_evicted_rounds ds) (slot_authority sl);
        assert_rs (evicted < slot_round sl);
        refs \<leftarrow> vec_get (ds_recent_refs ds) (slot_authority sl);
        Some (btree_range (\<lambda>k. BlockRef (slot_round sl) (slot_authority sl) digest_min \<le> k \<and>
                k \<le> BlockRef (slot_round sl) (slot_authority sl) digest_max) refs \<noteq> [])
      })"

fun contains_scan ::
  "dag_state \<Rightarrow> nat \<Rightarrow> block_ref list \<Rightarrow> bool list \<Rightarrow> (nat \<times> block_ref) list \<Rightarrow>
     (bool list \<times> (nat \<times> block_ref) list) option" where
  "contains_scan ds i [] exist missing = Some (exist, missing)"
| "contains_scan ds i (r # refs) exist missing = do {
     recent_refs \<leftarrow> vec_get (ds_recent_refs ds) (ref_author r);
     if r |\<in>| recent_refs \<or> r |\<in>| fmdom (ds_genesis ds)
     then contains_scan ds (i + 1) refs (exist[i := True]) missing
     else if (case btree_last recent_refs of None \<Rightarrow> True | Some l \<Rightarrow> ref_round l < ref_round r)
     then contains_scan ds (i + 1) refs (exist[i := False]) missing
     else contains_scan ds (i + 1) refs exist (missing @ [(i, r)])
   }"

definition contains_blocks :: "dag_state \<Rightarrow> block_ref list \<Rightarrow> bool list option" where
  "contains_blocks ds refs = do {
     (exist, missing) \<leftarrow> contains_scan ds 0 refs (replicate (length refs) False) [];
     Some (if missing = [] then exist
           else write_answers exist
                  (zip missing (ms_contains_blocks (ds_store ds) (map snd missing))))
   }"

definition contains_block :: "dag_state \<Rightarrow> block_ref \<Rightarrow> bool option" where
  "contains_block ds r = do { blocks \<leftarrow> contains_blocks ds [r]; vec_get blocks 0 }"

section \<open>Accepting blocks\<close>

definition update_block_metadata ::
  "consensus_context \<Rightarrow> dag_state \<Rightarrow> verified_block \<Rightarrow> dag_state option" where
  "update_block_metadata ctx ds b = do {
     let r = vb_reference b;
     refs \<leftarrow> vec_get (ds_recent_refs ds) (ref_author r);
     recent_refs \<leftarrow> vec_set (ds_recent_refs ds) (ref_author r) (finsert r refs);
     let ds1 = ds\<lparr> ds_recent_blocks := fmupd r (block_info_new b) (ds_recent_blocks ds),
                   ds_recent_refs := recent_refs \<rparr>;
     (clk, advanced) \<leftarrow> clock_add_block (ctx_committee ctx) (ds_threshold_clock ds1) r;
     let ds2 = ds1\<lparr> ds_threshold_clock := clk \<rparr>;
     _ \<leftarrow> (if advanced then map_option (\<lambda>_. ()) (get_last_proposed_block ctx ds2) else Some ());
     _ \<leftarrow> committee_authority (ctx_committee ctx) (ref_author r);
     Some (ds2\<lparr> ds_highest_accepted_round := max (ds_highest_accepted_round ds2) (vb_round b) \<rparr>)
   }"

definition accept_block ::
  "consensus_context \<Rightarrow> verified_block \<Rightarrow> dag_state \<Rightarrow> dag_state option" where
  "accept_block ctx b ds = do {
     assert_rs (vb_round b \<noteq> 0);
     let r = vb_reference b;
     present \<leftarrow> contains_block ds r;
     if present then Some ds
     else do {
       _ \<leftarrow> committee_authority (ctx_committee ctx) (ref_author r);
       assert_rs (ref_author r = own_index ctx \<longrightarrow> get_uncommitted_blocks_at_slot ds (slot_of r) = []);
       ds' \<leftarrow> update_block_metadata ctx ds b;
       Some (ds'\<lparr> ds_blocks_to_write := ds_blocks_to_write ds' @ [b] \<rparr>)
     }
   }"

definition accept_blocks ::
  "consensus_context \<Rightarrow> verified_block list \<Rightarrow> dag_state \<Rightarrow> dag_state option" where
  "accept_blocks ctx blocks ds = for_each (accept_block ctx) blocks ds"

section \<open>Commit and hard-link status\<close>

definition set_committed :: "dag_state \<Rightarrow> block_ref \<Rightarrow> (dag_state \<times> bool) option" where
  "set_committed ds r = do {
     info \<leftarrow> fmlookup (ds_recent_blocks ds) r;
     if \<not> bi_committed info
     then Some (ds\<lparr> ds_recent_blocks := fmupd r (info\<lparr> bi_committed := True \<rparr>) (ds_recent_blocks ds) \<rparr>, True)
     else Some (ds, False)
   }"

definition is_committed :: "dag_state \<Rightarrow> block_ref \<Rightarrow> bool option" where
  "is_committed ds r = map_option bi_committed (fmlookup (ds_recent_blocks ds) r)"

definition is_hard_linked :: "dag_state \<Rightarrow> block_ref \<Rightarrow> bool option" where
  "is_hard_linked ds r = map_option bi_hard_linked (fmlookup (ds_recent_blocks ds) r)"

text \<open>References in memory that are not hard linked yet; every visit that adds targets removes one.\<close>

definition unlinked :: "(block_ref, block_info) fmap \<Rightarrow> block_ref fset" where
  "unlinked m = ffilter (\<lambda>r. case fmlookup m r of None \<Rightarrow> False | Some info \<Rightarrow> \<not> bi_hard_linked info) (fmdom m)"

lemma unlinked_step:
  assumes "fmlookup m r = Some info" and "\<not> bi_hard_linked info"
  shows "fcard (unlinked (fmupd r (info\<lparr> bi_hard_linked := True \<rparr>) m)) < fcard (unlinked m)"
proof -
  have "unlinked (fmupd r (info\<lparr> bi_hard_linked := True \<rparr>) m) = unlinked m |-| {|r|}"
    by (auto simp: unlinked_def fmdom_iff split: option.splits if_splits)
  moreover have "r |\<in>| unlinked m" using assms by (simp add: unlinked_def fmdom_iff)
  ultimately show ?thesis by (metis fcard_fminus1_less)
qed

function link_loop ::
  "round \<Rightarrow> (block_ref, block_info) fmap \<Rightarrow> block_ref list \<Rightarrow> block_ref list \<Rightarrow>
     ((block_ref, block_info) fmap \<times> block_ref list) option" where
  "link_loop gc m [] linked = Some (m, linked)"
| "link_loop gc m (r # targets) linked =
     (if ref_round r \<le> gc then link_loop gc m targets linked
      else case fmlookup m r of
        None \<Rightarrow> None
      | Some info \<Rightarrow>
        if bi_hard_linked info then link_loop gc m targets linked
        else link_loop gc (fmupd r (info\<lparr> bi_hard_linked := True \<rparr>) m)
               (targets @ vb_ancestors (bi_block info)) (linked @ [r]))"
  by pat_completeness auto
termination
  by (relation "inv_image (less_than <*lex*> less_than) (\<lambda>(gc, m, ts, l). (fcard (unlinked m), length ts))")
    (auto simp: unlinked_step)

definition link_causal_history ::
  "consensus_context \<Rightarrow> dag_state \<Rightarrow> block_ref \<Rightarrow> (dag_state \<times> block_ref list) option" where
  "link_causal_history ctx ds root = do {
     (m, linked) \<leftarrow> link_loop (gc_round ctx ds) (ds_recent_blocks ds) [root] [];
     Some (ds\<lparr> ds_recent_blocks := m \<rparr>, linked)
   }"

section \<open>Commits\<close>

definition bump_committed_round :: "block_ref \<Rightarrow> round list \<Rightarrow> round list option" where
  "bump_committed_round r rounds = do {
     old \<leftarrow> vec_get rounds (ref_author r);
     vec_set rounds (ref_author r) (max old (ref_round r))
   }"

definition add_commit_checks :: "dag_state \<Rightarrow> trusted_commit \<Rightarrow> bool option" where
  "add_commit_checks ds c =
     (case ds_last_commit ds of
        Some l \<Rightarrow>
          if tc_index c \<le> tc_index l then Some False
          else do {
            assert_rs (tc_index c = add_u32 (tc_index l) 1);
            assert_rs (tc_timestamp_ms l \<le> tc_timestamp_ms c);
            Some True
          }
      | None \<Rightarrow> do { assert_rs (tc_index c = 1); Some True })"

definition add_commit :: "consensus_context \<Rightarrow> dag_state \<Rightarrow> trusted_commit \<Rightarrow> dag_state option" where
  "add_commit ctx ds c = do {
     fresh \<leftarrow> add_commit_checks ds c;
     if \<not> fresh then Some ds
     else do {
       rounds \<leftarrow> for_each bump_committed_round (tc_blocks c) (ds_last_committed_rounds ds);
       _ \<leftarrow> traverse (to_authority_index (ctx_committee ctx)) [0..<length rounds];
       Some (ds\<lparr> ds_last_commit := Some c,
                ds_last_committed_rounds := rounds,
                ds_pending_commit_votes := ds_pending_commit_votes ds @ [tc_reference c],
                ds_commits_to_write := ds_commits_to_write ds @ [c] \<rparr>)
     }
   }"

definition recover_commits_to_write :: "dag_state \<Rightarrow> trusted_commit list \<Rightarrow> dag_state" where
  "recover_commits_to_write ds cs = ds\<lparr> ds_commits_to_write := ds_commits_to_write ds @ cs \<rparr>"

definition ensure_commits_to_write_is_empty :: "dag_state \<Rightarrow> unit option" where
  "ensure_commits_to_write_is_empty ds = assert_rs (ds_commits_to_write ds = [])"

definition add_commit_info :: "dag_state \<Rightarrow> reputation_scores \<Rightarrow> dag_state option" where
  "add_commit_info ds scores = do {
     assert_rs (scoring_is_empty (ds_scoring_subdag ds));
     let info = \<lparr> ci_committed_rounds = ds_last_committed_rounds ds, ci_reputation_scores = scores \<rparr>;
     c \<leftarrow> ds_last_commit ds;
     Some (ds\<lparr> ds_commit_info_to_write := ds_commit_info_to_write ds @ [(tc_reference c, info)] \<rparr>)
   }"

definition add_finalized_commit :: "dag_state \<Rightarrow> commit_ref \<Rightarrow> rejected_map \<Rightarrow> dag_state" where
  "add_finalized_commit ds r rejected =
     ds\<lparr> ds_finalized_commits_to_write := ds_finalized_commits_to_write ds @ [(r, rejected)] \<rparr>"

text \<open>The \<open>while\<close> loop pops votes from the front until the limit or the end is reached.\<close>

definition take_commit_votes :: "dag_state \<Rightarrow> nat \<Rightarrow> dag_state \<times> commit_vote list" where
  "take_commit_votes ds limit =
     (ds\<lparr> ds_pending_commit_votes := drop limit (ds_pending_commit_votes ds) \<rparr>,
      take limit (ds_pending_commit_votes ds))"

section \<open>Scoring\<close>

definition recover_last_commit_info :: "dag_state \<Rightarrow> (commit_ref \<times> commit_info) option" where
  "recover_last_commit_info ds = ms_read_last_commit_info (ds_store ds)"

definition add_scoring_subdags ::
  "consensus_context \<Rightarrow> dag_state \<Rightarrow> committed_sub_dag list \<Rightarrow> dag_state option" where
  "add_scoring_subdags ctx ds subdags = do {
     sc \<leftarrow> add_subdags (ctx_committee ctx) subdags (ds_scoring_subdag ds);
     Some (ds\<lparr> ds_scoring_subdag := sc \<rparr>)
   }"

definition clear_scoring_subdag :: "dag_state \<Rightarrow> dag_state" where
  "clear_scoring_subdag ds = ds\<lparr> ds_scoring_subdag := scoring_clear (ds_scoring_subdag ds) \<rparr>"

definition scoring_subdags_count :: "dag_state \<Rightarrow> nat option" where
  "scoring_subdags_count ds = scored_subdags_count (ds_scoring_subdag ds)"

definition is_scoring_subdag_empty :: "dag_state \<Rightarrow> bool" where
  "is_scoring_subdag_empty ds = scoring_is_empty (ds_scoring_subdag ds)"

definition calculate_scoring_subdag_scores ::
  "consensus_context \<Rightarrow> dag_state \<Rightarrow> reputation_scores option" where
  "calculate_scoring_subdag_scores ctx ds =
     calculate_distributed_vote_scores (ctx_committee ctx) (ds_scoring_subdag ds)"

definition scoring_subdag_commit_range :: "dag_state \<Rightarrow> commit_index option" where
  "scoring_subdag_commit_range ds = map_option range_end (sc_commit_range (ds_scoring_subdag ds))"

section \<open>Flushing\<close>

text \<open>The loop that pops references from the front while their round is at most the eviction round.\<close>

function evict_loop ::
  "round \<Rightarrow> block_ref fset \<Rightarrow> (block_ref, block_info) fmap \<Rightarrow>
     block_ref fset \<times> (block_ref, block_info) fmap" where
  "evict_loop er refs m =
     (case btree_first refs of
        None \<Rightarrow> (refs, m)
      | Some r \<Rightarrow> if ref_round r \<le> er then evict_loop er (refs |-| {|r|}) (fmdrop r m) else (refs, m))"
  by pat_completeness auto
termination
proof (relation "measure (\<lambda>(er, refs, m). fcard refs)")
  fix er and refs :: "block_ref fset" and m :: "(block_ref, block_info) fmap" and r
  assume "btree_first refs = Some r"
  then have "r |\<in>| refs" using btree_first_Some by blast
  then have "fcard (refs |-| {|r|}) < fcard refs" by (metis fcard_fminus1_less)
  then show "((er, refs |-| {|r|}, fmdrop r m), er, refs, m) \<in> measure (\<lambda>(er, refs, m). fcard refs)"
    by simp
qed simp

declare evict_loop.simps [simp del]

definition evict_authority ::
  "consensus_context \<Rightarrow> authority_index \<Rightarrow> dag_state \<Rightarrow> dag_state option" where
  "evict_authority ctx a ds = do {
     er \<leftarrow> calculate_authority_eviction_round ctx ds a;
     refs \<leftarrow> vec_get (ds_recent_refs ds) a;
     let (refs', m) = evict_loop er refs (ds_recent_blocks ds);
     recent_refs \<leftarrow> vec_set (ds_recent_refs ds) a refs';
     evicted \<leftarrow> vec_set (ds_evicted_rounds ds) a er;
     Some (ds\<lparr> ds_recent_refs := recent_refs, ds_recent_blocks := m, ds_evicted_rounds := evicted \<rparr>)
   }"

definition flush :: "consensus_context \<Rightarrow> dag_state \<Rightarrow> dag_state option" where
  "flush ctx ds =
     (let blocks = ds_blocks_to_write ds; commits = ds_commits_to_write ds;
          infos = ds_commit_info_to_write ds; finalized = ds_finalized_commits_to_write ds;
          ds1 = ds\<lparr> ds_blocks_to_write := [], ds_commits_to_write := [],
                    ds_commit_info_to_write := [], ds_finalized_commits_to_write := [] \<rparr> in
      if blocks = [] \<and> commits = [] \<and> infos = [] \<and> finalized = [] then Some ds1
      else for_each (evict_authority ctx) (map fst (committee_authorities (ctx_committee ctx)))
             (ds1\<lparr> ds_store := ms_write (ds_store ds1) (write_batch_new blocks commits infos finalized) \<rparr>))"

section \<open>Recovery\<close>

definition recover_commit ::
  "mem_store \<Rightarrow> trusted_commit \<Rightarrow> round list \<times> committed_sub_dag list \<Rightarrow>
     (round list \<times> committed_sub_dag list) option" where
  "recover_commit store c = (\<lambda>(rounds, subdags). do {
     rounds' \<leftarrow> for_each bump_committed_round (tc_blocks c) rounds;
     d \<leftarrow> load_committed_subdag_from_store (ms_read_blocks store) c [];
     Some (rounds', subdags @ [d])
   })"

definition recover_authority ::
  "consensus_context \<Rightarrow> authority_index \<Rightarrow> dag_state \<Rightarrow> dag_state option" where
  "recover_authority ctx a ds = do {
     last_block \<leftarrow> ms_scan_last_blocks_by_author (ds_store ds) a 1 None;
     let last_round = (if last_block = [] then GENESIS_ROUND else vb_round (last last_block));
     let er = eviction_round last_round (gc_round ctx ds) (ds_cached_rounds ds);
     blocks \<leftarrow> ms_scan_blocks_by_author (ds_store ds) a (add_u32 er 1);
     evicted \<leftarrow> vec_set (ds_evicted_rounds ds) a er;
     for_each (\<lambda>b ds. update_block_metadata ctx ds b) blocks (ds\<lparr> ds_evicted_rounds := evicted \<rparr>)
   }"

definition recover_committed :: "block_ref \<Rightarrow> dag_state \<Rightarrow> dag_state option" where
  "recover_committed r ds = do {
     (ds', fresh) \<leftarrow> set_committed ds r;
     assert_rs fresh;
     Some ds'
   }"

text \<open>The loop over the commits from the last one backwards: \<open>index\<close> decreases until 0.\<close>

fun recover_statuses :: "round \<Rightarrow> commit_index \<Rightarrow> dag_state \<Rightarrow> dag_state option" where
  "recover_statuses gc index ds = do {
     commits \<leftarrow> ms_scan_commits (ds_store ds) (range_new index index);
     (case commits of
        [] \<Rightarrow> Some ds
      | c # _ \<Rightarrow>
        if 0 < gc \<and> ref_round (tc_leader c) \<le> gc then Some ds
        else do {
          ds' \<leftarrow> for_each recover_committed (filter (\<lambda>r. gc < ref_round r) (tc_blocks c)) ds;
          if index - 1 = 0 then Some ds' else recover_statuses gc (index - 1) ds'
        })
   }"

declare recover_statuses.simps [simp del]

definition dag_state_new :: "crypto \<Rightarrow> consensus_context \<Rightarrow> mem_store \<Rightarrow> dag_state option" where
  "dag_state_new cr ctx store = do {
     genesis \<leftarrow> genesis_blocks cr ctx;
     let n = committee_size (ctx_committee ctx);
     let last_commit = ms_read_last_commit store;
     let (rounds, start_index) =
       (case ms_read_last_commit_info store of
          Some (r, info) \<Rightarrow> (ci_committed_rounds info, add_u32 (cref_index r) 1)
        | None \<Rightarrow> (replicate n 0, GENESIS_COMMIT_INDEX + 1));
     (rounds', subdags) \<leftarrow>
       (case last_commit of
          None \<Rightarrow> Some (rounds, [])
        | Some c \<Rightarrow> do {
            commits \<leftarrow> ms_scan_commits store (range_new start_index (tc_index c));
            for_each (recover_commit store) commits (rounds, [])
          });
     scoring \<leftarrow> add_subdags (ctx_committee ctx) subdags scoring_new;
     let ds = \<lparr> ds_genesis = fmap_of_list (rev (map (\<lambda>b. (vb_reference b, b)) genesis)),
                ds_recent_blocks = fmempty, ds_recent_refs = replicate n {||},
                ds_threshold_clock = clock_new 1, ds_evicted_rounds = replicate n 0,
                ds_highest_accepted_round = 0, ds_last_commit = last_commit,
                ds_last_committed_rounds = rounds', ds_scoring_subdag = scoring,
                ds_pending_commit_votes = [], ds_blocks_to_write = [], ds_commits_to_write = [],
                ds_commit_info_to_write = [], ds_finalized_commits_to_write = [],
                ds_store = store, ds_cached_rounds = dag_state_cached_rounds ctx \<rparr>;
     ds1 \<leftarrow> for_each (recover_authority ctx) (map fst (committee_authorities (ctx_committee ctx))) ds;
     ds2 \<leftarrow> (case last_commit of
         None \<Rightarrow> Some ds1
       | Some c \<Rightarrow> recover_statuses (gc_round ctx ds1) (tc_index c) ds1);
     proposed \<leftarrow> ms_scan_blocks_by_author store (own_index ctx) (add_u32 (gc_round ctx ds2) 1);
     for_each (\<lambda>b ds. map_option fst (link_causal_history ctx ds (vb_reference b))) proposed ds2
   }"

section \<open>The DAG as a map\<close>

text \<open>
  \<open>ds_blocks ds\<close> is the content of the DAG: genesis, then memory, then storage. Every read of the
  state is a lookup in it.
\<close>

definition ds_blocks :: "dag_state \<Rightarrow> block_ref \<Rightarrow> verified_block option" where
  "ds_blocks ds r =
     (if ref_round r = GENESIS_ROUND then fmlookup (ds_genesis ds) r
      else case fmlookup (ds_recent_blocks ds) r of
        Some info \<Rightarrow> Some (bi_block info)
      | None \<Rightarrow> ms_blocks_of (ds_store ds) r)"

definition in_memory :: "dag_state \<Rightarrow> block_ref \<Rightarrow> verified_block option" where
  "in_memory ds r =
     (if ref_round r = GENESIS_ROUND then fmlookup (ds_genesis ds) r
      else map_option bi_block (fmlookup (ds_recent_blocks ds) r))"

definition not_in_memory :: "dag_state \<Rightarrow> block_ref \<Rightarrow> bool" where
  "not_in_memory ds r \<longleftrightarrow> ref_round r \<noteq> GENESIS_ROUND \<and> fmlookup (ds_recent_blocks ds) r = None"

lemma fill_missing:
  "write_answers (pre @ map f xs)
     (map (\<lambda>(i, r). ((i, r), g r)) (filter (\<lambda>(i, r). P r) (List.enumerate (length pre) xs))) =
   pre @ map (\<lambda>r. if P r then g r else f r) xs"
proof (induction xs arbitrary: pre)
  case Nil
  then show ?case by simp
next
  case (Cons x xs)
  show ?case
    using Cons.IH [of "pre @ [g x]"] Cons.IH [of "pre @ [f x]"] by simp
qed

lemma zip_answers: "zip ms (map h (map snd ms)) = map (\<lambda>(i, r). ((i, r), h r)) ms"
  by (induction ms) auto

lemma read_answers:
  "zip ms (ms_read_blocks st (map snd ms)) = map (\<lambda>(i, r). ((i, r), ms_blocks_of st r)) ms"
  unfolding ms_read_blocks_def ms_blocks_of_def by (rule zip_answers)

lemma get_blocks_scan_eq:
  "get_blocks_scan ds (length pre) refs (pre @ replicate (length refs) None) missing =
     (pre @ map (in_memory ds) refs,
      missing @ filter (\<lambda>(i, r). not_in_memory ds r) (List.enumerate (length pre) refs))"
proof (induction refs arbitrary: pre missing)
  case Nil
  then show ?case by simp
next
  case (Cons r refs)
  show ?case
    using Cons.IH [of "pre @ [in_memory ds r]"]
    by (auto simp: in_memory_def not_in_memory_def split: option.splits)
qed

lemma get_blocks_eq: "get_blocks ds refs = map (ds_blocks ds) refs"
proof -
  let ?missing = "filter (\<lambda>(i, r). not_in_memory ds r) (List.enumerate 0 refs)"
  have "write_answers (map (in_memory ds) refs)
      (zip ?missing (ms_read_blocks (ds_store ds) (map snd ?missing))) =
    map (\<lambda>r. if not_in_memory ds r then ms_blocks_of (ds_store ds) r else in_memory ds r) refs"
    using fill_missing [of "[]" "in_memory ds" refs "ms_blocks_of (ds_store ds)" "not_in_memory ds"]
    by (simp add: read_answers)
  moreover have "(if not_in_memory ds r then ms_blocks_of (ds_store ds) r else in_memory ds r) = ds_blocks ds r" for r
    by (auto simp: not_in_memory_def in_memory_def ds_blocks_def split: option.splits)
  ultimately have fill: "write_answers (map (in_memory ds) refs)
      (zip ?missing (ms_read_blocks (ds_store ds) (map snd ?missing))) = map (ds_blocks ds) refs"
    by simp
  then show ?thesis
    using get_blocks_scan_eq [of ds "[]" refs "[]"] by (auto simp: get_blocks_def)
qed

lemma get_block_eq: "get_block ds r = ds_blocks ds r"
  by (simp add: get_block_def get_blocks_eq)

end
