(* ===== verification/Dag_State_Inv.thy ===== *)
theory Dag_State_Inv
  imports Dag_State
begin

text \<open>
  The invariant of \<open>DagState\<close> and what its operations do to the DAG seen as a map: lookups with the
  storage shortcut, acceptance of blocks, and flushing with eviction.
\<close>

section \<open>The invariant\<close>

text \<open>
  \<open>ds_inv\<close> collects what the operations maintain. The caches index the same blocks
  (\<open>refs_inv\<close>), whatever is buffered is cached and whatever is cached is buffered or stored
  (\<open>persist_inv\<close>), and the newest block of every author that has any block is cached
  (\<open>newest_inv\<close>), which is what the shortcut of \<open>contains_blocks\<close> relies on.
\<close>

definition genesis_inv :: "consensus_context \<Rightarrow> dag_state \<Rightarrow> bool" where
  "genesis_inv ctx ds \<longleftrightarrow>
     (\<forall>r b. fmlookup (ds_genesis ds) r = Some b \<longrightarrow> ref_round r = GENESIS_ROUND \<and> vb_reference b = r) \<and>
     (\<forall>a \<in> members (ctx_committee ctx). \<exists>r. r |\<in>| fmdom (ds_genesis ds) \<and> ref_author r = a)"

definition recent_inv :: "consensus_context \<Rightarrow> dag_state \<Rightarrow> bool" where
  "recent_inv ctx ds \<longleftrightarrow>
     (\<forall>r info. fmlookup (ds_recent_blocks ds) r = Some info \<longrightarrow>
        vb_reference (bi_block info) = r \<and> 0 < ref_round r \<and> ref_round r < u32_max \<and>
        ref_author r \<in> members (ctx_committee ctx))"

definition refs_inv :: "consensus_context \<Rightarrow> dag_state \<Rightarrow> bool" where
  "refs_inv ctx ds \<longleftrightarrow>
     length (ds_recent_refs ds) = committee_size (ctx_committee ctx) \<and>
     length (ds_evicted_rounds ds) = committee_size (ctx_committee ctx) \<and>
     length (ds_last_committed_rounds ds) = committee_size (ctx_committee ctx) \<and>
     (\<forall>a < committee_size (ctx_committee ctx).
        \<forall>r. r |\<in>| ds_recent_refs ds ! a \<longleftrightarrow> r |\<in>| fmdom (ds_recent_blocks ds) \<and> ref_author r = a)"

definition persist_inv :: "dag_state \<Rightarrow> bool" where
  "persist_inv ds \<longleftrightarrow>
     ms_inv (ds_store ds) \<and>
     (\<forall>b \<in> set (ds_blocks_to_write ds).
        \<exists>info. fmlookup (ds_recent_blocks ds) (vb_reference b) = Some info \<and> bi_block info = b) \<and>
     (\<forall>r info. fmlookup (ds_recent_blocks ds) r = Some info \<longrightarrow>
        bi_block info \<in> set (ds_blocks_to_write ds) \<or> ms_blocks_of (ds_store ds) r = Some (bi_block info))"

definition newest_inv :: "consensus_context \<Rightarrow> dag_state \<Rightarrow> bool" where
  "newest_inv ctx ds \<longleftrightarrow>
     0 < ds_cached_rounds ds \<and>
     (\<forall>r b. ms_blocks_of (ds_store ds) r = Some b \<longrightarrow>
        0 < ref_round r \<and>
        (\<exists>l. l |\<in>| fmdom (ds_recent_blocks ds) \<and> ref_author l = ref_author r \<and> ref_round r \<le> ref_round l))"

definition clock_ok :: "consensus_context \<Rightarrow> dag_state \<Rightarrow> bool" where
  "clock_ok ctx ds \<longleftrightarrow>
     committee_wf (ctx_committee ctx) \<and> own_index ctx \<in> members (ctx_committee ctx) \<and>
     agg_wf (ctx_committee ctx) (clk_aggregator (ds_threshold_clock ds))"

definition ds_inv :: "consensus_context \<Rightarrow> dag_state \<Rightarrow> bool" where
  "ds_inv ctx ds \<longleftrightarrow>
     genesis_inv ctx ds \<and> recent_inv ctx ds \<and> refs_inv ctx ds \<and> persist_inv ds \<and>
     newest_inv ctx ds \<and> clock_ok ctx ds"

lemmas ds_inv_parts = genesis_inv_def recent_inv_def refs_inv_def persist_inv_def newest_inv_def clock_ok_def

lemma ds_blocks_ref: "ds_inv ctx ds \<Longrightarrow> ds_blocks ds r = Some b \<Longrightarrow> vb_reference b = r"
  unfolding ds_inv_def genesis_inv_def recent_inv_def persist_inv_def ds_blocks_def
  by (auto split: if_splits option.splits intro: ms.blocks_ref)

lemma store_author_cached:
  assumes "ds_inv ctx ds" and "ms_blocks_of (ds_store ds) r = Some b" and "ref_author r < committee_size (ctx_committee ctx)"
  shows "\<exists>l. l |\<in>| ds_recent_refs ds ! ref_author r \<and> ref_round r \<le> ref_round l"
  using assms unfolding ds_inv_def newest_inv_def refs_inv_def by metis

text \<open>The shortcut: nothing cached of the author is as new as the reference, so it is nowhere.\<close>

definition certainly_absent :: "dag_state \<Rightarrow> block_ref \<Rightarrow> bool" where
  "certainly_absent ds r \<longleftrightarrow>
     (case btree_last (ds_recent_refs ds ! ref_author r) of
        None \<Rightarrow> True | Some l \<Rightarrow> ref_round l < ref_round r)"

definition cached_ref :: "dag_state \<Rightarrow> block_ref \<Rightarrow> bool" where
  "cached_ref ds r \<longleftrightarrow> r |\<in>| ds_recent_refs ds ! ref_author r \<or> r |\<in>| fmdom (ds_genesis ds)"

lemma contains_scan_eq:
  assumes "\<forall>r \<in> set refs. ref_author r < length (ds_recent_refs ds)"
  shows "contains_scan ds (length pre) refs (pre @ replicate (length refs) False) missing =
     Some (pre @ map (cached_ref ds) refs,
       missing @ filter (\<lambda>(i, r). \<not> cached_ref ds r \<and> \<not> certainly_absent ds r) (List.enumerate (length pre) refs))"
  using assms
proof (induction refs arbitrary: pre missing)
  case Nil
  then show ?case by simp
next
  case (Cons r refs)
  have r: "vec_get (ds_recent_refs ds) (ref_author r) = Some (ds_recent_refs ds ! ref_author r)"
    using Cons.prems by simp
  show ?case
    using Cons.IH [of "pre @ [cached_ref ds r]"] Cons.prems
    by (auto simp: r cached_ref_def certainly_absent_def split: option.splits)
qed

lemma contains_iff:
  assumes inv: "ds_inv ctx ds" and a: "ref_author r < committee_size (ctx_committee ctx)"
  shows "ds_blocks ds r \<noteq> None \<longleftrightarrow>
     (if \<not> cached_ref ds r \<and> \<not> certainly_absent ds r then ms_blocks_of (ds_store ds) r \<noteq> None else cached_ref ds r)"
proof -
  let ?refs = "ds_recent_refs ds ! ref_author r"
  have mem: "r |\<in>| ?refs \<longleftrightarrow> fmlookup (ds_recent_blocks ds) r \<noteq> None"
    using inv a by (auto simp: ds_inv_def refs_inv_def fmdom_iff)
  have gen: "fmlookup (ds_genesis ds) r \<noteq> None \<Longrightarrow> ref_round r = GENESIS_ROUND"
    using inv by (auto simp: ds_inv_def genesis_inv_def)
  have rec: "fmlookup (ds_recent_blocks ds) r \<noteq> None \<Longrightarrow> ref_round r \<noteq> GENESIS_ROUND"
    using inv by (auto simp: ds_inv_def recent_inv_def GENESIS_ROUND_def)
  have st: "ref_round r \<noteq> GENESIS_ROUND" "\<not> certainly_absent ds r" if "ms_blocks_of (ds_store ds) r \<noteq> None"
  proof -
    from that obtain b where b: "ms_blocks_of (ds_store ds) r = Some b" by blast
    then show "ref_round r \<noteq> GENESIS_ROUND"
      using inv by (auto simp: ds_inv_def newest_inv_def GENESIS_ROUND_def)
    from store_author_cached [OF inv b a] obtain l where l: "l |\<in>| ?refs" "ref_round r \<le> ref_round l" by blast
    then obtain m where m: "btree_last ?refs = Some m" by (cases "btree_last ?refs") auto
    then have "ref_round l \<le> ref_round m" using l(1) btree_last_Some block_ref_le_round by blast
    with l(2) m show "\<not> certainly_absent ds r" by (simp add: certainly_absent_def)
  qed
  show ?thesis
    using mem gen rec st unfolding ds_blocks_def cached_ref_def fmdom_iff
    by (cases "ref_round r = GENESIS_ROUND"; cases "fmlookup (ds_recent_blocks ds) r";
        cases "ms_blocks_of (ds_store ds) r"; cases "fmlookup (ds_genesis ds) r") auto
qed

lemma contains_blocks_eq:
  assumes inv: "ds_inv ctx ds" and a: "\<forall>r \<in> set refs. ref_author r \<in> members (ctx_committee ctx)"
  shows "contains_blocks ds refs = Some (map (\<lambda>r. ds_blocks ds r \<noteq> None) refs)"
proof -
  let ?P = "\<lambda>r. \<not> cached_ref ds r \<and> \<not> certainly_absent ds r"
  let ?missing = "filter (\<lambda>(i, r). ?P r) (List.enumerate 0 refs)"
  have len: "length (ds_recent_refs ds) = committee_size (ctx_committee ctx)"
    using inv by (simp add: ds_inv_def refs_inv_def)
  then have scan: "contains_scan ds 0 refs (replicate (length refs) False) [] =
      Some (map (cached_ref ds) refs, ?missing)"
    using contains_scan_eq [of refs ds "[]" "[]"] a by (simp add: members_def)
  have st: "ms_contains_blocks (ds_store ds) xs = map (\<lambda>r. ms_blocks_of (ds_store ds) r \<noteq> None) xs" for xs
    using inv by (intro ms.contains_law) (simp add: ds_inv_def persist_inv_def)
  have "write_answers (map (cached_ref ds) refs) (zip ?missing (ms_contains_blocks (ds_store ds) (map snd ?missing))) =
      map (\<lambda>r. if ?P r then ms_blocks_of (ds_store ds) r \<noteq> None else cached_ref ds r) refs"
    unfolding st zip_answers
    using fill_missing [of "[]" "cached_ref ds" refs "\<lambda>r. ms_blocks_of (ds_store ds) r \<noteq> None" ?P] by simp
  also have "\<dots> = map (\<lambda>r. ds_blocks ds r \<noteq> None) refs"
    using contains_iff [OF inv] a by (auto simp: members_def)
  finally show ?thesis
    using scan by (auto simp: contains_blocks_def)
qed

lemma contains_block_eq:
  assumes "ds_inv ctx ds" and "ref_author r \<in> members (ctx_committee ctx)"
  shows "contains_block ds r = Some (ds_blocks ds r \<noteq> None)"
  using contains_blocks_eq [OF assms(1), of "[r]"] assms(2) by (simp add: contains_block_def)

section \<open>Accepting a block\<close>

lemma clock_add_block_total:
  assumes wf: "committee_wf c" and agg: "agg_wf c (clk_aggregator clk)" and a: "ref_author b \<in> members c"
  shows "\<exists>clk' adv. clock_add_block c clk b = Some (clk', adv) \<and> agg_wf c (clk_aggregator clk')"
proof -
  have auth: "\<exists>x. committee_authority c (ref_author b) = Some x"
    using a by (simp add: committee_authority_def members_def committee_size_def)
  from agg agg_add_spec [OF wf agg a] agg_add_spec [OF wf agg_wf_new a] auth show ?thesis
    by (auto simp: clock_add_block_def)
qed

lemma btree_last_empty [simp]: "btree_last {||} = None" "btree_first {||} = None"
  by simp_all

lemma last_block_total:
  assumes gen: "genesis_inv ctx ds" and refs: "refs_inv ctx ds" and a: "a \<in> members (ctx_committee ctx)"
  shows "\<exists>b. get_last_block_for_authority ds a = Some b"
proof -
  have len: "a < length (ds_recent_refs ds)" using refs a by (simp add: refs_inv_def members_def)
  show ?thesis
  proof (cases "btree_last (ds_recent_refs ds ! a)")
    case None
    obtain g where "g |\<in>| fmdom (ds_genesis ds)" "ref_author g = a"
      using gen a by (auto simp: genesis_inv_def)
    then obtain g' where g': "List.find (\<lambda>r. ref_author r = a) (btree_iter (fmdom (ds_genesis ds))) = Some g'"
      by (cases "List.find (\<lambda>r. ref_author r = a) (btree_iter (fmdom (ds_genesis ds)))")
        (auto simp: find_None_iff)
    then have "g' |\<in>| fmdom (ds_genesis ds)" by (auto simp: find_Some_iff) (metis nth_mem set_btree_iter)
    with None g' len show ?thesis by (auto simp: get_last_block_for_authority_def fmdom_iff)
  next
    case (Some r)
    then have "r |\<in>| ds_recent_refs ds ! a" using btree_last_Some by blast
    then have "fmlookup (ds_recent_blocks ds) r \<noteq> None"
      using refs a by (auto simp: refs_inv_def members_def fmdom_iff)
    with Some len show ?thesis by (auto simp: get_last_block_for_authority_def)
  qed
qed

text \<open>The effect of \<open>update_block_metadata\<close>, with the clock it computes.\<close>

definition insert_recent :: "verified_block \<Rightarrow> threshold_clock \<Rightarrow> dag_state \<Rightarrow> dag_state" where
  "insert_recent b clk ds = ds\<lparr>
     ds_recent_blocks := fmupd (vb_reference b) (block_info_new b) (ds_recent_blocks ds),
     ds_recent_refs := (ds_recent_refs ds)[vb_author b := finsert (vb_reference b) (ds_recent_refs ds ! vb_author b)],
     ds_threshold_clock := clk,
     ds_highest_accepted_round := max (ds_highest_accepted_round ds) (vb_round b) \<rparr>"

lemma refs_inv_insert:
  assumes "refs_inv ctx ds" and "vb_author b \<in> members (ctx_committee ctx)"
  shows "refs_inv ctx (insert_recent b clk ds)"
  using assms by (auto simp: refs_inv_def insert_recent_def nth_list_update members_def)

lemma update_block_metadata_eq:
  assumes gen: "genesis_inv ctx ds" and refs: "refs_inv ctx ds" and clk: "clock_ok ctx ds"
    and a: "vb_author b \<in> members (ctx_committee ctx)"
  shows "\<exists>clk'. update_block_metadata ctx ds b = Some (insert_recent b clk' ds) \<and>
     agg_wf (ctx_committee ctx) (clk_aggregator clk')"
proof -
  let ?r = "vb_reference b"
  have len: "vb_author b < length (ds_recent_refs ds)" using refs a by (simp add: refs_inv_def members_def)
  obtain clk' adv where add: "clock_add_block (ctx_committee ctx) (ds_threshold_clock ds) ?r = Some (clk', adv)"
    and agg: "agg_wf (ctx_committee ctx) (clk_aggregator clk')"
    using clock_add_block_total [of "ctx_committee ctx" "ds_threshold_clock ds" ?r] clk a
    by (auto simp: clock_ok_def)
  let ?ds2 = "ds\<lparr> ds_recent_blocks := fmupd ?r (block_info_new b) (ds_recent_blocks ds),
      ds_recent_refs := (ds_recent_refs ds)[vb_author b := finsert ?r (ds_recent_refs ds ! vb_author b)],
      ds_threshold_clock := clk' \<rparr>"
  have "refs_inv ctx ?ds2"
    using refs_inv_insert [OF refs a] by (simp add: refs_inv_def insert_recent_def)
  moreover have "genesis_inv ctx ?ds2" using gen by (simp add: genesis_inv_def)
  ultimately obtain lb where "get_last_proposed_block ctx ?ds2 = Some lb"
    using last_block_total [of ctx ?ds2 "own_index ctx"] clk by (auto simp: get_last_proposed_block_def clock_ok_def)
  moreover obtain x where "committee_authority (ctx_committee ctx) (vb_author b) = Some x"
    using a by (simp add: committee_authority_def members_def committee_size_def)
  ultimately show ?thesis
    using len add agg by (auto simp: update_block_metadata_def insert_recent_def Let_def)
qed

text \<open>
  A new block of a member, of a round above genesis, in a slot that is free when it is one of ours,
  is accepted: the DAG becomes the old one with the block added, and the invariant is kept.
\<close>

definition acceptable :: "consensus_context \<Rightarrow> dag_state \<Rightarrow> verified_block \<Rightarrow> bool" where
  "acceptable ctx ds b \<longleftrightarrow>
     0 < vb_round b \<and> vb_round b < u32_max \<and> vb_author b \<in> members (ctx_committee ctx) \<and>
     (vb_author b = own_index ctx \<longrightarrow> ds_blocks ds (vb_reference b) = None \<longrightarrow>
        get_uncommitted_blocks_at_slot ds (slot_of (vb_reference b)) = [])"

lemma insert_recent_inv:
  assumes inv: "ds_inv ctx ds" and b: "0 < vb_round b" "vb_round b < u32_max"
    "vb_author b \<in> members (ctx_committee ctx)" and new: "ds_blocks ds (vb_reference b) = None"
    and agg: "agg_wf (ctx_committee ctx) (clk_aggregator clk)"
  defines "ds' \<equiv> (insert_recent b clk ds)\<lparr> ds_blocks_to_write := ds_blocks_to_write ds @ [b] \<rparr>"
  shows "ds_inv ctx ds'" and "ds_blocks ds' = (ds_blocks ds)(vb_reference b \<mapsto> b)"
proof -
  let ?r = "vb_reference b"
  have rec: "ds_recent_blocks ds' = fmupd ?r (block_info_new b) (ds_recent_blocks ds)"
    and rest: "ds_genesis ds' = ds_genesis ds" "ds_store ds' = ds_store ds" "ds_threshold_clock ds' = clk"
      "ds_cached_rounds ds' = ds_cached_rounds ds"
      "ds_blocks_to_write ds' = ds_blocks_to_write ds @ [b]"
    by (simp_all add: ds'_def insert_recent_def)
  have none: "fmlookup (ds_recent_blocks ds) ?r = None" "ms_blocks_of (ds_store ds) ?r = None"
    using new b(1) by (auto simp: ds_blocks_def GENESIS_ROUND_def split: option.splits)
  have "refs_inv ctx ds'"
    using refs_inv_insert [of ctx ds b clk] inv b(3) by (simp add: ds_inv_def refs_inv_def ds'_def)
  moreover have "genesis_inv ctx ds'" using inv by (simp add: ds_inv_def genesis_inv_def rest)
  moreover have "recent_inv ctx ds'"
    using inv b by (auto simp: ds_inv_def recent_inv_def rec block_info_new_def)
  moreover have "persist_inv ds'"
    using inv none by (auto simp: ds_inv_def persist_inv_def rec rest block_info_new_def)
  moreover have "newest_inv ctx ds'"
    using inv by (auto simp: ds_inv_def newest_inv_def rec rest)
  moreover have "clock_ok ctx ds'" using inv agg by (simp add: ds_inv_def clock_ok_def rest)
  ultimately show "ds_inv ctx ds'" by (simp add: ds_inv_def)
  show "ds_blocks ds' = (ds_blocks ds)(?r \<mapsto> b)"
    using b(1)
    by (auto simp: ds_blocks_def rec rest fun_eq_iff block_info_new_def GENESIS_ROUND_def split: option.splits)
qed

lemma accept_block_spec:
  assumes inv: "ds_inv ctx ds" and b: "acceptable ctx ds b"
  shows "\<exists>ds'. accept_block ctx b ds = Some ds' \<and> ds_inv ctx ds' \<and>
     ds_blocks ds' = (case ds_blocks ds (vb_reference b) of
        None \<Rightarrow> (ds_blocks ds)(vb_reference b \<mapsto> b) | Some _ \<Rightarrow> ds_blocks ds)"
proof (cases "ds_blocks ds (vb_reference b)")
  case (Some b')
  with b contains_block_eq [OF inv, of "vb_reference b"] inv show ?thesis
    by (auto simp: accept_block_def acceptable_def)
next
  case None
  have parts: "genesis_inv ctx ds" "refs_inv ctx ds" "clock_ok ctx ds" using inv by (simp_all add: ds_inv_def)
  have b': "0 < vb_round b" "vb_round b < u32_max" "vb_author b \<in> members (ctx_committee ctx)"
    using b by (simp_all add: acceptable_def)
  obtain clk where up: "update_block_metadata ctx ds b = Some (insert_recent b clk ds)"
    and agg: "agg_wf (ctx_committee ctx) (clk_aggregator clk)"
    using update_block_metadata_eq [OF parts b'(3)] by blast
  obtain x where "committee_authority (ctx_committee ctx) (vb_author b) = Some x"
    using b'(3) by (simp add: committee_authority_def members_def committee_size_def)
  moreover have "contains_block ds (vb_reference b) = Some False"
    using contains_block_eq [OF inv, of "vb_reference b"] b'(3) None by simp
  moreover have "ds_blocks_to_write (insert_recent b clk ds) = ds_blocks_to_write ds"
    by (simp add: insert_recent_def)
  ultimately show ?thesis
    using insert_recent_inv [OF inv b' None agg] up b None
    by (auto simp: accept_block_def acceptable_def Let_def)
qed

section \<open>Flushing loses nothing\<close>

text \<open>The eviction loop removes exactly the references up to the eviction round.\<close>

lemma evict_loop_eq:
  "evict_loop er refs m =
     (ffilter (\<lambda>r. er < ref_round r) refs, fmfilter (\<lambda>r. \<not> (r |\<in>| refs \<and> ref_round r \<le> er)) m)"
proof (induction er refs m rule: evict_loop.induct)
  case (1 er refs m)
  show ?case
  proof (cases "btree_first refs")
    case None
    then have "refs = {||}" by simp
    moreover have "ffilter (\<lambda>r. er < ref_round r) {||} = {||}" by auto
    ultimately show ?thesis
      using None by (simp add: evict_loop.simps [of er "{||}" m] fmfilter_true)
  next
    case (Some r)
    then have r: "r |\<in>| refs" "\<And>y. y |\<in>| refs \<Longrightarrow> r \<le> y" using btree_first_Some by blast+
    show ?thesis
    proof (cases "ref_round r \<le> er")
      case True
      have "ffilter (\<lambda>r. er < ref_round r) (refs |-| {|r|}) = ffilter (\<lambda>r. er < ref_round r) refs"
        using True by auto
      moreover have "fmfilter (\<lambda>x. \<not> (x |\<in>| refs |-| {|r|} \<and> ref_round x \<le> er)) (fmdrop r m) =
          fmfilter (\<lambda>x. \<not> (x |\<in>| refs \<and> ref_round x \<le> er)) m"
        using True r(1) by (intro fmap_ext) auto
      ultimately show ?thesis
        using "1.IH" [OF Some True] True Some by (simp add: evict_loop.simps [of er refs m])
    next
      case False
      have gt: "er < ref_round x" if "x |\<in>| refs" for x
        using False r(2) [OF that] block_ref_le_round [of r x] by simp
      then have "ffilter (\<lambda>r. er < ref_round r) refs = refs" by auto
      moreover have "fmfilter (\<lambda>r. \<not> (r |\<in>| refs \<and> ref_round r \<le> er)) m = m"
        by (rule fmfilter_true) (use gt in force)
      ultimately show ?thesis using False Some by (simp add: evict_loop.simps [of er refs m])
    qed
  qed
qed

definition persisted :: "dag_state \<Rightarrow> bool" where
  "persisted ds \<longleftrightarrow> ds_blocks_to_write ds = [] \<and>
     (\<forall>r info. fmlookup (ds_recent_blocks ds) r = Some info \<longrightarrow>
        ms_blocks_of (ds_store ds) r = Some (bi_block info))"

lemma newest_not_evicted:
  assumes inv: "ds_inv ctx ds" and a: "a < committee_size (ctx_committee ctx)"
    and l: "btree_last (ds_recent_refs ds ! a) = Some l"
  shows "calculate_authority_eviction_round ctx ds a =
      Some (eviction_round (ref_round l) (gc_round ctx ds) (ds_cached_rounds ds))"
    and "eviction_round (ref_round l) (gc_round ctx ds) (ds_cached_rounds ds) < ref_round l"
proof -
  have len: "a < length (ds_recent_refs ds)" using inv a by (simp add: ds_inv_def refs_inv_def)
  have "l |\<in>| ds_recent_refs ds ! a" using btree_last_Some [OF l] by blast
  then have "0 < ref_round l"
    using inv a by (auto simp: ds_inv_def refs_inv_def recent_inv_def fmdom_iff)
  moreover have "0 < ds_cached_rounds ds" using inv by (simp add: ds_inv_def newest_inv_def)
  ultimately show "eviction_round (ref_round l) (gc_round ctx ds) (ds_cached_rounds ds) < ref_round l"
    by (simp add: eviction_round_def min_less_iff_disj)
  show "calculate_authority_eviction_round ctx ds a =
      Some (eviction_round (ref_round l) (gc_round ctx ds) (ds_cached_rounds ds))"
    using len l by (simp add: calculate_authority_eviction_round_def)
qed

text \<open>What eviction leaves of one authority: the blocks above the eviction round \<open>er\<close>.\<close>

definition evicted_state :: "authority_index \<Rightarrow> round \<Rightarrow> dag_state \<Rightarrow> dag_state" where
  "evicted_state a er ds = ds\<lparr>
     ds_recent_refs := (ds_recent_refs ds)[a := ffilter (\<lambda>r. er < ref_round r) (ds_recent_refs ds ! a)],
     ds_recent_blocks := fmfilter (\<lambda>r. \<not> (r |\<in>| ds_recent_refs ds ! a \<and> ref_round r \<le> er)) (ds_recent_blocks ds),
     ds_evicted_rounds := (ds_evicted_rounds ds)[a := er] \<rparr>"

lemma evict_authority_eq:
  assumes inv: "ds_inv ctx ds" and a: "a < committee_size (ctx_committee ctx)"
  shows "\<exists>er. calculate_authority_eviction_round ctx ds a = Some er \<and>
     evict_authority ctx a ds = Some (evicted_state a er ds) \<and>
     (\<forall>l. btree_last (ds_recent_refs ds ! a) = Some l \<longrightarrow> er < ref_round l)"
proof -
  have len: "a < length (ds_recent_refs ds)" "a < length (ds_evicted_rounds ds)"
    using inv a by (simp_all add: ds_inv_def refs_inv_def)
  then obtain er where er: "calculate_authority_eviction_round ctx ds a = Some er"
    by (simp add: calculate_authority_eviction_round_def)
  moreover have "\<forall>l. btree_last (ds_recent_refs ds ! a) = Some l \<longrightarrow> er < ref_round l"
    using newest_not_evicted [OF inv a] er by auto
  ultimately show ?thesis
    using len by (simp add: evict_authority_def evict_loop_eq evicted_state_def Let_def)
qed

lemma evicted_state_lookup:
  assumes refs: "refs_inv ctx ds" and a: "a < committee_size (ctx_committee ctx)"
  shows "fmlookup (ds_recent_blocks (evicted_state a er ds)) r =
     (if ref_author r = a \<and> ref_round r \<le> er then None else fmlookup (ds_recent_blocks ds) r)"
  using assms by (auto simp: evicted_state_def refs_inv_def fmdom_iff)

lemma evicted_state_inv:
  assumes inv: "ds_inv ctx ds" and per: "persisted ds" and a: "a < committee_size (ctx_committee ctx)"
    and er: "\<forall>l. btree_last (ds_recent_refs ds ! a) = Some l \<longrightarrow> er < ref_round l"
  shows "ds_inv ctx (evicted_state a er ds)" and "persisted (evicted_state a er ds)"
    and "ds_blocks (evicted_state a er ds) = ds_blocks ds"
proof -
  let ?ds = "evicted_state a er ds"
  have refs: "refs_inv ctx ds" using inv by (simp add: ds_inv_def)
  note look = evicted_state_lookup [OF refs a, of er]
  have rest: "ds_genesis ?ds = ds_genesis ds" "ds_store ?ds = ds_store ds"
    "ds_threshold_clock ?ds = ds_threshold_clock ds" "ds_cached_rounds ?ds = ds_cached_rounds ds"
    "ds_blocks_to_write ?ds = ds_blocks_to_write ds"
    by (simp_all add: evicted_state_def)
  have "refs_inv ctx ?ds"
    using refs a look by (auto simp: refs_inv_def evicted_state_def nth_list_update fmdom_iff)
  moreover have "genesis_inv ctx ?ds" using inv by (simp add: ds_inv_def genesis_inv_def rest)
  moreover have "recent_inv ctx ?ds" using inv by (auto simp: ds_inv_def recent_inv_def look split: if_splits)
  moreover have per': "persisted ?ds" using per by (auto simp: persisted_def look rest split: if_splits)
  moreover have "persist_inv ?ds"
    using inv per' per by (auto simp: ds_inv_def persist_inv_def persisted_def rest)
  moreover have "newest_inv ctx ?ds"
    unfolding newest_inv_def rest
  proof (intro conjI allI impI)
    show "0 < ds_cached_rounds ds" using inv by (simp add: ds_inv_def newest_inv_def)
    fix r b assume st: "ms_blocks_of (ds_store ds) r = Some b"
    then show "0 < ref_round r" using inv by (auto simp: ds_inv_def newest_inv_def)
    from st inv obtain l where l: "l |\<in>| fmdom (ds_recent_blocks ds)" "ref_author l = ref_author r" "ref_round r \<le> ref_round l"
      by (auto simp: ds_inv_def newest_inv_def)
    show "\<exists>l. l |\<in>| fmdom (ds_recent_blocks ?ds) \<and> ref_author l = ref_author r \<and> ref_round r \<le> ref_round l"
    proof (cases "ref_author r = a")
      case True
      then have "l |\<in>| ds_recent_refs ds ! a" using l refs a by (simp add: refs_inv_def)
      then obtain m where m: "btree_last (ds_recent_refs ds ! a) = Some m" "l \<le> m"
        by (cases "btree_last (ds_recent_refs ds ! a)") (auto dest: btree_last_Some)
      then have "m |\<in>| ds_recent_refs ds ! a" using btree_last_Some by blast
      then have "m |\<in>| fmdom (ds_recent_blocks ds)" "ref_author m = a" using refs a by (simp_all add: refs_inv_def)
      moreover have "er < ref_round m" using er m by blast
      moreover have "ref_round r \<le> ref_round m" using l(3) block_ref_le_round [OF m(2)] by simp
      ultimately show ?thesis using True by (intro exI [of _ m]) (auto simp: fmdom_iff look)
    next
      case False
      with l show ?thesis by (intro exI [of _ l]) (auto simp: fmdom_iff look)
    qed
  qed
  moreover have "clock_ok ctx ?ds" using inv by (simp add: ds_inv_def clock_ok_def rest)
  ultimately show "ds_inv ctx ?ds" "persisted ?ds" by (simp_all add: ds_inv_def)
  show "ds_blocks ?ds = ds_blocks ds"
    using per by (auto simp: ds_blocks_def look rest persisted_def fun_eq_iff split: option.splits)
qed

lemma evict_all:
  assumes inv: "ds_inv ctx ds" and per: "persisted ds" and as: "set as \<subseteq> members (ctx_committee ctx)"
  shows "\<exists>ds'. for_each (evict_authority ctx) as ds = Some ds' \<and> ds_inv ctx ds' \<and> persisted ds' \<and>
     ds_blocks ds' = ds_blocks ds"
  using inv per as
proof (induction as arbitrary: ds)
  case Nil
  then show ?case by simp
next
  case (Cons a as)
  have a: "a < committee_size (ctx_committee ctx)" using Cons.prems(3) by (simp add: members_def)
  from evict_authority_eq [OF Cons.prems(1) a] obtain er where
    ev: "evict_authority ctx a ds = Some (evicted_state a er ds)"
    and er: "\<forall>l. btree_last (ds_recent_refs ds ! a) = Some l \<longrightarrow> er < ref_round l" by blast
  note st = evicted_state_inv [OF Cons.prems(1,2) a er]
  from Cons.IH [OF st(1,2)] Cons.prems(3) ev st(3) show ?case by auto
qed

lemma written_blocks_buffered:
  assumes "\<And>b. b \<in> set bs \<Longrightarrow> m (vb_reference b) = Some b"
  shows "written_blocks bs r = (if r \<in> vb_reference ` set bs then m r else None)"
proof (cases "written_blocks bs r")
  case None
  then have "r \<notin> vb_reference ` set bs" by (force simp: written_blocks_def map_of_eq_None_iff)
  with None show ?thesis by simp
next
  case (Some b)
  then have "(r, b) \<in> set (rev (map (\<lambda>b. (vb_reference b, b)) bs))"
    unfolding written_blocks_def by (rule map_of_SomeD)
  then have "b \<in> set bs" "r = vb_reference b" by auto
  with Some assms show ?thesis by auto
qed

text \<open>The state after the buffers have been written, before eviction.\<close>

definition unbuffered :: "dag_state \<Rightarrow> dag_state" where
  "unbuffered ds = ds\<lparr> ds_blocks_to_write := [], ds_commits_to_write := [],
     ds_commit_info_to_write := [], ds_finalized_commits_to_write := [] \<rparr>"

definition buffered_batch :: "dag_state \<Rightarrow> write_batch" where
  "buffered_batch ds = write_batch_new (ds_blocks_to_write ds) (ds_commits_to_write ds)
     (ds_commit_info_to_write ds) (ds_finalized_commits_to_write ds)"

definition written_state :: "dag_state \<Rightarrow> dag_state" where
  "written_state ds = (unbuffered ds)\<lparr> ds_store := ms_write (ds_store ds) (buffered_batch ds) \<rparr>"

lemma written_state_frame [frame_simps]:
  "ds_genesis (written_state ds) = ds_genesis ds"
  "ds_recent_blocks (written_state ds) = ds_recent_blocks ds"
  "ds_recent_refs (written_state ds) = ds_recent_refs ds"
  "ds_evicted_rounds (written_state ds) = ds_evicted_rounds ds"
  "ds_last_committed_rounds (written_state ds) = ds_last_committed_rounds ds"
  "ds_threshold_clock (written_state ds) = ds_threshold_clock ds"
  "ds_cached_rounds (written_state ds) = ds_cached_rounds ds"
  "ds_blocks_to_write (written_state ds) = []"
  "ds_store (written_state ds) = ms_write (ds_store ds) (buffered_batch ds)"
  by (simp_all add: written_state_def unbuffered_def)

lemma buffered_cached:
  assumes "ds_inv ctx ds" and "r \<in> vb_reference ` set (ds_blocks_to_write ds)"
  shows "\<exists>info. fmlookup (ds_recent_blocks ds) r = Some info"
  using assms unfolding ds_inv_def persist_inv_def by blast

lemma written_store:
  assumes inv: "ds_inv ctx ds"
  shows "ms_inv (ms_write (ds_store ds) (buffered_batch ds))"
    and "ms_blocks_of (ms_write (ds_store ds) (buffered_batch ds)) r =
      (if r \<in> vb_reference ` set (ds_blocks_to_write ds)
       then map_option bi_block (fmlookup (ds_recent_blocks ds) r)
       else ms_blocks_of (ds_store ds) r)"
proof -
  let ?bs = "ds_blocks_to_write ds"
  have buf: "\<exists>info. fmlookup (ds_recent_blocks ds) (vb_reference b) = Some info \<and> bi_block info = b" if "b \<in> set ?bs" for b
    using inv that by (auto simp: ds_inv_def persist_inv_def)
  have msi: "ms_inv (ds_store ds)" using inv by (simp add: ds_inv_def persist_inv_def)
  have "vb_round b \<le> u32_max" if "b \<in> set ?bs" for b
    using buf [OF that] inv by (force simp: ds_inv_def recent_inv_def)
  then show "ms_inv (ms_write (ds_store ds) (buffered_batch ds))"
    by (intro ms.write_invar [OF msi]) (simp add: buffered_batch_def write_batch_new_def)
  have w: "written_blocks ?bs r = (if r \<in> vb_reference ` set ?bs
      then map_option bi_block (fmlookup (ds_recent_blocks ds) r) else None)"
    by (rule written_blocks_buffered) (use buf in fastforce)
  have "ms_blocks_of (ms_write (ds_store ds) (buffered_batch ds)) r =
      (ms_blocks_of (ds_store ds) ++ written_blocks ?bs) r"
    unfolding ms.write_law [OF msi] by (simp add: buffered_batch_def write_batch_new_def)
  with w buffered_cached [OF inv, of r]
  show "ms_blocks_of (ms_write (ds_store ds) (buffered_batch ds)) r =
      (if r \<in> vb_reference ` set ?bs then map_option bi_block (fmlookup (ds_recent_blocks ds) r)
       else ms_blocks_of (ds_store ds) r)"
    by (cases "r \<in> vb_reference ` set ?bs") (auto simp: map_add_def simp del: image_iff)
qed

lemma written_persisted:
  assumes inv: "ds_inv ctx ds"
  shows "persisted (written_state ds)"
  unfolding persisted_def frame_simps
proof (intro conjI allI impI)
  fix r info assume info: "fmlookup (ds_recent_blocks ds) r = Some info"
  then have "bi_block info \<in> set (ds_blocks_to_write ds) \<or> ms_blocks_of (ds_store ds) r = Some (bi_block info)"
    and "vb_reference (bi_block info) = r"
    using inv by (auto simp: ds_inv_def persist_inv_def recent_inv_def)
  then show "ms_blocks_of (ms_write (ds_store ds) (buffered_batch ds)) r = Some (bi_block info)"
    using info written_store(2) [OF inv, of r] by (cases "r \<in> vb_reference ` set (ds_blocks_to_write ds)") auto
qed simp

lemma written_newest:
  assumes inv: "ds_inv ctx ds"
  shows "newest_inv ctx (written_state ds)"
  unfolding newest_inv_def frame_simps
proof (intro conjI allI impI)
  show "0 < ds_cached_rounds ds" using inv by (simp add: ds_inv_def newest_inv_def)
  fix r b assume b: "ms_blocks_of (ms_write (ds_store ds) (buffered_batch ds)) r = Some b"
  have "0 < ref_round r \<and> (\<exists>l. l |\<in>| fmdom (ds_recent_blocks ds) \<and> ref_author l = ref_author r \<and> ref_round r \<le> ref_round l)"
  proof (cases "r \<in> vb_reference ` set (ds_blocks_to_write ds)")
    case True
    from buffered_cached [OF inv this] inv show ?thesis
      by (intro conjI exI [of _ r]) (auto simp: fmdom_iff ds_inv_def recent_inv_def)
  next
    case False
    then have "ms_blocks_of (ds_store ds) r = Some b" using b written_store(2) [OF inv] by simp
    then show ?thesis using inv unfolding ds_inv_def newest_inv_def by blast
  qed
  then show "0 < ref_round r"
    and "\<exists>l. l |\<in>| fmdom (ds_recent_blocks ds) \<and> ref_author l = ref_author r \<and> ref_round r \<le> ref_round l"
    by simp_all
qed

lemma written_state_inv:
  assumes inv: "ds_inv ctx ds"
  shows "ds_inv ctx (written_state ds)" and "ds_blocks (written_state ds) = ds_blocks ds"
proof -
  have "persist_inv (written_state ds)"
    using written_persisted [OF inv] written_store(1) [OF inv] by (simp add: persist_inv_def persisted_def frame_simps)
  then show "ds_inv ctx (written_state ds)"
    using inv written_newest [OF inv]
    by (simp add: ds_inv_def genesis_inv_def recent_inv_def refs_inv_def clock_ok_def frame_simps)
  show "ds_blocks (written_state ds) = ds_blocks ds"
  proof
    fix r
    show "ds_blocks (written_state ds) r = ds_blocks ds r"
      using buffered_cached [OF inv, of r] written_store(2) [OF inv, of r]
      by (cases "r \<in> vb_reference ` set (ds_blocks_to_write ds)")
        (auto simp: ds_blocks_def frame_simps simp del: image_iff split: option.splits)
  qed
qed

lemma flush_spec:
  assumes inv: "ds_inv ctx ds"
  shows "\<exists>ds'. flush ctx ds = Some ds' \<and> ds_inv ctx ds' \<and> persisted ds' \<and> ds_blocks ds' = ds_blocks ds"
proof (cases "ds_blocks_to_write ds = [] \<and> ds_commits_to_write ds = [] \<and>
    ds_commit_info_to_write ds = [] \<and> ds_finalized_commits_to_write ds = []")
  case True
  then have "flush ctx ds = Some ds" by (simp add: flush_def Let_def)
  moreover have "persisted ds" using True inv by (auto simp: persisted_def ds_inv_def persist_inv_def)
  ultimately show ?thesis using inv by simp
next
  case False
  let ?as = "map fst (committee_authorities (ctx_committee ctx))"
  have "set ?as \<subseteq> members (ctx_committee ctx)"
    by (auto simp: committee_authorities_def members_def committee_size_def in_set_enumerate_eq)
  moreover have "flush ctx ds = for_each (evict_authority ctx) ?as (written_state ds)"
    using False by (auto simp: flush_def Let_def written_state_def unbuffered_def buffered_batch_def)
  ultimately show ?thesis
    using evict_all [OF written_state_inv(1) [OF inv] written_persisted [OF inv]] written_state_inv(2) [OF inv]
    by simp
qed

end
