(* ===== verification/Causal.thy ===== *)
theory Causal
  imports Blocks "HOL-Library.Multiset"
begin

text \<open>
  Causal histories. A block map assigns blocks to references; the history of a set of references
  above a round is what a traversal reaches from them by following ancestors of blocks above that
  round. The traversals of \<open>DagState\<close> and of the linearizer are shown to compute such histories.
\<close>

type_synonym block_map = "block_ref \<rightharpoonup> verified_block"

inductive causal :: "block_map \<Rightarrow> round \<Rightarrow> block_ref set \<Rightarrow> block_ref \<Rightarrow> bool" for B e S where
  root: "r \<in> S \<Longrightarrow> causal B e S r"
| step: "causal B e S r \<Longrightarrow> e < ref_round r \<Longrightarrow> B r = Some b \<Longrightarrow> a \<in> set (vb_ancestors b) \<Longrightarrow> causal B e S a"

definition rounds_decrease :: "block_map \<Rightarrow> bool" where
  "rounds_decrease B \<longleftrightarrow> (\<forall>r b a. B r = Some b \<longrightarrow> a \<in> set (vb_ancestors b) \<longrightarrow> ref_round a < ref_round r)"

lemma rounds_decreaseD:
  "rounds_decrease B \<Longrightarrow> B r = Some b \<Longrightarrow> a \<in> set (vb_ancestors b) \<Longrightarrow> ref_round a < ref_round r"
  by (auto simp: rounds_decrease_def)

lemma causal_mono: "causal B e S r \<Longrightarrow> S \<subseteq> T \<Longrightarrow> causal B e T r"
  by (induction rule: causal.induct) (auto intro: causal.intros)

lemma causal_trans: "causal B e S r \<Longrightarrow> (\<And>x. x \<in> S \<Longrightarrow> causal B e T x) \<Longrightarrow> causal B e T r"
  by (induction rule: causal.induct) (auto intro: causal.intros)

lemma causal_round_le:
  assumes "causal B e S r" and "rounds_decrease B" and "\<And>x. x \<in> S \<Longrightarrow> ref_round x \<le> n"
  shows "ref_round r \<le> n"
  using assms by (induction rule: causal.induct) (auto dest: rounds_decreaseD order.strict_trans2 intro: less_imp_le order.trans)

text \<open>A reference at or below the bound is in the history only as a root or as an ancestor.\<close>

lemma causal_Un: "causal B e (S \<union> T) r \<longleftrightarrow> causal B e S r \<or> causal B e T r"
proof
  assume "causal B e (S \<union> T) r"
  then show "causal B e S r \<or> causal B e T r"
    by (induction rule: causal.induct) (auto intro: causal.intros)
qed (auto intro: causal_mono)

lemma causal_root_below: "\<forall>x \<in> S. ref_round x \<le> e \<Longrightarrow> causal B e S r \<longleftrightarrow> r \<in> S"
proof
  assume below: "\<forall>x \<in> S. ref_round x \<le> e" and "causal B e S r"
  from this(2) show "r \<in> S" by (induction rule: causal.induct) (use below in force)+
qed (rule causal.root)

lemma causal_expand:
  assumes "B r = Some b" and "e < ref_round r" and "r \<in> S"
  shows "causal B e S x \<longleftrightarrow> x = r \<or> causal B e (S - {r} \<union> set (vb_ancestors b)) x"
proof
  assume "causal B e S x"
  then show "x = r \<or> causal B e (S - {r} \<union> set (vb_ancestors b)) x"
    by (induction rule: causal.induct) (use assms in \<open>auto intro: causal.intros\<close>)
next
  assume "x = r \<or> causal B e (S - {r} \<union> set (vb_ancestors b)) x"
  moreover have "causal B e S y" if "y \<in> S - {r} \<union> set (vb_ancestors b)" for y
    using that assms by (auto intro: causal.intros)
  ultimately show "causal B e S x" using causal_trans assms(3) causal.root by metis
qed

definition refs_match :: "block_map \<Rightarrow> bool" where
  "refs_match B \<longleftrightarrow> (\<forall>r b. B r = Some b \<longrightarrow> vb_reference b = r)"

lemma map_reference_lookup:
  assumes "refs_match B" and "\<And>r. r \<in> set rs \<Longrightarrow> B r \<noteq> None"
  shows "map vb_reference (map (\<lambda>r. the (B r)) rs) = rs"
  using assms(2) by (induction rs) (use assms(1) in \<open>auto simp: refs_match_def\<close>)

end
