(* ===== verification/Dag_Traversal.thy ===== *)
theory Dag_Traversal
  imports Dag_State_Inv Causal
begin

text \<open>
  The traversals of \<open>DagState\<close> compute causal histories: \<open>ancestors_at_round\<close> returns the blocks of a
  round in the history of a block, and \<open>link_causal_history\<close> marks and returns exactly the part of
  the history above the garbage-collection round that was not linked before.
\<close>

section \<open>Ancestors at a round\<close>

definition rounds_mset :: "block_ref fset \<Rightarrow> nat multiset" where
  "rounds_mset S = image_mset ref_round (mset_set (fset S))"

lemma rounds_mset_step:
  assumes r: "r |\<in>| S" and A: "\<And>a. a |\<in>| A \<Longrightarrow> ref_round a < ref_round r"
  shows "(rounds_mset ((S |-| {|r|}) |\<union>| A), rounds_mset S) \<in> mult less_than"
proof -
  let ?R = "image_mset ref_round (mset_set (fset S - {r}))"
  let ?new = "fset A - (fset S - {r})"
  have "fset ((S |-| {|r|}) |\<union>| A) = (fset S - {r}) \<union> ?new" by auto
  then have "rounds_mset ((S |-| {|r|}) |\<union>| A) = ?R + image_mset ref_round (mset_set ?new)"
    unfolding rounds_mset_def by (simp only:) (subst mset_set_Union, auto)
  moreover have "rounds_mset S = ?R + {#ref_round r#}"
    using r unfolding rounds_mset_def by (subst mset_set.remove [of _ r]) auto
  moreover have "(?R + image_mset ref_round (mset_set ?new), ?R + {#ref_round r#}) \<in> mult less_than"
    by (rule one_step_implies_mult) (use A in auto)
  ultimately show ?thesis by simp
qed

lemma ancestors_loop_spec:
  assumes dec: "rounds_decrease (ds_blocks ds)"
    and present: "\<And>r. causal (ds_blocks ds) e (fset S) r \<Longrightarrow> e < ref_round r \<Longrightarrow> ds_blocks ds r \<noteq> None"
  shows "\<exists>T. ancestors_loop ds e S = Some T \<and>
     (\<forall>x. x |\<in>| T \<longleftrightarrow> causal (ds_blocks ds) e (fset S) x \<and> ref_round x \<le> e)"
  using present
proof (induction "rounds_mset S" arbitrary: S rule: wf_induct_rule [OF wf_mult [OF wf_less_than]])
  case 1
  let ?B = "ds_blocks ds"
  show ?case
  proof (cases "btree_last S")
    case None
    then have "S = {||}" by simp
    then show ?thesis
      using None causal_root_below [of "{}" e ?B]
      by (intro exI [of _ "{||}"]) (auto simp: ancestors_loop.simps [of ds e "{||}"])
  next
    case (Some r)
    then have r: "r |\<in>| S" "\<And>y. y |\<in>| S \<Longrightarrow> y \<le> r" using btree_last_Some by blast+
    show ?thesis
    proof (cases "ref_round r \<le> e")
      case True
      then have below: "\<forall>x \<in> fset S. ref_round x \<le> e"
        using r(2) block_ref_le_round order.trans by blast
      then show ?thesis
        using Some True causal_root_below [OF below, of ?B] by (auto simp: ancestors_loop.simps [of ds e S])
    next
      case False
      then obtain b where b: "?B r = Some b" using 1(2) [of r] r(1) causal.root [of r "fset S"] by auto
      let ?A = "fset_of_list (vb_ancestors b)"
      let ?S = "(S |-| {|r|}) |\<union>| ?A"
      have fs: "fset ?S = fset S - {r} \<union> set (vb_ancestors b)" by (auto simp: fset_of_list.rep_eq)
      have exp: "causal ?B e (fset S) x \<longleftrightarrow> x = r \<or> causal ?B e (fset ?S) x" for x
        unfolding fs using causal_expand [of ?B r b e "fset S" x] b False r(1) by simp
      have "(rounds_mset ?S, rounds_mset S) \<in> mult less_than"
        by (rule rounds_mset_step [OF r(1)]) (use rounds_decreaseD [OF dec b] in \<open>auto simp: fset_of_list.rep_eq\<close>)
      from 1(1) [OF this] 1(2) exp obtain T where
        "ancestors_loop ds e ?S = Some T" "\<forall>x. x |\<in>| T \<longleftrightarrow> causal ?B e (fset ?S) x \<and> ref_round x \<le> e" by blast
      then show ?thesis
        using Some False b exp by (auto simp: ancestors_loop.simps [of ds e S] get_block_eq)
    qed
  qed
qed

lemma ancestors_at_round_spec:
  assumes inv: "ds_inv ctx ds" and dec: "rounds_decrease (ds_blocks ds)"
    and present: "\<And>r. causal (ds_blocks ds) e (set (vb_ancestors b)) r \<Longrightarrow> e \<le> ref_round r \<Longrightarrow> ds_blocks ds r \<noteq> None"
  shows "\<exists>bs. ancestors_at_round ds b e = Some bs \<and> sorted (map vb_reference bs) \<and> distinct (map vb_reference bs) \<and>
     (\<forall>x. x \<in> set (map vb_reference bs) \<longleftrightarrow> causal (ds_blocks ds) e (set (vb_ancestors b)) x \<and> ref_round x = e) \<and>
     (\<forall>x \<in> set bs. ds_blocks ds (vb_reference x) = Some x)"
proof -
  let ?B = "ds_blocks ds"
  let ?S = "fset_of_list (vb_ancestors b)"
  have fs: "fset ?S = set (vb_ancestors b)" by (simp add: fset_of_list.rep_eq)
  obtain T where T: "ancestors_loop ds e ?S = Some T"
    "\<And>x. x |\<in>| T \<longleftrightarrow> causal ?B e (set (vb_ancestors b)) x \<and> ref_round x \<le> e"
    using ancestors_loop_spec [OF dec, of e ?S] present unfolding fs by (metis less_imp_le)
  let ?rs = "btree_range (\<lambda>k. BlockRef e 0 digest_min \<le> k) T"
  have ge: "BlockRef e 0 digest_min \<le> k \<longleftrightarrow> e \<le> ref_round k" for k
    by (cases k) (auto simp: block_ref_order)
  have rs: "x \<in> set ?rs \<longleftrightarrow> causal ?B e (set (vb_ancestors b)) x \<and> ref_round x = e" for x
    using T(2) by (auto simp: ge)
  then have some: "get_block ds x = Some (the (?B x))" if "x \<in> set ?rs" for x
    using that present [of x] by (auto simp: get_block_eq)
  let ?bs = "map (\<lambda>x. the (?B x)) ?rs"
  have "ancestors_at_round ds b e = Some ?bs"
    using T(1) traverse_total [of ?rs "get_block ds"] some by (simp add: ancestors_at_round_def)
  moreover have refs: "map vb_reference ?bs = ?rs"
    by (rule map_reference_lookup) (use ds_blocks_ref [OF inv] some in \<open>auto simp: refs_match_def get_block_eq\<close>)
  moreover have "\<forall>x \<in> set ?bs. ?B (vb_reference x) = Some x"
    using some ds_blocks_ref [OF inv] by (auto simp: get_block_eq)
  ultimately show ?thesis using rs by (intro exI [of _ ?bs]) simp
qed

section \<open>Hard links\<close>

definition blocks_in :: "(block_ref, block_info) fmap \<Rightarrow> block_map" where
  "blocks_in m r = map_option bi_block (fmlookup m r)"

definition linked_in :: "(block_ref, block_info) fmap \<Rightarrow> block_ref set" where
  "linked_in m = {r. \<exists>info. fmlookup m r = Some info \<and> bi_hard_linked info}"

text \<open>
  The cache holds the ancestors of its blocks above \<open>gc\<close>; the linked blocks are closed under
  ancestors above \<open>gc\<close>, except for the ones still among the targets \<open>ts\<close>.
\<close>

definition cache_complete :: "round \<Rightarrow> (block_ref, block_info) fmap \<Rightarrow> bool" where
  "cache_complete gc m \<longleftrightarrow>
     (\<forall>r b a. blocks_in m r = Some b \<longrightarrow> gc < ref_round r \<longrightarrow> a \<in> set (vb_ancestors b) \<longrightarrow>
        gc < ref_round a \<longrightarrow> blocks_in m a \<noteq> None)"

definition links_closed :: "round \<Rightarrow> (block_ref, block_info) fmap \<Rightarrow> block_ref set \<Rightarrow> bool" where
  "links_closed gc m ts \<longleftrightarrow>
     (\<forall>r b a. r \<in> linked_in m \<longrightarrow> blocks_in m r = Some b \<longrightarrow> gc < ref_round r \<longrightarrow> a \<in> set (vb_ancestors b) \<longrightarrow>
        gc < ref_round a \<longrightarrow> a \<in> linked_in m \<union> ts)"

definition newly_linked :: "round \<Rightarrow> (block_ref, block_info) fmap \<Rightarrow> block_ref set \<Rightarrow> block_ref set" where
  "newly_linked gc m ts = {x. causal (blocks_in m) gc ts x \<and> gc < ref_round x \<and> x \<notin> linked_in m}"

lemma newly_linked_below:
  "ref_round r \<le> gc \<Longrightarrow> newly_linked gc m (insert r ts) = newly_linked gc m ts"
  using causal_Un [of "blocks_in m" gc "{r}" ts] causal_root_below [of "{r}" gc "blocks_in m"]
  by (auto simp: newly_linked_def)

lemma links_closed_below:
  "links_closed gc m (insert r ts) \<Longrightarrow> ref_round r \<le> gc \<Longrightarrow> links_closed gc m ts"
  unfolding links_closed_def by (metis Un_iff insert_iff leD)

lemma newly_linked_linked:
  assumes r: "r \<in> linked_in m" and closed: "links_closed gc m (insert r ts)"
  shows "newly_linked gc m (insert r ts) = newly_linked gc m ts"
proof -
  have "ref_round x \<le> gc \<or> x \<in> linked_in m \<or> causal (blocks_in m) gc ts x"
    if "causal (blocks_in m) gc (insert r ts) x" for x
    using that
  proof (induction rule: causal.induct)
    case (root x)
    then show ?case using r by (auto intro: causal.root)
  next
    case (step x b a)
    show ?case
    proof (cases "causal (blocks_in m) gc ts x")
      case True
      then show ?thesis using step by (blast intro: causal.step)
    next
      case False
      with step have "x \<in> linked_in m" by auto
      with closed step have "gc < ref_round a \<Longrightarrow> a \<in> linked_in m \<union> insert r ts"
        unfolding links_closed_def by blast
      then show ?thesis using r by (cases "gc < ref_round a") (auto intro: causal.root)
    qed
  qed
  then show ?thesis using causal_mono [of "blocks_in m" gc ts _ "insert r ts"] by (force simp: newly_linked_def)
qed

text \<open>Marking one block.\<close>

lemma mark_block:
  assumes look: "fmlookup m r = Some info"
  defines "m' \<equiv> fmupd r (info\<lparr> bi_hard_linked := True \<rparr>) m"
  shows "blocks_in m' = blocks_in m" and "linked_in m' = insert r (linked_in m)"
  using look by (auto simp: blocks_in_def linked_in_def m'_def fun_eq_iff)

lemma newly_linked_mark:
  assumes look: "fmlookup m r = Some info" and above: "gc < ref_round r" and new: "r \<notin> linked_in m"
  defines "m' \<equiv> fmupd r (info\<lparr> bi_hard_linked := True \<rparr>) m"
  shows "newly_linked gc m (insert r ts) =
      insert r (newly_linked gc m' (ts \<union> set (vb_ancestors (bi_block info))))"
    and "r \<notin> newly_linked gc m' (ts \<union> set (vb_ancestors (bi_block info)))"
proof -
  let ?B = "blocks_in m" and ?A = "set (vb_ancestors (bi_block info))"
  note mark = mark_block [OF look, folded m'_def]
  have b: "?B r = Some (bi_block info)" using look by (simp add: blocks_in_def)
  have exp: "causal ?B gc (insert r ts) x \<longleftrightarrow> x = r \<or> causal ?B gc (insert r ts - {r} \<union> ?A) x" for x
    by (rule causal_expand [where b = "bi_block info"]) (use b above in auto)
  have "causal ?B gc (insert r ts - {r} \<union> ?A) x \<Longrightarrow> causal ?B gc (ts \<union> ?A) x" for x
    by (erule causal_mono) auto
  moreover have "causal ?B gc (ts \<union> ?A) x \<Longrightarrow> causal ?B gc (insert r ts) x" for x
    by (erule causal_trans) (use b above in \<open>auto intro: causal.intros\<close>)
  ultimately have "causal ?B gc (insert r ts) x \<longleftrightarrow> x = r \<or> causal ?B gc (ts \<union> ?A) x" for x
    using exp [of x] causal.root [of r "insert r ts"] by blast
  then show "newly_linked gc m (insert r ts) = insert r (newly_linked gc m' (ts \<union> ?A))"
    using above new unfolding newly_linked_def mark by auto
  show "r \<notin> newly_linked gc m' (ts \<union> ?A)" by (simp add: newly_linked_def mark)
qed

lemma links_closed_mark:
  assumes closed: "links_closed gc m (insert r ts)" and look: "fmlookup m r = Some info"
  shows "links_closed gc (fmupd r (info\<lparr> bi_hard_linked := True \<rparr>) m) (ts \<union> set (vb_ancestors (bi_block info)))"
  using closed look unfolding links_closed_def mark_block [OF look]
  by (auto simp: blocks_in_def)

lemma link_loop_spec:
  assumes "cache_complete gc m" and "links_closed gc m (set ts)"
    and "\<forall>t \<in> set ts. gc < ref_round t \<longrightarrow> blocks_in m t \<noteq> None"
  shows "\<exists>m' new. link_loop gc m ts l = Some (m', l @ new) \<and> distinct new \<and>
     set new = newly_linked gc m (set ts) \<and> blocks_in m' = blocks_in m \<and> linked_in m' = linked_in m \<union> set new"
  using assms
proof (induction gc m ts l rule: link_loop.induct)
  case (1 gc m l)
  then show ?case using causal_root_below [of "{}" gc "blocks_in m"] by (simp add: newly_linked_def)
next
  case (2 gc m r ts l)
  show ?case
  proof (cases "ref_round r \<le> gc")
    case True
    with 2 newly_linked_below [OF True, of m "set ts"] links_closed_below [of gc m r "set ts"]
    show ?thesis by simp
  next
    case above: False
    then obtain info where look: "fmlookup m r = Some info"
      using "2.prems"(3) by (auto simp: blocks_in_def)
    show ?thesis
    proof (cases "bi_hard_linked info")
      case True
      then have r: "r \<in> linked_in m" using look by (simp add: linked_in_def)
      have closed: "links_closed gc m (set ts)"
        using "2.prems"(2) r by (auto simp: links_closed_def)
      from "2.IH"(2) [OF above look True "2.prems"(1) closed] "2.prems"(3)
      show ?thesis using above look True newly_linked_linked [OF r] "2.prems"(2) by simp
    next
      case False
      let ?m = "fmupd r (info\<lparr> bi_hard_linked := True \<rparr>) m"
      let ?ts = "ts @ vb_ancestors (bi_block info)"
      have new: "r \<notin> linked_in m" using look False by (simp add: linked_in_def)
      note mark = mark_block [OF look]
      have "cache_complete gc ?m" using "2.prems"(1) by (simp add: cache_complete_def mark)
      moreover have "links_closed gc ?m (set ?ts)"
        using links_closed_mark [OF _ look, of gc "set ts"] "2.prems"(2) by simp
      moreover have "blocks_in m r = Some (bi_block info)" using look by (simp add: blocks_in_def)
      then have "\<forall>t \<in> set ?ts. gc < ref_round t \<longrightarrow> blocks_in ?m t \<noteq> None"
        using "2.prems"(1,3) above unfolding mark cache_complete_def
        by (metis Un_iff list.set_intros(2) not_le set_append)
      ultimately obtain m' rest where "link_loop gc ?m ?ts (l @ [r]) = Some (m', (l @ [r]) @ rest)" "distinct rest"
        "set rest = newly_linked gc ?m (set ?ts)" "blocks_in m' = blocks_in ?m" "linked_in m' = linked_in ?m \<union> set rest"
        using "2.IH"(3) [OF above look False] by blast
      then show ?thesis
        using above look False newly_linked_mark [OF look _ new, of gc "set ts"] mark
        by (intro exI [of _ m'] exI [of _ "r # rest"]) auto
    qed
  qed
qed

end
