(* ===== verification/Commit_Rule.thy ===== *)
theory Commit_Rule
  imports Causal Block_Verifier Commits
begin

text \<open>
  The Mysticeti commit rule as a specification over block maps, for waves of three rounds: a leader
  of round \<open>r\<close> is voted for at \<open>r + 1\<close> and certified at \<open>r + 2\<close>. The predicate \<open>safe_views\<close> states what the
  rule relies on: two views of the DAG that agree on blocks, are complete above their garbage
  collection rounds, hold verified blocks only, and in which the authorities outside a faulty set
  do not equivocate. The lemmas about it are the safety of the protocol.
\<close>

section \<open>Views of the DAG\<close>

text \<open>\<open>G\<close> is the set of genesis references against which blocks were verified.\<close>

definition complete_above :: "round \<Rightarrow> block_map \<Rightarrow> bool" where
  "complete_above gc B \<longleftrightarrow>
     (\<forall>r b a. B r = Some b \<longrightarrow> gc < ref_round r \<longrightarrow> a \<in> set (vb_ancestors b) \<longrightarrow> gc < ref_round a \<longrightarrow> B a \<noteq> None)"

definition dag_view :: "committee \<Rightarrow> block_ref fset \<Rightarrow> round \<Rightarrow> block_map \<Rightarrow> bool" where
  "dag_view c G gc B \<longleftrightarrow>
     refs_match B \<and> complete_above gc B \<and>
     (\<forall>r b. B r = Some b \<longrightarrow> (if ref_round r = 0 then vb_ancestors b = [] else block_ok c G (vb_block b)))"

definition no_equivocation :: "authority_index set \<Rightarrow> block_map \<Rightarrow> bool" where
  "no_equivocation F B \<longleftrightarrow>
     (\<forall>r s. B r \<noteq> None \<longrightarrow> B s \<noteq> None \<longrightarrow> slot_of r = slot_of s \<longrightarrow> ref_author r \<notin> F \<longrightarrow> r = s)"

lemma complete_aboveD:
  "complete_above gc B \<Longrightarrow> B r = Some b \<Longrightarrow> gc < ref_round r \<Longrightarrow> a \<in> set (vb_ancestors b) \<Longrightarrow>
     gc < ref_round a \<Longrightarrow> \<exists>x. B a = Some x"
  by (auto simp: complete_above_def)

lemma view_block_ok:
  "dag_view c G gc B \<Longrightarrow> B r = Some b \<Longrightarrow> 0 < ref_round r \<Longrightarrow> block_ok c G (vb_block b) \<and> vb_reference b = r"
  by (auto simp: dag_view_def refs_match_def)

lemma view_reference: "dag_view c G gc B \<Longrightarrow> B r = Some b \<Longrightarrow> vb_reference b = r"
  by (auto simp: dag_view_def refs_match_def)

lemma view_ancestors:
  assumes "dag_view c G gc B" and "B r = Some b"
  shows "distinct (map ref_author (vb_ancestors b))"
    and "\<And>a. a \<in> set (vb_ancestors b) \<Longrightarrow> ref_author a \<in> members c \<and> ref_round a < ref_round r"
proof -
  have r: "vb_reference b = r" using assms by (rule view_reference)
  have "vb_ancestors b = [] \<or> block_ok c G (vb_block b)"
    using assms unfolding dag_view_def by metis
  then show "distinct (map ref_author (vb_ancestors b))"
    "\<And>a. a \<in> set (vb_ancestors b) \<Longrightarrow> ref_author a \<in> members c \<and> ref_round a < ref_round r"
    by (auto simp: block_ok_def ancestors_ok_def r [symmetric])
qed

lemma view_rounds_decrease: "dag_view c G gc B \<Longrightarrow> rounds_decrease B"
  using view_ancestors(2) by (auto simp: rounds_decrease_def)

lemma view_author: "dag_view c G gc B \<Longrightarrow> B r = Some b \<Longrightarrow> 0 < ref_round r \<Longrightarrow> ref_author r \<in> members c"
  using view_block_ok [of c G gc B r b] by (auto simp: block_ok_def)

lemma view_same_author:
  assumes "dag_view c G gc B" "B r = Some b" "x \<in> set (vb_ancestors b)" "y \<in> set (vb_ancestors b)"
    "ref_author x = ref_author y"
  shows "x = y"
  using view_ancestors(1) [OF assms(1,2)] assms(3-5) by (auto simp: distinct_map inj_on_def)

lemma view_parents:
  assumes "dag_view c G gc B" "B r = Some b" "0 < ref_round r"
  shows "is_quorum c {ref_author a |a. a \<in> set (vb_ancestors b) \<and> ref_round a + 1 = ref_round r}"
proof -
  have "block_ok c G (vb_block b)" and r: "vb_reference b = r" using view_block_ok [OF assms] by auto
  moreover have "parent_authors (vb_block b) =
      {ref_author a |a. a \<in> set (vb_ancestors b) \<and> ref_round a + 1 = ref_round r}"
    using r by (auto simp: parent_authors_def)
  ultimately show ?thesis by (simp add: block_ok_def ancestors_ok_def)
qed

section \<open>Votes, certificates, support and blame\<close>

definition votes_for :: "block_map \<Rightarrow> block_ref \<Rightarrow> block_ref \<Rightarrow> bool" where
  "votes_for B v l \<longleftrightarrow> ref_round v = ref_round l + 1 \<and> (\<exists>b. B v = Some b \<and> l \<in> set (vb_ancestors b))"

definition vote_authors :: "block_map \<Rightarrow> block_ref \<Rightarrow> verified_block \<Rightarrow> authority_index set" where
  "vote_authors B l b = {ref_author v |v. v \<in> set (vb_ancestors b) \<and> votes_for B v l}"

definition certifies :: "committee \<Rightarrow> block_map \<Rightarrow> block_ref \<Rightarrow> block_ref \<Rightarrow> bool" where
  "certifies c B x l \<longleftrightarrow> (\<exists>b. B x = Some b \<and> is_quorum c (vote_authors B l b))"

definition supported :: "committee \<Rightarrow> block_map \<Rightarrow> block_ref \<Rightarrow> bool" where
  "supported c B l \<longleftrightarrow> is_quorum c {ref_author x |x. ref_round x = ref_round l + 2 \<and> certifies c B x l}"

definition blamed :: "committee \<Rightarrow> block_map \<Rightarrow> slot \<Rightarrow> bool" where
  "blamed c B s \<longleftrightarrow> is_quorum c {ref_author v |v b. ref_round v = slot_round s + 1 \<and> B v = Some b \<and>
     (\<forall>a \<in> set (vb_ancestors b). ref_author a \<noteq> slot_authority s)}"

text \<open>A certified link from an anchor: a certificate of the decision round in its history.\<close>

definition certified_link :: "committee \<Rightarrow> block_map \<Rightarrow> block_ref \<Rightarrow> block_ref \<Rightarrow> bool" where
  "certified_link c B A l \<longleftrightarrow>
     (\<exists>x. causal B (ref_round l + 2) {A} x \<and> ref_round x = ref_round l + 2 \<and> certifies c B x l)"

section \<open>Outcomes of the rule\<close>

fun direct_outcome :: "committee \<Rightarrow> block_map \<Rightarrow> slot \<Rightarrow> leader_status \<Rightarrow> bool" where
  "direct_outcome c B s (Skip s') \<longleftrightarrow> s' = s \<and> blamed c B s"
| "direct_outcome c B s (Commit b) \<longleftrightarrow>
     \<not> blamed c B s \<and> B (vb_reference b) = Some b \<and> slot_of (vb_reference b) = s \<and> supported c B (vb_reference b)"
| "direct_outcome c B s (Undecided s') \<longleftrightarrow>
     s' = s \<and> \<not> blamed c B s \<and> (\<forall>l. B l \<noteq> None \<longrightarrow> slot_of l = s \<longrightarrow> \<not> supported c B l)"

fun anchor_outcome :: "committee \<Rightarrow> block_map \<Rightarrow> block_ref \<Rightarrow> slot \<Rightarrow> leader_status \<Rightarrow> bool" where
  "anchor_outcome c B A s (Skip s') \<longleftrightarrow>
     s' = s \<and> (\<forall>l. B l \<noteq> None \<longrightarrow> slot_of l = s \<longrightarrow> \<not> certified_link c B A l)"
| "anchor_outcome c B A s (Commit b) \<longleftrightarrow>
     B (vb_reference b) = Some b \<and> slot_of (vb_reference b) = s \<and> certified_link c B A (vb_reference b)"
| "anchor_outcome c B A s (Undecided s') \<longleftrightarrow> False"

text \<open>
  The decisions reachable by the rule. \<open>slots r\<close> lists the leader slots of a round in their order;
  \<open>slots_upto slots k h\<close> those of the rounds from \<open>k\<close> below \<open>h\<close>. The anchor of a slot is the first committed
  slot at least a wave above it, all slots between being skipped.
\<close>

definition slots_upto :: "(round \<Rightarrow> slot list) \<Rightarrow> round \<Rightarrow> round \<Rightarrow> slot list" where
  "slots_upto slots k h = concat (map slots [k..<h])"

inductive decides :: "committee \<Rightarrow> (round \<Rightarrow> slot list) \<Rightarrow> block_map \<Rightarrow> slot \<Rightarrow> leader_status \<Rightarrow> bool"
  for c slots B where
  direct: "direct_outcome c B s st \<Longrightarrow> is_decided st \<Longrightarrow> decides c slots B s st"
| indirect: "direct_outcome c B s (Undecided s) \<Longrightarrow> slots_upto slots (slot_round s + 3) h = pre @ a # post \<Longrightarrow>
     (\<And>p. p \<in> set pre \<Longrightarrow> decides c slots B p (Skip p)) \<Longrightarrow> decides c slots B a (Commit anchor) \<Longrightarrow>
     slot_round s + 3 \<le> slot_round a \<Longrightarrow> anchor_outcome c B (vb_reference anchor) s st \<Longrightarrow> decides c slots B s st"

inductive_cases decidesE: "decides c slots B s st"

lemma decides_commit_block:
  "decides c slots B s (Commit b) \<Longrightarrow> B (vb_reference b) = Some b \<and> slot_of (vb_reference b) = s"
  by (erule decidesE) auto

lemma slots_upto_Nil [simp]: "h \<le> k \<Longrightarrow> slots_upto slots k h = []"
  by (simp add: slots_upto_def)

lemma slots_upto_append: "k \<le> m \<Longrightarrow> m \<le> h \<Longrightarrow> slots_upto slots k h = slots_upto slots k m @ slots_upto slots m h"
  by (simp add: slots_upto_def flip: concat_append map_append) (metis le_Suc_ex upt_add_eq_append)

lemma slots_upto_first: "k < h \<Longrightarrow> slots_upto slots k h = slots k @ slots_upto slots (Suc k) h"
  by (simp add: slots_upto_def upt_conv_Cons)

text \<open>Two runs over the same sequence: the earlier anchor lies among the slots before the later one.\<close>

lemma slots_upto_compare:
  assumes "slots_upto slots k h = pre @ a # post" and "slots_upto slots k h' = pre' @ a' # post'"
  shows "a \<in> set pre' \<or> a' \<in> set pre \<or> a = a'"
proof -
  have "\<exists>zs. slots_upto slots k (max h h') = pre @ a # zs"
    using assms(1) slots_upto_append [of k h "max h h'" slots] by (cases "k \<le> h") auto
  moreover have "\<exists>zs. slots_upto slots k (max h h') = pre' @ a' # zs"
    using assms(2) slots_upto_append [of k h' "max h h'" slots] by (cases "k \<le> h'") auto
  ultimately obtain zs zs' where "pre @ a # zs = pre' @ a' # zs'" by metis
  then show ?thesis
    by (auto simp: append_eq_append_conv2 append_eq_Cons_conv Cons_eq_append_conv)
qed

section \<open>Safety\<close>

definition safe_views ::
  "committee \<Rightarrow> block_ref fset \<Rightarrow> authority_index set \<Rightarrow> round \<Rightarrow> block_map \<Rightarrow> round \<Rightarrow> block_map \<Rightarrow> bool" where
  "safe_views c G F gc1 B1 gc2 B2 \<longleftrightarrow>
     committee_wf c \<and> F \<subseteq> members c \<and> below_validity c F \<and> dag_view c G gc1 B1 \<and> dag_view c G gc2 B2 \<and>
     (\<forall>r b b'. B1 r = Some b \<longrightarrow> B2 r = Some b' \<longrightarrow> b = b') \<and>
     (\<forall>r s. B1 r \<noteq> None \<or> B2 r \<noteq> None \<longrightarrow> B1 s \<noteq> None \<or> B2 s \<noteq> None \<longrightarrow> slot_of r = slot_of s \<longrightarrow>
        ref_author r \<notin> F \<longrightarrow> r = s)"

lemma safe_views_sym: "safe_views c G F gc1 B1 gc2 B2 \<Longrightarrow> safe_views c G F gc2 B2 gc1 B1"
  unfolding safe_views_def by metis

lemma safe_view_self:
  "committee_wf c \<Longrightarrow> F \<subseteq> members c \<Longrightarrow> below_validity c F \<Longrightarrow> dag_view c G gc B \<Longrightarrow> no_equivocation F B \<Longrightarrow>
     safe_views c G F gc B gc B"
  unfolding safe_views_def no_equivocation_def by auto

lemma safe_viewsD:
  assumes "safe_views c G F gc1 B1 gc2 B2"
  shows "committee_wf c" "dag_view c G gc1 B1" "dag_view c G gc2 B2"
    and "B1 r = Some b \<Longrightarrow> B2 r = Some b' \<Longrightarrow> b = b'"
    and "B1 r = Some b \<Longrightarrow> B2 s = Some b' \<Longrightarrow> slot_of r = slot_of s \<Longrightarrow> ref_author r \<notin> F \<Longrightarrow> r = s \<and> b = b'"
  using assms unfolding safe_views_def by (blast, blast, blast, blast, metis option.discI)

text \<open>Quorums of authors in the two views share an author outside the faulty set.\<close>

lemma common_author:
  assumes safe: "safe_views c G F gc1 B1 gc2 B2"
    and q: "is_quorum c {ref_author x |x. P x}" "is_quorum c {ref_author y |y. Q y}"
    and m: "\<And>x. P x \<Longrightarrow> ref_author x \<in> members c" "\<And>y. Q y \<Longrightarrow> ref_author y \<in> members c"
  shows "\<exists>x y. P x \<and> Q y \<and> ref_author x = ref_author y \<and> ref_author x \<notin> F"
proof -
  have "committee_wf c" "F \<subseteq> members c" "below_validity c F" using safe by (auto simp: safe_views_def)
  from cq.quorum_meets [OF this(1) _ _ this(2) q this(3)] m show ?thesis by blast
qed

lemma vote_author_member:
  "dag_view c G gc B \<Longrightarrow> B x = Some b \<Longrightarrow> v \<in> set (vb_ancestors b) \<Longrightarrow> ref_author v \<in> members c"
  using view_ancestors(2) by blast

text \<open>Two certified leaders of one slot are the same block.\<close>

lemma certified_unique:
  assumes safe: "safe_views c G F gc1 B1 gc2 B2"
    and c1: "certifies c B1 x l" and c2: "certifies c B2 y l'" and slot: "slot_of l = slot_of l'"
  shows "l = l'"
proof -
  note d = safe_viewsD [OF safe]
  obtain b where b: "B1 x = Some b" "is_quorum c (vote_authors B1 l b)" using c1 by (auto simp: certifies_def)
  obtain b' where b': "B2 y = Some b'" "is_quorum c (vote_authors B2 l' b')" using c2 by (auto simp: certifies_def)
  obtain v v' where v: "votes_for B1 v l" "votes_for B2 v' l'" "ref_author v = ref_author v'" "ref_author v \<notin> F"
    using common_author [OF safe b(2) [unfolded vote_authors_def] b'(2) [unfolded vote_authors_def]]
      vote_author_member [OF d(2) b(1)] vote_author_member [OF d(3) b'(1)] by blast
  from v slot have "slot_of v = slot_of v'" by (simp add: votes_for_def slot_of_def)
  with v d(5) obtain e where "B1 v = Some e" "l \<in> set (vb_ancestors e)" "l' \<in> set (vb_ancestors e)"
    unfolding votes_for_def by metis
  then show ?thesis using view_same_author [OF d(2)] slot by (metis slot_of_sel(2))
qed

text \<open>A blamed slot has no certified leader, in any view.\<close>

lemma blamed_not_certified:
  assumes safe: "safe_views c G F gc1 B1 gc2 B2" and bl: "blamed c B1 s" and cert: "certifies c B2 y l"
    and slot: "slot_of l = s"
  shows False
proof -
  note d = safe_viewsD [OF safe]
  let ?P = "\<lambda>v. \<exists>b. ref_round v = slot_round s + 1 \<and> B1 v = Some b \<and> (\<forall>a \<in> set (vb_ancestors b). ref_author a \<noteq> slot_authority s)"
  obtain b where b: "B2 y = Some b" "is_quorum c (vote_authors B2 l b)" using cert by (auto simp: certifies_def)
  have "{ref_author v |v b. ref_round v = slot_round s + 1 \<and> B1 v = Some b \<and>
      (\<forall>a \<in> set (vb_ancestors b). ref_author a \<noteq> slot_authority s)} = {ref_author v |v. ?P v}" by blast
  then have q: "is_quorum c {ref_author v |v. ?P v}" using bl by (simp add: blamed_def)
  have m: "ref_author v \<in> members c" if "?P v" for v using that view_author [OF d(2)] by (metis add_gr_0 zero_less_one)
  obtain v v' where v: "?P v" "votes_for B2 v' l" "ref_author v = ref_author v'" "ref_author v \<notin> F"
    using common_author [OF safe q b(2) [unfolded vote_authors_def] m] vote_author_member [OF d(3) b(1)] by blast
  from v slot have "slot_of v = slot_of v'" by (auto simp: votes_for_def slot_of_def)
  with v d(5) obtain e where "l \<in> set (vb_ancestors e)" "\<forall>a \<in> set (vb_ancestors e). ref_author a \<noteq> slot_authority s"
    unfolding votes_for_def by metis
  then show False using slot by (metis slot_of_sel(2))
qed

text \<open>The history of a block reaches a quorum of every lower round of the view.\<close>

lemma history_quorum:
  assumes wf: "committee_wf c" and view: "dag_view c G gc B" and e: "gc < e"
    and A: "B A \<noteq> None" "e < ref_round A"
  shows "is_quorum c {ref_author x |x. causal B e {A} x \<and> ref_round x = e \<and> B x \<noteq> None}"
  using A
proof (induction "ref_round A" arbitrary: A rule: less_induct)
  case less
  let ?H = "\<lambda>A. {ref_author x |x. causal B e {A} x \<and> ref_round x = e \<and> B x \<noteq> None}"
  obtain b where b: "B A = Some b" using less.prems(1) by auto
  let ?P = "{ref_author a |a. a \<in> set (vb_ancestors b) \<and> ref_round a + 1 = ref_round A}"
  have q: "is_quorum c ?P" using view_parents [OF view b] less.prems(2) by simp
  have comp: "B a \<noteq> None" if "a \<in> set (vb_ancestors b)" "e \<le> ref_round a" for a
    using complete_aboveD [of gc B A b a] view b e less.prems(2) that by (auto simp: dag_view_def)
  have step: "causal B e {A} a" if "a \<in> set (vb_ancestors b)" for a
    using that b less.prems(2) by (auto intro: causal.intros)
  have sub: "?H A \<subseteq> members c" using view_author [OF view] e by fastforce
  show ?case
  proof (cases "ref_round A = e + 1")
    case True
    then have "?P \<subseteq> ?H A" using comp step by auto
    then show ?thesis using cq.quorum_up [OF wf q _ sub] by simp
  next
    case False
    have "?P \<noteq> {}" using cq.quorum_nonempty [OF wf _ q] view_ancestors(2) [OF view b] by blast
    then obtain p where p: "p \<in> set (vb_ancestors b)" "ref_round p + 1 = ref_round A" by blast
    with False less.prems(2) have "e < ref_round p" by linarith
    with p less.hyps [of p] comp have "is_quorum c (?H p)" by auto
    moreover have "?H p \<subseteq> ?H A" using causal_trans [of B e "{p}" _ "{A}"] step [OF p(1)] by blast
    ultimately show ?thesis using cq.quorum_up [OF wf _ _ sub] by blast
  qed
qed

text \<open>A certificate in one view is one in every view that holds its block above garbage collection.\<close>

lemma certifies_transfer:
  assumes safe: "safe_views c G F gc1 B1 gc2 B2" and cert: "certifies c B1 x l" and x: "B2 x \<noteq> None"
    "ref_round x = ref_round l + 2" and gc: "gc2 < ref_round l"
  shows "certifies c B2 x l" and "B2 l \<noteq> None"
proof -
  note d = safe_viewsD [OF safe]
  obtain b where b: "B1 x = Some b" "is_quorum c (vote_authors B1 l b)" using cert by (auto simp: certifies_def)
  then have b2: "B2 x = Some b" using d(4) x(1) by auto
  have vote: "votes_for B2 v l" if "v \<in> set (vb_ancestors b)" "votes_for B1 v l" for v
  proof -
    have "B2 v \<noteq> None"
      using complete_aboveD [of gc2 B2 x b v] d(3) b2 that x(2) gc by (auto simp: dag_view_def votes_for_def)
    then show ?thesis using that d(4) unfolding votes_for_def by fastforce
  qed
  then have "vote_authors B1 l b \<subseteq> vote_authors B2 l b" by (auto simp: vote_authors_def)
  moreover have "vote_authors B2 l b \<subseteq> members c"
    using vote_author_member [OF d(3) b2] by (auto simp: vote_authors_def)
  ultimately show "certifies c B2 x l" using b(2) b2 cq.quorum_up [OF d(1)] unfolding certifies_def by blast
  have "vote_authors B1 l b \<noteq> {}"
    using cq.quorum_nonempty [OF d(1) _ b(2)] vote_author_member [OF d(2) b(1)] unfolding vote_authors_def by blast
  then obtain v where "votes_for B2 v l" using vote by (auto simp: vote_authors_def)
  then obtain e where "B2 v = Some e" "l \<in> set (vb_ancestors e)" "ref_round v = ref_round l + 1"
    by (auto simp: votes_for_def)
  then show "B2 l \<noteq> None" using complete_aboveD [of gc2 B2 v e l] d(3) gc by (auto simp: dag_view_def)
qed

text \<open>A leader supported in one view has a certified link from every later block of every view.\<close>

lemma supported_linked:
  assumes safe: "safe_views c G F gc1 B1 gc2 B2" and sup: "supported c B1 l" and gc: "gc2 < ref_round l"
    and A: "B2 A \<noteq> None" "ref_round l + 3 \<le> ref_round A"
  shows "certified_link c B2 A l" and "B2 l \<noteq> None"
proof -
  note d = safe_viewsD [OF safe]
  let ?e = "ref_round l + 2"
  have h: "is_quorum c {ref_author x |x. causal B2 ?e {A} x \<and> ref_round x = ?e \<and> B2 x \<noteq> None}"
    by (rule history_quorum [OF d(1,3)]) (use gc A in auto)
  have m1: "ref_author x \<in> members c" if "ref_round x = ?e \<and> certifies c B1 x l" for x
    using that view_author [OF d(2)] unfolding certifies_def by (metis add_gr_0 zero_less_numeral)
  have m2: "ref_author x \<in> members c" if "causal B2 ?e {A} x \<and> ref_round x = ?e \<and> B2 x \<noteq> None" for x
    using that view_author [OF d(3)] by (metis add_gr_0 not_Some_eq zero_less_numeral)
  obtain x y where xy: "ref_round x = ?e" "certifies c B1 x l" "causal B2 ?e {A} y" "ref_round y = ?e" "B2 y \<noteq> None"
    "ref_author x = ref_author y" "ref_author x \<notin> F"
    using common_author [OF safe sup [unfolded supported_def] h m1 m2] by blast
  have "x = y"
    using d(5) [of x _ y] xy unfolding certifies_def by (metis not_Some_eq slot_of_def)
  then show "certified_link c B2 A l" "B2 l \<noteq> None"
    using certifies_transfer [OF safe xy(2)] xy gc by (auto simp: certified_link_def)
qed

text \<open>A history above both garbage collection rounds is the same in both views.\<close>

lemma causal_transfer:
  assumes safe: "safe_views c G F gc1 B1 gc2 B2" and e: "gc2 < e" and A: "B2 A \<noteq> None"
    and x: "causal B1 e {A} x"
  shows "causal B2 e {A} x \<and> (e \<le> ref_round x \<longrightarrow> B2 x \<noteq> None)"
  using x
proof (induction rule: causal.induct)
  case (root r)
  then show ?case using A by (auto intro: causal.root)
next
  case (step r b a)
  then obtain b' where "B2 r = Some b'" by auto
  with step safe_viewsD(4) [OF safe] have b: "B2 r = Some b" by blast
  then have "causal B2 e {A} a" using step by (auto intro: causal.step)
  moreover have "B2 a \<noteq> None" if "e \<le> ref_round a"
    using complete_aboveD [of gc2 B2 r b a] safe_viewsD(3) [OF safe] b step e that by (auto simp: dag_view_def)
  ultimately show ?case by blast
qed

lemma certified_link_transfer:
  assumes safe: "safe_views c G F gc1 B1 gc2 B2" and gc: "gc2 < ref_round l" and A: "B2 A \<noteq> None"
    and link: "certified_link c B1 A l"
  shows "certified_link c B2 A l" and "B2 l \<noteq> None"
proof -
  obtain x where x: "causal B1 (ref_round l + 2) {A} x" "ref_round x = ref_round l + 2" "certifies c B1 x l"
    using link by (auto simp: certified_link_def)
  have "causal B2 (ref_round l + 2) {A} x \<and> B2 x \<noteq> None"
    using causal_transfer [OF safe _ A x(1)] gc x(2) by auto
  then show "certified_link c B2 A l" "B2 l \<noteq> None"
    using certifies_transfer [OF safe x(3) _ x(2) gc] x(2) by (auto simp: certified_link_def)
qed

section \<open>Agreement\<close>

lemma supported_certified:
  assumes wf: "committee_wf c" and view: "dag_view c G gc B" and sup: "supported c B l"
  shows "\<exists>x. certifies c B x l"
proof -
  have "{ref_author x |x. ref_round x = ref_round l + 2 \<and> certifies c B x l} \<subseteq> members c"
    using view_author [OF view] unfolding certifies_def by fastforce
  then show ?thesis using cq.quorum_nonempty [OF wf _ sup [unfolded supported_def]] by blast
qed

lemma decides_commit_certified:
  assumes "committee_wf c" "dag_view c G gc B" "decides c slots B s (Commit b)"
  shows "\<exists>x. certifies c B x (vb_reference b)"
  using assms(3)
  by (rule decidesE) (use supported_certified [OF assms(1,2)] in \<open>auto simp: certified_link_def\<close>)

lemma decides_decided: "decides c slots B s st \<Longrightarrow> st = Skip s \<or> (\<exists>b. st = Commit b)"
  by (erule decidesE; cases st) auto

lemma commits_agree:
  assumes safe: "safe_views c G F gc1 B1 gc2 B2" and d1: "decides c slots B1 s (Commit b)"
    and d2: "decides c slots B2 s (Commit b')"
  shows "b = b'"
proof -
  note d = safe_viewsD [OF safe]
  have "vb_reference b = vb_reference b'"
    using certified_unique [OF safe] decides_commit_certified [OF d(1,2) d1] decides_commit_certified [OF d(1,3) d2]
      decides_commit_block [OF d1] decides_commit_block [OF d2] by metis
  then show ?thesis using decides_commit_block [OF d1] decides_commit_block [OF d2] d(4) by metis
qed

text \<open>A direct decision of one view is the only decision possible in the other.\<close>

lemma direct_skip_agrees:
  assumes safe: "safe_views c G F gc1 B1 gc2 B2" and dir: "blamed c B1 s" and d2: "decides c slots B2 s st"
  shows "st = Skip s"
proof (rule ccontr)
  assume "st \<noteq> Skip s"
  then obtain b where "decides c slots B2 s (Commit b)" using decides_decided [OF d2] d2 by blast
  then show False
    using blamed_not_certified [OF safe dir] decides_commit_certified [OF safe_viewsD(1) [OF safe] safe_viewsD(3) [OF safe]]
      decides_commit_block by blast
qed

lemma direct_commit_agrees:
  assumes safe: "safe_views c G F gc1 B1 gc2 B2" and gc: "gc2 < slot_round s"
    and dir: "direct_outcome c B1 s (Commit b)" and d2: "decides c slots B2 s st"
  shows "st = Commit b"
proof -
  note d = safe_viewsD [OF safe]
  let ?l = "vb_reference b"
  have l: "supported c B1 ?l" "slot_of ?l = s" "ref_round ?l = slot_round s" using dir by auto
  have d1: "decides c slots B1 s (Commit b)" using dir by (auto intro: decides.direct)
  have "st \<noteq> Skip s"
  proof
    assume st: "st = Skip s"
    from d2 [unfolded st] show False
    proof (rule decidesE)
      assume "direct_outcome c B2 s (Skip s)"
      then show False using blamed_not_certified [OF safe_views_sym [OF safe]] supported_certified [OF d(1,2) l(1)] l(2) by auto
    next
      fix h pre a post anchor
      assume a: "decides c slots B2 a (Commit anchor)" "slot_round s + 3 \<le> slot_round a"
        "anchor_outcome c B2 (vb_reference anchor) s (Skip s)"
      have A: "B2 (vb_reference anchor) \<noteq> None" "slot_round s + 3 \<le> ref_round (vb_reference anchor)"
        using decides_commit_block [OF a(1)] a(2) by auto
      show False
        using supported_linked [OF safe l(1) _ A(1)] A(2) l a(3) gc by auto
    qed
  qed
  then obtain b' where "st = Commit b'" using decides_decided [OF d2] by blast
  then show ?thesis using commits_agree [OF safe d1] d2 by blast
qed

lemma direct_agrees:
  assumes "safe_views c G F gc1 B1 gc2 B2" "gc2 < slot_round s" "direct_outcome c B1 s st1" "is_decided st1"
    "decides c slots B2 s st2"
  shows "st1 = st2"
  using assms direct_skip_agrees direct_commit_agrees by (cases st1) auto

text \<open>With the same anchor the indirect rule gives the same outcome in both views.\<close>

lemma anchor_agrees:
  assumes safe: "safe_views c G F gc1 B1 gc2 B2" and gc: "gc1 < slot_round s" "gc2 < slot_round s"
    and A: "B1 A \<noteq> None" "B2 A \<noteq> None" and o1: "anchor_outcome c B1 A s st1" and o2: "anchor_outcome c B2 A s st2"
  shows "st1 = st2"
proof -
  note d = safe_viewsD [OF safe]
  have to2: "certified_link c B2 A l \<and> B2 l \<noteq> None" if "certified_link c B1 A l" "slot_of l = s" for l
    using certified_link_transfer [OF safe _ A(2) that(1)] gc(2) that(2) by auto
  have to1: "certified_link c B1 A l \<and> B1 l \<noteq> None" if "certified_link c B2 A l" "slot_of l = s" for l
    using certified_link_transfer [OF safe_views_sym [OF safe] _ A(1) that(1)] gc(1) that(2) by auto
  show ?thesis
  proof (cases st1)
    case (Commit b)
    with o1 to2 obtain b' where b': "st2 = Commit b'" using o2 by (cases st2) auto
    have "vb_reference b = vb_reference b'"
      using certified_unique [OF safe] o1 o2 Commit b' by (auto simp: certified_link_def)
    then show ?thesis using o1 o2 Commit b' d(4) by auto
  next
    case (Skip x)
    then show ?thesis using o1 o2 to1 by (cases st2) auto
  qed (use o1 in auto)
qed

lemma slots_upto_round:
  assumes "\<And>r s. s \<in> set (slots r) \<Longrightarrow> slot_round s = r" and "s \<in> set (slots_upto slots k h)"
  shows "k \<le> slot_round s \<and> slot_round s < h"
  using assms by (auto simp: slots_upto_def)

lemma decides_agree:
  assumes safe: "safe_views c G F gc1 B1 gc2 B2"
    and slots: "\<And>r s. s \<in> set (slots r) \<Longrightarrow> slot_round s = r"
    and d1: "decides c slots B1 s st1" and d2: "decides c slots B2 s st2"
    and gc: "gc1 < slot_round s" "gc2 < slot_round s"
  shows "st1 = st2"
  using d1 d2 gc
proof (induction arbitrary: st2 rule: decides.induct)
  case (direct s st)
  then show ?case using direct_agrees [OF safe] by blast
next
  case (indirect s h pre a post anchor st)
  from indirect.prems(1) show ?case
  proof (cases rule: decides.cases)
    case direct
    then show ?thesis
      using direct_agrees [OF safe_views_sym [OF safe] indirect.prems(2) direct
          decides.indirect [OF indirect.hyps(1-6)]] by blast
  next
    case i2: (indirect h' pre' a' post' anchor')
    have up: "slot_round s + 3 \<le> slot_round x" if "x \<in> set pre" for x
      using slots_upto_round [OF slots, where s = x and k = "slot_round s + 3" and h = h] indirect.hyps(2) that by auto
    have "a \<in> set pre' \<or> a' \<in> set pre \<or> a = a'"
      using slots_upto_compare [OF indirect.hyps(2) i2(2)] .
    moreover have "a \<notin> set pre'"
      using indirect.IH(2) [OF i2(3) [of a]] indirect.prems indirect.hyps(5) by auto
    moreover have "a' \<notin> set pre"
      using indirect.IH(1) [OF _ i2(4)] up [of a'] indirect.prems by auto
    ultimately have "a = a'" by blast
    then have "anchor = anchor'" using indirect.IH(2) [of "Commit anchor'"] i2(4) indirect.prems indirect.hyps(5) by auto
    moreover have "B1 (vb_reference anchor) \<noteq> None" "B2 (vb_reference anchor') \<noteq> None"
      using decides_commit_block [OF indirect.hyps(4)] decides_commit_block [OF i2(4)] by auto
    ultimately show ?thesis
      using anchor_agrees [OF safe indirect.prems(2,3)] indirect.hyps(6) i2(6) by metis
  qed
qed

end
