(* ===== verification/Dag_View.thy ===== *)
theory Dag_View
  imports Dag_Traversal Commit_Rule
begin

text \<open>
  A DAG state as a view of the DAG. \<open>view_ok\<close> is the state the committers work on: the invariant
  of \<open>DagState\<close>, all blocks above the garbage collection round cached, and blocks that were verified
  and accepted after their ancestors; the number of cached blocks is within what a \<open>u64\<close> sum of
  their stakes allows. The reads of the committers are computed here in terms of the
  block map \<open>ds_blocks\<close>.
\<close>

definition memory_inv :: "consensus_context \<Rightarrow> dag_state \<Rightarrow> bool" where
  "memory_inv ctx ds \<longleftrightarrow>
     (\<forall>r b. ms_blocks_of (ds_store ds) r = Some b \<longrightarrow> gc_round ctx ds < ref_round r \<longrightarrow>
        fmlookup (ds_recent_blocks ds) r \<noteq> None)"

definition view_ok :: "consensus_context \<Rightarrow> block_ref fset \<Rightarrow> dag_state \<Rightarrow> bool" where
  "view_ok ctx G ds \<longleftrightarrow>
     ds_inv ctx ds \<and> memory_inv ctx ds \<and> ds_highest_accepted_round ds < u32_max \<and>
     fcard (fmdom (ds_recent_blocks ds)) * com_total_stake (ctx_committee ctx) \<le> u64_max \<and>
     dag_view (ctx_committee ctx) G (gc_round ctx ds) (ds_blocks ds)"

lemma view_okD:
  assumes "view_ok ctx G ds"
  shows "ds_inv ctx ds" "memory_inv ctx ds" "dag_view (ctx_committee ctx) G (gc_round ctx ds) (ds_blocks ds)"
    "committee_wf (ctx_committee ctx)" "ds_highest_accepted_round ds < u32_max"
    "fcard (fmdom (ds_recent_blocks ds)) * com_total_stake (ctx_committee ctx) \<le> u64_max"
  using assms by (auto simp: view_ok_def ds_inv_def clock_ok_def)

lemma gc_round_le: "gc_round ctx ds \<le> last_commit_round ds"
  by (simp add: gc_round_def calculate_gc_round_def)

lemma cached_above_gc:
  assumes inv: "memory_inv ctx ds" and r: "gc_round ctx ds < ref_round r"
  shows "ds_blocks ds r = map_option bi_block (fmlookup (ds_recent_blocks ds) r)"
  using inv r by (auto simp: memory_inv_def ds_blocks_def GENESIS_ROUND_def split: option.splits)

lemma map_range_blocks:
  "map (bi_block \<circ> snd) (btree_map_range P m) = map (\<lambda>k. bi_block (the (fmlookup m k))) (btree_range P (fmdom m))"
  by (simp add: btree_map_range_def)

lemma btree_range_length: "length (btree_range P s) \<le> fcard s"
proof -
  have "length (btree_range P s) = card (set (btree_range P s))" by (simp add: distinct_card del: btree_range_set)
  also have "\<dots> \<le> card (fset s)" by (rule card_mono) auto
  finally show ?thesis by (simp add: fcard.rep_eq)
qed

text \<open>The blocks of a range of references above the garbage collection round.\<close>

lemma recent_range:
  assumes inv: "memory_inv ctx ds" and P: "\<And>r. P r \<Longrightarrow> gc_round ctx ds < ref_round r"
  defines "bs \<equiv> map (bi_block \<circ> snd) (btree_map_range P (ds_recent_blocks ds))"
  shows "set bs = {b. \<exists>r. P r \<and> ds_blocks ds r = Some b}"
    and "\<exists>rs. distinct rs \<and> bs = map (\<lambda>r. the (ds_blocks ds r)) rs \<and> (\<forall>r \<in> set rs. ds_blocks ds r \<noteq> None)"
proof -
  let ?rs = "btree_range P (fmdom (ds_recent_blocks ds))"
  have look: "ds_blocks ds r = Some (bi_block (the (fmlookup (ds_recent_blocks ds) r)))" if "r \<in> set ?rs" for r
    using that cached_above_gc [OF inv P] by (auto simp: fmdom_iff)
  then have eq: "bs = map (\<lambda>r. the (ds_blocks ds r)) ?rs"
    unfolding bs_def map_range_blocks by (intro map_cong) auto
  show "\<exists>rs. distinct rs \<and> bs = map (\<lambda>r. the (ds_blocks ds r)) rs \<and> (\<forall>r \<in> set rs. ds_blocks ds r \<noteq> None)"
    using eq look by (intro exI [of _ ?rs]) auto
  have "r \<in> set ?rs \<longleftrightarrow> P r \<and> ds_blocks ds r \<noteq> None" for r
    using cached_above_gc [OF inv P, of r] by (cases "fmlookup (ds_recent_blocks ds) r") (auto simp: fmdom_iff)
  then show "set bs = {b. \<exists>r. P r \<and> ds_blocks ds r = Some b}" unfolding eq by force
qed

lemma slot_range:
  "BlockRef (slot_round s) (slot_authority s) digest_min \<le> k \<and> k \<le> BlockRef (slot_round s) (slot_authority s) digest_max
     \<longleftrightarrow> slot_of k = s"
  by (cases k) (auto simp: block_ref_order slot_of_eq_iff word_order.extremum)

lemma blocks_at_slot:
  assumes view: "view_ok ctx G ds" and s: "gc_round ctx ds < slot_round s"
  shows "b \<in> set (get_uncommitted_blocks_at_slot ds s) \<longleftrightarrow> slot_of (vb_reference b) = s \<and> ds_blocks ds (vb_reference b) = Some b"
    and "distinct (map vb_reference (get_uncommitted_blocks_at_slot ds s))"
proof -
  note r = recent_range [OF view_okD(2) [OF view], of "\<lambda>k. slot_of k = s"]
  have P: "\<And>r. slot_of r = s \<Longrightarrow> gc_round ctx ds < ref_round r" using s by auto
  note ref = ds_blocks_ref [OF view_okD(1) [OF view]]
  have eq: "get_uncommitted_blocks_at_slot ds s = map (bi_block \<circ> snd) (btree_map_range (\<lambda>k. slot_of k = s) (ds_recent_blocks ds))"
    by (simp add: get_uncommitted_blocks_at_slot_def slot_range)
  have "set (get_uncommitted_blocks_at_slot ds s) = {b. \<exists>r. slot_of r = s \<and> ds_blocks ds r = Some b}"
    unfolding eq by (rule r(1) [OF P])
  then show "b \<in> set (get_uncommitted_blocks_at_slot ds s) \<longleftrightarrow> slot_of (vb_reference b) = s \<and> ds_blocks ds (vb_reference b) = Some b"
    using ref by auto
  obtain rs where "distinct rs" "\<forall>r \<in> set rs. ds_blocks ds r \<noteq> None"
    "get_uncommitted_blocks_at_slot ds s = map (\<lambda>r. the (ds_blocks ds r)) rs"
    using r(2) [OF P] unfolding eq by blast
  then show "distinct (map vb_reference (get_uncommitted_blocks_at_slot ds s))"
    using map_reference_lookup [of "ds_blocks ds" rs] ref by (simp add: refs_match_def)
qed

lemma blocks_at_round:
  assumes view: "view_ok ctx G ds" and r: "last_commit_round ds < r" "r < u32_max"
  shows "\<exists>bs. get_uncommitted_blocks_at_round ds r = Some bs \<and>
     (\<forall>b. b \<in> set bs \<longleftrightarrow> ref_round (vb_reference b) = r \<and> ds_blocks ds (vb_reference b) = Some b) \<and>
     distinct (map vb_reference bs) \<and> length bs \<le> fcard (fmdom (ds_recent_blocks ds))"
proof -
  have eq: "BlockRef r 0 digest_min \<le> k \<and> k < BlockRef (add_u32 r 1) 0 digest_min \<longleftrightarrow> ref_round k = r" for k
    using r(2) by (cases k) (auto simp: block_ref_order)
  have le: "BlockRef r 0 digest_min \<le> BlockRef (add_u32 r 1) 0 digest_min"
    using r(2) by (simp add: block_ref_order)
  have P: "\<And>k. ref_round k = r \<Longrightarrow> gc_round ctx ds < ref_round k" using r(1) gc_round_le [of ctx ds] by auto
  note rr = recent_range [OF view_okD(2) [OF view], of "\<lambda>k. ref_round k = r", OF P]
  note ref = ds_blocks_ref [OF view_okD(1) [OF view]]
  let ?bs = "map (bi_block \<circ> snd) (btree_map_range (\<lambda>k. ref_round k = r) (ds_recent_blocks ds))"
  have "get_uncommitted_blocks_at_round ds r = Some ?bs"
    using r(1) le unfolding get_uncommitted_blocks_at_round_def Let_def eq by simp
  moreover have "set ?bs = {b. \<exists>k. ref_round k = r \<and> ds_blocks ds k = Some b}" by (rule rr(1))
  then have "b \<in> set ?bs \<longleftrightarrow> ref_round (vb_reference b) = r \<and> ds_blocks ds (vb_reference b) = Some b" for b
    by (simp only: mem_Collect_eq) (use ref in blast)
  moreover obtain rs where "distinct rs" "\<forall>r \<in> set rs. ds_blocks ds r \<noteq> None" "?bs = map (\<lambda>r. the (ds_blocks ds r)) rs"
    using rr(2) by blast
  then have "distinct (map vb_reference ?bs)"
    using map_reference_lookup [of "ds_blocks ds" rs] ref by (simp add: refs_match_def)
  moreover have "length ?bs \<le> fcard (fmdom (ds_recent_blocks ds))"
    using btree_range_length [of "\<lambda>k. ref_round k = r" "fmdom (ds_recent_blocks ds)"] by (simp add: btree_map_range_def)
  ultimately show ?thesis by blast
qed

text \<open>The blocks of a round in the history of a block.\<close>

lemma ancestors_at_round_view:
  assumes view: "view_ok ctx G ds" and e: "gc_round ctx ds < e" and A: "ds_blocks ds A = Some b" "e < ref_round A"
  shows "\<exists>bs. ancestors_at_round ds b e = Some bs \<and>
     (\<forall>x. x \<in> set bs \<longleftrightarrow> ds_blocks ds (vb_reference x) = Some x \<and> ref_round (vb_reference x) = e \<and>
        causal (ds_blocks ds) e {A} (vb_reference x))"
proof -
  let ?B = "ds_blocks ds"
  note d = view_okD [OF view]
  have hist: "causal ?B e {A} x \<longleftrightarrow> x = A \<or> causal ?B e (set (vb_ancestors b)) x" for x
    using causal_expand [where B = ?B and r = A and b = b and e = e and S = "{A}"] A by simp
  have present: "?B r \<noteq> None" if "causal ?B e (set (vb_ancestors b)) r" "e \<le> ref_round r" for r
  proof -
    have "causal ?B e {A} r" using that hist by blast
    then show ?thesis using that(2)
    proof (induction rule: causal.induct)
      case (step x y a)
      then show ?case using complete_aboveD [of "gc_round ctx ds" ?B x y a] d(3) e by (auto simp: dag_view_def)
    qed (use A in auto)
  qed
  obtain bs where bs: "ancestors_at_round ds b e = Some bs"
    "\<forall>x. x \<in> set (map vb_reference bs) \<longleftrightarrow> causal ?B e (set (vb_ancestors b)) x \<and> ref_round x = e"
    "\<forall>x \<in> set bs. ?B (vb_reference x) = Some x"
    using ancestors_at_round_spec [OF d(1) view_rounds_decrease [OF d(3)], of e b] present by blast
  have "x \<in> set bs \<longleftrightarrow> ?B (vb_reference x) = Some x \<and> ref_round (vb_reference x) = e \<and> causal ?B e {A} (vb_reference x)" for x
  proof
    assume "x \<in> set bs"
    then show "?B (vb_reference x) = Some x \<and> ref_round (vb_reference x) = e \<and> causal ?B e {A} (vb_reference x)"
      using bs(2,3) hist by (metis image_eqI list.set_map)
  next
    assume x: "?B (vb_reference x) = Some x \<and> ref_round (vb_reference x) = e \<and> causal ?B e {A} (vb_reference x)"
    then have "vb_reference x \<in> set (map vb_reference bs)" using bs(2) hist A(2) by (metis less_irrefl)
    then obtain y where "y \<in> set bs" "vb_reference y = vb_reference x" by auto
    then show "x \<in> set bs" using x bs(3) by (metis option.inject)
  qed
  then show ?thesis using bs(1) by blast
qed

end
