(* ===== verification/Dag_Steps.thy ===== *)
theory Dag_Steps
  imports Dag_View
begin

text \<open>
  The life of a DAG state: it starts empty over an empty store and evolves by the operations of
  \<open>DagState\<close> in any order. Blocks are accepted after verification and after their ancestors, and
  commits have leaders of non-decreasing rounds, which is what the block manager and the committer
  guarantee. Every reachable state satisfies the invariant the committers need.
\<close>

section \<open>Steps\<close>

definition ready :: "consensus_context \<Rightarrow> dag_state \<Rightarrow> verified_block \<Rightarrow> bool" where
  "ready ctx ds b \<longleftrightarrow>
     block_ok (ctx_committee ctx) (fmdom (ds_genesis ds)) (vb_block b) \<and> vb_round b < u32_max \<and>
     (\<forall>a \<in> set (vb_ancestors b). gc_round ctx ds < ref_round a \<longrightarrow> ds_blocks ds a \<noteq> None)"

inductive dag_step :: "consensus_context \<Rightarrow> dag_state \<Rightarrow> dag_state \<Rightarrow> bool" for ctx where
  accept: "ready ctx ds b \<Longrightarrow> accept_block ctx b ds = Some ds' \<Longrightarrow> dag_step ctx ds ds'"
| flush: "flush ctx ds = Some ds' \<Longrightarrow> dag_step ctx ds ds'"
| set_committed: "set_committed ds r = Some (ds', fresh) \<Longrightarrow> dag_step ctx ds ds'"
| link_causal_history: "link_causal_history ctx ds r = Some (ds', linked) \<Longrightarrow> dag_step ctx ds ds'"
| add_commit: "last_commit_round ds \<le> ref_round (tc_leader c) \<Longrightarrow> add_commit ctx ds c = Some ds' \<Longrightarrow> dag_step ctx ds ds'"
| add_commit_info: "add_commit_info ds scores = Some ds' \<Longrightarrow> dag_step ctx ds ds'"
| add_finalized_commit: "dag_step ctx ds (add_finalized_commit ds cr rejected)"
| take_commit_votes: "dag_step ctx ds (fst (take_commit_votes ds n))"
| add_scoring_subdags: "add_scoring_subdags ctx ds subdags = Some ds' \<Longrightarrow> dag_step ctx ds ds'"
| clear_scoring_subdag: "dag_step ctx ds (clear_scoring_subdag ds)"
| recover_commits_to_write: "dag_step ctx ds (recover_commits_to_write ds cs)"

inductive dag_reachable :: "crypto \<Rightarrow> consensus_context \<Rightarrow> dag_state \<Rightarrow> bool" for cr ctx where
  start: "dag_state_new cr ctx ms_new = Some ds \<Longrightarrow> dag_reachable cr ctx ds"
| step: "dag_reachable cr ctx ds \<Longrightarrow> dag_step ctx ds ds' \<Longrightarrow> dag_reachable cr ctx ds'"

definition dag_inv :: "consensus_context \<Rightarrow> block_ref fset \<Rightarrow> dag_state \<Rightarrow> bool" where
  "dag_inv ctx G ds \<longleftrightarrow>
     ds_inv ctx ds \<and> memory_inv ctx ds \<and> ds_highest_accepted_round ds < u32_max \<and> fmdom (ds_genesis ds) = G \<and>
     dag_view (ctx_committee ctx) G (gc_round ctx ds) (ds_blocks ds)"

lemma dag_inv_view:
  "dag_inv ctx G ds \<Longrightarrow> fcard (fmdom (ds_recent_blocks ds)) * com_total_stake (ctx_committee ctx) \<le> u64_max \<Longrightarrow>
     view_ok ctx G ds"
  by (simp add: dag_inv_def view_ok_def)

text \<open>Two states hold the same block under every reference both know.\<close>

definition same_blocks :: "dag_state \<Rightarrow> dag_state \<Rightarrow> bool" where
  "same_blocks ds1 ds2 \<longleftrightarrow> (\<forall>r b b'. ds_blocks ds1 r = Some b \<longrightarrow> ds_blocks ds2 r = Some b' \<longrightarrow> b = b')"

section \<open>Operations that leave the blocks alone\<close>

text \<open>Two states with the same blocks in the same places, up to the flags of the cached ones.\<close>

definition same_dag :: "dag_state \<Rightarrow> dag_state \<Rightarrow> bool" where
  "same_dag ds ds' \<longleftrightarrow>
     ds_genesis ds' = ds_genesis ds \<and> blocks_in (ds_recent_blocks ds') = blocks_in (ds_recent_blocks ds) \<and>
     ds_recent_refs ds' = ds_recent_refs ds \<and> ds_threshold_clock ds' = ds_threshold_clock ds \<and>
     ds_evicted_rounds ds' = ds_evicted_rounds ds \<and> ds_highest_accepted_round ds' = ds_highest_accepted_round ds \<and>
     length (ds_last_committed_rounds ds') = length (ds_last_committed_rounds ds) \<and>
     ds_blocks_to_write ds' = ds_blocks_to_write ds \<and> ds_store ds' = ds_store ds \<and> ds_cached_rounds ds' = ds_cached_rounds ds"

lemma blocks_in_iff: "blocks_in m r = Some b \<longleftrightarrow> (\<exists>info. fmlookup m r = Some info \<and> bi_block info = b)"
  by (auto simp: blocks_in_def)

lemma blocks_in_dom: "r |\<in>| fmdom m \<longleftrightarrow> blocks_in m r \<noteq> None"
  by (auto simp: blocks_in_def fmdom_iff)

lemma ds_blocks_in:
  "ds_blocks ds r = (if ref_round r = GENESIS_ROUND then fmlookup (ds_genesis ds) r
     else case blocks_in (ds_recent_blocks ds) r of Some b \<Rightarrow> Some b | None \<Rightarrow> ms_blocks_of (ds_store ds) r)"
  by (auto simp: ds_blocks_def blocks_in_def split: option.splits)

lemma same_dag_blocks: "same_dag ds ds' \<Longrightarrow> ds_blocks ds' = ds_blocks ds"
  by (rule ext) (simp add: same_dag_def ds_blocks_in cong: option.case_cong)

text \<open>The invariant, stated over the block map of the cache.\<close>

lemma ds_inv_blocks_in:
  "ds_inv ctx ds \<longleftrightarrow> genesis_inv ctx ds \<and>
     (\<forall>r b. blocks_in (ds_recent_blocks ds) r = Some b \<longrightarrow>
        vb_reference b = r \<and> 0 < ref_round r \<and> ref_round r < u32_max \<and> ref_author r \<in> members (ctx_committee ctx)) \<and>
     (length (ds_recent_refs ds) = committee_size (ctx_committee ctx) \<and>
      length (ds_evicted_rounds ds) = committee_size (ctx_committee ctx) \<and>
      length (ds_last_committed_rounds ds) = committee_size (ctx_committee ctx) \<and>
      (\<forall>a < committee_size (ctx_committee ctx). \<forall>r. r |\<in>| ds_recent_refs ds ! a \<longleftrightarrow>
         blocks_in (ds_recent_blocks ds) r \<noteq> None \<and> ref_author r = a)) \<and>
     (ms_inv (ds_store ds) \<and>
      (\<forall>b \<in> set (ds_blocks_to_write ds). blocks_in (ds_recent_blocks ds) (vb_reference b) = Some b) \<and>
      (\<forall>r b. blocks_in (ds_recent_blocks ds) r = Some b \<longrightarrow>
         b \<in> set (ds_blocks_to_write ds) \<or> ms_blocks_of (ds_store ds) r = Some b)) \<and>
     (0 < ds_cached_rounds ds \<and>
      (\<forall>r b. ms_blocks_of (ds_store ds) r = Some b \<longrightarrow> 0 < ref_round r \<and>
         (\<exists>l. blocks_in (ds_recent_blocks ds) l \<noteq> None \<and> ref_author l = ref_author r \<and> ref_round r \<le> ref_round l))) \<and>
     clock_ok ctx ds"
proof -
  have recent: "recent_inv ctx ds \<longleftrightarrow> (\<forall>r b. blocks_in (ds_recent_blocks ds) r = Some b \<longrightarrow>
        vb_reference b = r \<and> 0 < ref_round r \<and> ref_round r < u32_max \<and> ref_author r \<in> members (ctx_committee ctx))"
    unfolding recent_inv_def blocks_in_iff by blast
  have persist: "persist_inv ds \<longleftrightarrow> ms_inv (ds_store ds) \<and>
      (\<forall>b \<in> set (ds_blocks_to_write ds). blocks_in (ds_recent_blocks ds) (vb_reference b) = Some b) \<and>
      (\<forall>r b. blocks_in (ds_recent_blocks ds) r = Some b \<longrightarrow>
         b \<in> set (ds_blocks_to_write ds) \<or> ms_blocks_of (ds_store ds) r = Some b)"
    unfolding persist_inv_def blocks_in_iff by blast
  show ?thesis
    unfolding ds_inv_def recent persist refs_inv_def newest_inv_def blocks_in_dom by blast
qed

lemma same_dag_inv: "ds_inv ctx ds \<Longrightarrow> same_dag ds ds' \<Longrightarrow> ds_inv ctx ds'"
  unfolding ds_inv_blocks_in same_dag_def genesis_inv_def clock_ok_def by simp

lemma same_dag_dag_inv:
  assumes inv: "dag_inv ctx G ds" and same: "same_dag ds ds'" and gc: "gc_round ctx ds \<le> gc_round ctx ds'"
  shows "dag_inv ctx G ds'"
proof -
  have "memory_inv ctx ds'"
    using inv same gc unfolding dag_inv_def memory_inv_def same_dag_def
    by (metis blocks_in_dom fmdom_iff order.strict_trans1)
  moreover have "dag_view (ctx_committee ctx) G (gc_round ctx ds') (ds_blocks ds')"
    using inv gc unfolding dag_inv_def dag_view_def same_dag_blocks [OF same] complete_above_def
    by (meson order.strict_trans1)
  ultimately show ?thesis
    using inv same same_dag_inv [of ctx ds ds'] by (simp add: dag_inv_def same_dag_def)
qed

text \<open>The steps that only touch flags, buffers of commits, or scores.\<close>

lemma link_loop_blocks: "link_loop gc m ts l = Some (m', l') \<Longrightarrow> blocks_in m' = blocks_in m"
proof (induction gc m ts l rule: link_loop.induct)
  case (2 gc m r ts l)
  show ?case
  proof (cases "ref_round r \<le> gc")
    case False
    then obtain info where look: "fmlookup m r = Some info" using "2.prems" by (auto split: option.splits)
    show ?thesis
      using "2.IH"(2,3) [OF False look] "2.prems" False look mark_block(1) [OF look]
      by (cases "bi_hard_linked info") auto
  qed (use 2 in auto)
qed simp

lemma set_committed_same: "set_committed ds r = Some (ds', fresh) \<Longrightarrow> same_dag ds ds' \<and> ds_last_commit ds' = ds_last_commit ds"
  by (auto simp: set_committed_def same_dag_def blocks_in_def fun_eq_iff Option.bind_eq_Some_conv split: if_splits)

lemma link_same: "link_causal_history ctx ds r = Some (ds', linked) \<Longrightarrow> same_dag ds ds' \<and> ds_last_commit ds' = ds_last_commit ds"
  by (auto simp: link_causal_history_def same_dag_def Option.bind_eq_Some_conv dest: link_loop_blocks
      simp del: link_loop.simps)

lemma bump_length: "for_each bump_committed_round rs xs = Some ys \<Longrightarrow> length ys = length xs"
  by (rule for_each_invariant [where P = "\<lambda>zs. length zs = length xs"])
    (auto simp: bump_committed_round_def Option.bind_eq_Some_conv vec_set_Some_iff)

lemma add_commit_same:
  assumes "add_commit ctx ds c = Some ds'"
  shows "same_dag ds ds' \<and> (ds_last_commit ds' = ds_last_commit ds \<or> ds_last_commit ds' = Some c)"
  using assms by (auto simp: add_commit_def same_dag_def Option.bind_eq_Some_conv dest: bump_length split: if_splits)

lemma commit_buffers_same:
  "add_commit_info ds scores = Some ds' \<Longrightarrow> same_dag ds ds' \<and> ds_last_commit ds' = ds_last_commit ds"
  "same_dag ds (add_finalized_commit ds cr rejected) \<and> ds_last_commit (add_finalized_commit ds cr rejected) = ds_last_commit ds"
  "same_dag ds (fst (take_commit_votes ds n)) \<and> ds_last_commit (fst (take_commit_votes ds n)) = ds_last_commit ds"
  "add_scoring_subdags ctx ds subdags = Some ds' \<Longrightarrow> same_dag ds ds' \<and> ds_last_commit ds' = ds_last_commit ds"
  "same_dag ds (clear_scoring_subdag ds) \<and> ds_last_commit (clear_scoring_subdag ds) = ds_last_commit ds"
  "same_dag ds (recover_commits_to_write ds cs) \<and> ds_last_commit (recover_commits_to_write ds cs) = ds_last_commit ds"
  by (auto simp: add_commit_info_def add_finalized_commit_def take_commit_votes_def add_scoring_subdags_def
      clear_scoring_subdag_def recover_commits_to_write_def same_dag_def Let_def Option.bind_eq_Some_conv)

lemma gc_round_cong: "ds_last_commit ds' = ds_last_commit ds \<Longrightarrow> gc_round ctx ds' = gc_round ctx ds"
  by (simp add: gc_round_def last_commit_round_def)

lemma gc_round_commit:
  "ds_last_commit ds' = Some c \<Longrightarrow> last_commit_round ds \<le> ref_round (tc_leader c) \<Longrightarrow> gc_round ctx ds \<le> gc_round ctx ds'"
  by (simp add: gc_round_def last_commit_round_def calculate_gc_round_def diff_le_mono)

section \<open>Accepting a block\<close>

lemma accept_block_frame:
  assumes "accept_block ctx b ds = Some ds'"
  shows "ds_genesis ds' = ds_genesis ds" "ds_store ds' = ds_store ds" "ds_last_commit ds' = ds_last_commit ds"
    "ds_highest_accepted_round ds' \<le> max (ds_highest_accepted_round ds) (vb_round b)"
    "fmlookup (ds_recent_blocks ds) r \<noteq> None \<Longrightarrow> fmlookup (ds_recent_blocks ds') r \<noteq> None"
  using assms
  by (auto simp: accept_block_def update_block_metadata_def Let_def Option.bind_eq_Some_conv split: if_splits)

lemma accept_block_acceptable:
  assumes inv: "ds_inv ctx ds" and ok: "block_ok (ctx_committee ctx) G (vb_block b)" "vb_round b < u32_max"
    and acc: "accept_block ctx b ds = Some ds'"
  shows "acceptable ctx ds b"
proof -
  have b: "0 < vb_round b" "vb_author b \<in> members (ctx_committee ctx)" using ok(1) by (auto simp: block_ok_def)
  have "contains_block ds (vb_reference b) = Some (ds_blocks ds (vb_reference b) \<noteq> None)"
    using contains_block_eq [OF inv, of "vb_reference b"] b(2) by simp
  then show ?thesis
    using acc b ok(2) by (auto simp: acceptable_def accept_block_def Option.bind_eq_Some_conv split: if_splits)
qed

lemma accept_dag_inv:
  assumes inv: "dag_inv ctx G ds" and ready: "ready ctx ds b" and acc: "accept_block ctx b ds = Some ds'"
  shows "dag_inv ctx G ds'"
proof -
  have inv': "ds_inv ctx ds" "memory_inv ctx ds" "ds_highest_accepted_round ds < u32_max" "fmdom (ds_genesis ds) = G"
    and view: "dag_view (ctx_committee ctx) G (gc_round ctx ds) (ds_blocks ds)" using inv by (auto simp: dag_inv_def)
  have r: "block_ok (ctx_committee ctx) G (vb_block b)" "vb_round b < u32_max"
    "\<And>a. a \<in> set (vb_ancestors b) \<Longrightarrow> gc_round ctx ds < ref_round a \<Longrightarrow> ds_blocks ds a \<noteq> None"
    using ready inv'(4) by (auto simp: ready_def)
  note frame = accept_block_frame [OF acc]
  have gc: "gc_round ctx ds' = gc_round ctx ds" by (rule gc_round_cong [OF frame(3)])
  have "ds_inv ctx ds'" and B: "ds_blocks ds' = (case ds_blocks ds (vb_reference b) of
        None \<Rightarrow> (ds_blocks ds)(vb_reference b \<mapsto> b) | Some _ \<Rightarrow> ds_blocks ds)"
    using accept_block_spec [OF inv'(1) accept_block_acceptable [OF inv'(1) r(1,2) acc]] acc by auto
  moreover have "memory_inv ctx ds'"
    using inv'(2) frame(5) unfolding memory_inv_def gc frame(2) by blast
  moreover have "dag_view (ctx_committee ctx) G (gc_round ctx ds) (ds_blocks ds')"
  proof (cases "ds_blocks ds (vb_reference b)")
    case None
    have pos: "vb_round b \<noteq> 0" using r(1) by (simp add: block_ok_def)
    have "complete_above (gc_round ctx ds) ((ds_blocks ds)(vb_reference b \<mapsto> b))"
      using view r(3) unfolding dag_view_def complete_above_def by auto
    then show ?thesis
      using view r(1) pos unfolding B None dag_view_def refs_match_def by auto
  qed (use view B in simp)
  ultimately show ?thesis using inv' frame(1,4) r(2) gc by (auto simp: dag_inv_def)
qed

section \<open>Flushing\<close>

lemma evict_keeps:
  assumes inv: "ds_inv ctx ds" and per: "persisted ds" and as: "set as \<subseteq> members (ctx_committee ctx)"
    and ev: "for_each (evict_authority ctx) as ds = Some ds'"
  shows "ds_last_commit ds' = ds_last_commit ds \<and> ds_genesis ds' = ds_genesis ds \<and> ds_store ds' = ds_store ds \<and>
     ds_highest_accepted_round ds' = ds_highest_accepted_round ds \<and>
     (\<forall>r. gc_round ctx ds < ref_round r \<longrightarrow> fmlookup (ds_recent_blocks ds') r = fmlookup (ds_recent_blocks ds) r)"
  using inv per as ev
proof (induction as arbitrary: ds)
  case Nil
  then show ?case by simp
next
  case (Cons a as)
  have a: "a < committee_size (ctx_committee ctx)" using Cons.prems(3) by (simp add: members_def)
  have refs: "refs_inv ctx ds" using Cons.prems(1) by (simp add: ds_inv_def)
  obtain er where er: "calculate_authority_eviction_round ctx ds a = Some er"
    "evict_authority ctx a ds = Some (evicted_state a er ds)"
    "\<forall>l. btree_last (ds_recent_refs ds ! a) = Some l \<longrightarrow> er < ref_round l"
    using evict_authority_eq [OF Cons.prems(1) a] by blast
  have le: "er \<le> gc_round ctx ds"
    using er(1) by (auto simp: calculate_authority_eviction_round_def eviction_round_def Option.bind_eq_Some_conv Let_def)
  note st = evicted_state_inv [OF Cons.prems(1,2) a er(3)]
  have rest: "for_each (evict_authority ctx) as (evicted_state a er ds) = Some ds'" using Cons.prems(4) er(2) by simp
  have fields: "ds_last_commit (evicted_state a er ds) = ds_last_commit ds" "ds_genesis (evicted_state a er ds) = ds_genesis ds"
    "ds_store (evicted_state a er ds) = ds_store ds"
    "ds_highest_accepted_round (evicted_state a er ds) = ds_highest_accepted_round ds"
    by (simp_all add: evicted_state_def)
  note gc = gc_round_cong [OF fields(1), of ctx]
  show ?case
    using Cons.IH [OF st(1,2) _ rest] Cons.prems(3) evicted_state_lookup [OF refs a, of er] le
    unfolding gc fields by fastforce
qed

lemma flush_keeps:
  assumes inv: "ds_inv ctx ds" and fl: "flush ctx ds = Some ds'"
  shows "ds_last_commit ds' = ds_last_commit ds \<and> ds_genesis ds' = ds_genesis ds \<and>
      ds_highest_accepted_round ds' = ds_highest_accepted_round ds \<and>
      (\<forall>r. gc_round ctx ds < ref_round r \<longrightarrow> fmlookup (ds_recent_blocks ds') r = fmlookup (ds_recent_blocks ds) r)"
proof (cases "ds_blocks_to_write ds = [] \<and> ds_commits_to_write ds = [] \<and>
    ds_commit_info_to_write ds = [] \<and> ds_finalized_commits_to_write ds = []")
  case True
  then have "ds' = unbuffered ds" using fl by (simp add: flush_def Let_def unbuffered_def)
  then show ?thesis by (simp add: unbuffered_def)
next
  case False
  let ?as = "map fst (committee_authorities (ctx_committee ctx))"
  have as: "set ?as \<subseteq> members (ctx_committee ctx)"
    by (auto simp: committee_authorities_def members_def committee_size_def in_set_enumerate_eq)
  have "for_each (evict_authority ctx) ?as (written_state ds) = Some ds'"
    using False fl by (auto simp: flush_def Let_def written_state_def unbuffered_def buffered_batch_def)
  note k = evict_keeps [OF written_state_inv(1) [OF inv] written_persisted [OF inv] as this]
  have f: "ds_last_commit (written_state ds) = ds_last_commit ds"
    "ds_highest_accepted_round (written_state ds) = ds_highest_accepted_round ds"
    by (simp_all add: written_state_def unbuffered_def)
  show ?thesis using k unfolding gc_round_cong [OF f(1)] f frame_simps by blast
qed

lemma flush_dag_inv:
  assumes inv: "dag_inv ctx G ds" and fl: "flush ctx ds = Some ds'"
  shows "dag_inv ctx G ds'"
proof -
  have inv': "ds_inv ctx ds" "memory_inv ctx ds" "ds_highest_accepted_round ds < u32_max" "fmdom (ds_genesis ds) = G"
    and view: "dag_view (ctx_committee ctx) G (gc_round ctx ds) (ds_blocks ds)" using inv by (auto simp: dag_inv_def)
  have spec: "ds_inv ctx ds'" "ds_blocks ds' = ds_blocks ds" using flush_spec [OF inv'(1)] fl by auto
  note keep = flush_keeps [OF inv'(1) fl]
  have gc: "gc_round ctx ds' = gc_round ctx ds" using keep gc_round_cong by blast
  have "fmlookup (ds_recent_blocks ds') r \<noteq> None"
    if b: "ms_blocks_of (ds_store ds') r = Some b" "gc_round ctx ds < ref_round r" for r b
  proof -
    have "ds_blocks ds' r \<noteq> None"
      using b by (cases "fmlookup (ds_recent_blocks ds') r") (simp_all add: ds_blocks_def GENESIS_ROUND_def)
    then have "fmlookup (ds_recent_blocks ds) r \<noteq> None"
      unfolding spec(2) cached_above_gc [OF inv'(2) b(2)] by (simp only: option.map_disc_iff not_False_eq_True)
    then show ?thesis using keep b(2) by metis
  qed
  then have "memory_inv ctx ds'" unfolding memory_inv_def gc by blast
  then show ?thesis unfolding dag_inv_def gc spec(2) using spec(1) inv'(3,4) keep view by metis
qed

section \<open>The initial state\<close>

definition ctx_ok :: "consensus_context \<Rightarrow> bool" where
  "ctx_ok ctx \<longleftrightarrow> committee_wf (ctx_committee ctx) \<and> own_index ctx \<in> members (ctx_committee ctx) \<and>
     0 < dag_state_cached_rounds ctx"

definition initial_state :: "consensus_context \<Rightarrow> verified_block list \<Rightarrow> dag_state" where
  "initial_state ctx genesis =
     (let n = committee_size (ctx_committee ctx) in
      \<lparr> ds_genesis = fmap_of_list (rev (map (\<lambda>b. (vb_reference b, b)) genesis)),
        ds_recent_blocks = fmempty, ds_recent_refs = replicate n {||},
        ds_threshold_clock = clock_new 1, ds_evicted_rounds = replicate n 0,
        ds_highest_accepted_round = 0, ds_last_commit = None,
        ds_last_committed_rounds = replicate n 0, ds_scoring_subdag = scoring_new,
        ds_pending_commit_votes = [], ds_blocks_to_write = [], ds_commits_to_write = [],
        ds_commit_info_to_write = [], ds_finalized_commits_to_write = [],
        ds_store = ms_new, ds_cached_rounds = dag_state_cached_rounds ctx \<rparr>)"

lemma empty_scans:
  "ms_scan_last_blocks_by_author ms_new a n None = Some []"
  "ms_scan_blocks_by_author ms_new a r = Some []"
  "ms_read_last_commit ms_new = None" "ms_read_last_commit_info ms_new = None"
  by (simp_all add: ms_new_def ms_scan_last_blocks_by_author_def ms_scan_blocks_by_author_def btree_range_def
      vd_new_def vd_first_slice_def ms_read_blocks_def ms_read_last_commit_def ms_read_last_commit_info_def
      btree_last_entry_def btree_last_def)

lemma recover_authority_initial:
  assumes "a < committee_size (ctx_committee ctx)"
  shows "recover_authority ctx a (initial_state ctx genesis) = Some (initial_state ctx genesis)"
proof -
  have "(replicate (committee_size (ctx_committee ctx)) 0)[a := 0 :: nat] = replicate (committee_size (ctx_committee ctx)) 0"
    using assms by (metis list_update_id nth_replicate)
  then show ?thesis
    using assms
    by (simp add: recover_authority_def initial_state_def Let_def empty_scans eviction_round_def gc_round_def
        calculate_gc_round_def last_commit_round_def)
qed

lemma for_each_same: "\<forall>x \<in> set xs. f x s = Some s \<Longrightarrow> for_each f xs s = Some s"
  by (induction xs) auto

lemma dag_state_new_empty:
  "dag_state_new cr ctx ms_new = map_option (initial_state ctx) (genesis_blocks cr ctx)"
proof (cases "genesis_blocks cr ctx")
  case (Some genesis)
  let ?as = "map fst (committee_authorities (ctx_committee ctx))" and ?ds = "initial_state ctx genesis"
  have "\<forall>a \<in> set ?as. a < committee_size (ctx_committee ctx)"
    by (auto simp: committee_authorities_def committee_size_def in_set_enumerate_eq)
  then have rec: "for_each (recover_authority ctx) ?as ?ds = Some ?ds"
    by (intro for_each_same) (simp add: recover_authority_initial)
  show ?thesis
    using Some rec
    by (simp add: dag_state_new_def empty_scans add_subdags_def Let_def initial_state_def)
qed (simp add: dag_state_new_def)

definition genesis_refs :: "crypto \<Rightarrow> consensus_context \<Rightarrow> block_ref fset" where
  "genesis_refs cr ctx = fset_of_list (map vb_reference (the (genesis_blocks cr ctx)))"

lemma genesis_block_facts:
  assumes "genesis_blocks cr ctx = Some bs" and "b \<in> set bs"
  shows "vb_round b = 0" "vb_ancestors b = []"
proof -
  obtain i where "i < length bs" "b = bs ! i" using assms(2) by (auto simp: in_set_conv_nth)
  then show "vb_round b = 0" "vb_ancestors b = []"
    using genesis_block_of_Some [OF genesis_blocks_nth(2) [OF assms(1)]] by (auto simp: GENESIS_ROUND_def)
qed

lemma genesis_map:
  assumes "fmlookup (fmap_of_list (rev (map (\<lambda>b. (vb_reference b, b)) bs))) r = Some b"
  shows "b \<in> set bs \<and> vb_reference b = r"
  using assms by (auto simp: fmlookup_of_list dest!: map_of_SomeD)

lemma genesis_map_dom:
  "fmdom (fmap_of_list (rev (map (\<lambda>b. (vb_reference b, b)) bs))) = fset_of_list (map vb_reference bs)"
  by (auto simp: fset_of_list.rep_eq fset_eq_iff image_image)

lemma initial_state_inv:
  assumes ctx: "ctx_ok ctx" and gen: "genesis_blocks cr ctx = Some bs"
  shows "dag_inv ctx (genesis_refs cr ctx) (initial_state ctx bs)"
proof -
  let ?ds = "initial_state ctx bs"
  note map = genesis_map [of bs]
  have f: "ds_genesis ?ds = fmap_of_list (rev (map (\<lambda>b. (vb_reference b, b)) bs))" "ds_recent_blocks ?ds = fmempty"
    "ds_store ?ds = ms_new" "ds_highest_accepted_round ?ds = 0"
    by (simp_all add: initial_state_def Let_def)
  have store: "ms_blocks_of ms_new r = None" for r by (simp add: ms_new_def ms_blocks_of_def)
  have "\<exists>r. r |\<in>| fmdom (ds_genesis ?ds) \<and> ref_author r = a" if "a \<in> members (ctx_committee ctx)" for a
  proof -
    have a: "a < length bs" using that genesis_blocks_nth(1) [OF gen] by (simp add: members_def)
    have "vb_author (bs ! a) = a" using genesis_block_of_Some(2) [OF genesis_blocks_nth(2) [OF gen a]] .
    then show ?thesis
      unfolding f genesis_map_dom using a
      by (intro exI [of _ "vb_reference (bs ! a)"]) (simp add: fset_of_list.rep_eq)
  qed
  then have "genesis_inv ctx ?ds"
    using map genesis_block_facts(1) [OF gen] unfolding genesis_inv_def f(1) by (force simp: GENESIS_ROUND_def)
  then have inv: "ds_inv ctx ?ds"
    using ctx store unfolding ds_inv_blocks_in
    by (simp add: initial_state_def Let_def blocks_in_def ms_inv_new ctx_ok_def clock_ok_def clock_new_def)
  have B: "ds_blocks ?ds r = (if ref_round r = 0 then fmlookup (ds_genesis ?ds) r else None)" for r
    by (simp add: ds_blocks_def f store GENESIS_ROUND_def)
  have "dag_view (ctx_committee ctx) (genesis_refs cr ctx) (gc_round ctx ?ds) (ds_blocks ?ds)"
    unfolding dag_view_def complete_above_def refs_match_def B f
    using map genesis_block_facts [OF gen] by (auto split: if_splits dest!: map)
  moreover have "memory_inv ctx ?ds" by (simp add: memory_inv_def f store)
  moreover have "fmdom (ds_genesis ?ds) = genesis_refs cr ctx"
    unfolding f genesis_map_dom genesis_refs_def gen by simp
  ultimately show ?thesis using inv f(4) by (simp add: dag_inv_def)
qed

section \<open>Reachable states\<close>

lemma dag_step_inv: "dag_step ctx ds ds' \<Longrightarrow> dag_inv ctx G ds \<Longrightarrow> dag_inv ctx G ds'"
proof (induction rule: dag_step.induct)
  case (accept ds b ds')
  then show ?case by (blast intro: accept_dag_inv)
next
  case (flush ds ds')
  then show ?case by (blast intro: flush_dag_inv)
next
  case (add_commit ds c ds')
  then show ?case
    using same_dag_dag_inv [of ctx G ds ds'] add_commit_same [of ctx ds c ds'] gc_round_commit [of ds' c ds ctx]
      gc_round_cong [of ds' ds ctx] by auto
next
  case (set_committed ds r ds' fresh)
  then show ?case using same_dag_dag_inv set_committed_same gc_round_cong order.refl by metis
next
  case (link_causal_history ds r ds' linked)
  then show ?case using same_dag_dag_inv link_same gc_round_cong order.refl by metis
qed (metis same_dag_dag_inv commit_buffers_same gc_round_cong order.refl)+

lemma dag_reachable_inv:
  "dag_reachable cr ctx ds \<Longrightarrow> ctx_ok ctx \<Longrightarrow> dag_inv ctx (genesis_refs cr ctx) ds"
proof (induction rule: dag_reachable.induct)
  case (start ds)
  then show ?case using initial_state_inv by (auto simp: dag_state_new_empty)
next
  case (step ds ds')
  then show ?case using dag_step_inv by blast
qed

end
