(* ===== verification/Linearizer.thy ===== *)
theory Linearizer
  imports Dag_Steps
begin

text \<open>
  The linearizer (\<^verbatim>\<open>consensus/core/src/linearizer.rs\<close>): it expands a sequence of committed leaders into
  sub-DAGs, each the uncommitted part of the leader's causal history above the garbage collection
  round, and gives every commit the stake-weighted median of the leader's parents' timestamps. The
  trait \<open>BlockStoreAPI\<close> is a record of operations; what the traversal needs of them is the locale
  \<open>block_store_api_laws\<close>, which \<open>DagState\<close> satisfies on the states it can reach.
\<close>

section \<open>The store interface\<close>

record 's block_store_api =
  api_get_blocks :: "'s \<Rightarrow> block_ref list \<Rightarrow> verified_block option list"
  api_gc_round :: "'s \<Rightarrow> round"
  api_set_committed :: "'s \<Rightarrow> block_ref \<Rightarrow> ('s \<times> bool) option"
  api_is_committed :: "'s \<Rightarrow> block_ref \<Rightarrow> bool option"

definition dag_state_api :: "consensus_context \<Rightarrow> dag_state block_store_api" where
  "dag_state_api ctx = \<lparr> api_get_blocks = get_blocks, api_gc_round = gc_round ctx,
     api_set_committed = set_committed, api_is_committed = is_committed \<rparr>"

section \<open>Timestamps\<close>

fun median_scan :: "stake \<Rightarrow> stake \<Rightarrow> (nat \<times> stake) list \<Rightarrow> nat option" where
  "median_scan half cumulative [] = None"
| "median_scan half cumulative ((ts, stake) # rest) =
     (let cumulative' = add_u64 cumulative stake in
      if half < cumulative' then Some ts else median_scan half cumulative' rest)"

definition median_timestamps_by_stake_inner :: "(nat \<times> stake) list \<Rightarrow> stake \<Rightarrow> nat option" where
  "median_timestamps_by_stake_inner timestamps total_stake =
     (let timestamps' = sort_key fst timestamps in
      case median_scan (total_stake div 2) 0 timestamps' of
        Some ts \<Rightarrow> Some ts
      | None \<Rightarrow> (if timestamps' = [] then None else Some (fst (last timestamps'))))"

text \<open>The two messages of the \<open>Err\<close> results.\<close>

datatype median_error = NoBlocksProvided | TotalStakeBelowQuorum stake stake

definition median_timestamp_by_stake ::
  "consensus_context \<Rightarrow> verified_block list \<Rightarrow> (median_error + nat) option" where
  "median_timestamp_by_stake ctx blocks = do {
     timestamps \<leftarrow> traverse (\<lambda>b. do {
         a \<leftarrow> committee_authority (ctx_committee ctx) (vb_author b);
         Some (vb_timestamp_ms b, auth_stake a)
       }) blocks;
     let total_stake = foldl add_u64 0 (map snd timestamps);
     if timestamps = [] then Some (Inl NoBlocksProvided)
     else if total_stake < com_quorum_threshold (ctx_committee ctx)
     then Some (Inl (TotalStakeBelowQuorum total_stake (com_quorum_threshold (ctx_committee ctx))))
     else map_option Inr (median_timestamps_by_stake_inner timestamps total_stake)
   }"

definition calculate_commit_timestamp ::
  "consensus_context \<Rightarrow> 's block_store_api \<Rightarrow> 's \<Rightarrow> verified_block \<Rightarrow> nat \<Rightarrow> nat option" where
  "calculate_commit_timestamp ctx api s leader_block last_commit_ts = do {
     let block_refs = filter (\<lambda>r. ref_round r = sub_u32 (vb_round leader_block) 1) (vb_ancestors leader_block);
     blocks \<leftarrow> traverse (\<lambda>b. b) (api_get_blocks api s block_refs);
     median \<leftarrow> median_timestamp_by_stake ctx blocks;
     (case median of Inl e \<Rightarrow> None | Inr ts \<Rightarrow> Some (max ts last_commit_ts))
   }"

section \<open>Sub-DAGs\<close>

text \<open>
  The \<open>buffer\<close> is a stack whose top is the head of the list. A block is marked as committed when it
  is pushed, and a block that is already marked aborts the process.
\<close>

definition linearize_push ::
  "'s block_store_api \<Rightarrow> verified_block \<Rightarrow> verified_block list \<times> 's \<Rightarrow> (verified_block list \<times> 's) option" where
  "linearize_push api ancestor = (\<lambda>(buffer, s). do {
     (s', fresh) \<leftarrow> api_set_committed api s (vb_reference ancestor);
     assert_rs fresh;
     Some (ancestor # buffer, s')
   })"

definition uncommitted_ancestors ::
  "'s block_store_api \<Rightarrow> round \<Rightarrow> 's \<Rightarrow> verified_block \<Rightarrow> verified_block list option" where
  "uncommitted_ancestors api gc s x = do {
     refs \<leftarrow> filter_rs (\<lambda>a. if gc < ref_round a then map_option Not (api_is_committed api s a) else Some False)
       (vb_ancestors x);
     traverse (\<lambda>b. b) (api_get_blocks api s refs)
   }"

partial_function (option) linearize_loop ::
  "'s block_store_api \<Rightarrow> round \<Rightarrow> verified_block list \<Rightarrow> verified_block list \<Rightarrow> 's \<Rightarrow> (verified_block list \<times> 's) option" where
  "linearize_loop api gc buffer to_commit s =
     (case buffer of
        [] \<Rightarrow> Some (to_commit, s)
      | x # rest \<Rightarrow> do {
          ancestors \<leftarrow> uncommitted_ancestors api gc s x;
          (buffer', s') \<leftarrow> for_each (linearize_push api) ancestors (rest, s);
          linearize_loop api gc buffer' (to_commit @ [x]) s'
        })"

declare linearize_loop.simps [code]

definition linearize_sub_dag ::
  "'s block_store_api \<Rightarrow> verified_block \<Rightarrow> 's \<Rightarrow> (verified_block list \<times> 's) option" where
  "linearize_sub_dag api leader_block s = do {
     let gc = api_gc_round api s;
     (s1, fresh) \<leftarrow> api_set_committed api s (vb_reference leader_block);
     assert_rs fresh;
     (to_commit, s2) \<leftarrow> linearize_loop api gc [leader_block] [] s1;
     assert_rs (list_all (\<lambda>b. gc < vb_round b) to_commit);
     Some (sort_sub_dag_blocks to_commit, s2)
   }"

section \<open>Commits\<close>

definition collect_sub_dag_and_commit ::
  "crypto \<Rightarrow> consensus_context \<Rightarrow> verified_block \<Rightarrow> dag_state \<Rightarrow> (committed_sub_dag \<times> trusted_commit \<times> dag_state) option" where
  "collect_sub_dag_and_commit cr ctx leader_block ds = do {
     (to_commit, ds') \<leftarrow> linearize_sub_dag (dag_state_api ctx) leader_block ds;
     timestamp_ms \<leftarrow> calculate_commit_timestamp ctx (dag_state_api ctx) ds' leader_block (last_commit_timestamp_ms ds);
     let commit = commit_new (add_u32 (last_commit_index ds) 1) (last_commit_digest ds) timestamp_ms
           (vb_reference leader_block) (map vb_reference to_commit);
     (case cr_bcs_commit cr commit of
        Inl e \<Rightarrow> None
      | Inr serialized \<Rightarrow>
          let tc = new_trusted cr commit serialized in
          Some (committed_sub_dag_new (vb_reference leader_block) to_commit timestamp_ms (tc_reference tc), tc, ds'))
   }"

text \<open>
  The references counted by the metric, with the label: \<open>True\<close> for \<open>uncommitted\<close>, \<open>False\<close> for
  \<open>higher_committed\<close>. \<open>unique\<close> keeps the first occurrence.
\<close>

definition update_blocks_pruned_metric ::
  "consensus_context \<Rightarrow> dag_state \<Rightarrow> committed_sub_dag \<Rightarrow> (block_ref \<times> bool) list option" where
  "update_blocks_pruned_metric ctx ds sub_dag = do {
     pruned \<leftarrow> filter_rs (\<lambda>a. if ref_round a \<le> gc_round ctx ds
         then map_option (\<lambda>r. r \<noteq> ref_round a) (vec_get (ds_last_committed_rounds ds) (ref_author a))
         else Some False) (concat (map vb_ancestors (csd_blocks sub_dag)));
     traverse (\<lambda>a. do {
         _ \<leftarrow> committee_authority (ctx_committee ctx) (ref_author a);
         committed \<leftarrow> vec_get (ds_last_committed_rounds ds) (ref_author a);
         Some (a, committed < ref_round a)
       }) (rev (remdups (rev pruned)))
   }"

definition handle_leader ::
  "crypto \<Rightarrow> consensus_context \<Rightarrow> verified_block \<Rightarrow> committed_sub_dag list \<times> dag_state \<Rightarrow>
     (committed_sub_dag list \<times> dag_state) option" where
  "handle_leader cr ctx leader_block = (\<lambda>(committed_sub_dags, ds). do {
     (sub_dag, commit, ds') \<leftarrow> collect_sub_dag_and_commit cr ctx leader_block ds;
     _ \<leftarrow> update_blocks_pruned_metric ctx ds' sub_dag;
     ds'' \<leftarrow> add_commit ctx ds' commit;
     Some (committed_sub_dags @ [sub_dag], ds'')
   })"

definition handle_commit ::
  "crypto \<Rightarrow> consensus_context \<Rightarrow> verified_block list \<Rightarrow> dag_state \<Rightarrow> (committed_sub_dag list \<times> dag_state) option" where
  "handle_commit cr ctx committed_leaders ds =
     (if committed_leaders = [] then Some ([], ds)
      else for_each (handle_leader cr ctx) committed_leaders ([], ds))"

section \<open>What the traversal needs of the store\<close>

definition ancestors_closed :: "round \<Rightarrow> block_map \<Rightarrow> block_ref set \<Rightarrow> block_ref set \<Rightarrow> bool" where
  "ancestors_closed gc B S T \<longleftrightarrow>
     (\<forall>r b a. r \<in> S \<longrightarrow> B r = Some b \<longrightarrow> gc < ref_round r \<longrightarrow> a \<in> set (vb_ancestors b) \<longrightarrow> gc < ref_round a \<longrightarrow> a \<in> T)"

lemma ancestors_closed_causal:
  assumes "causal B gc S x" and "S \<subseteq> C" and "ancestors_closed gc B C C" and "gc < ref_round x" and "rounds_decrease B"
  shows "x \<in> C"
  using assms
proof (induction rule: causal.induct)
  case (step r b a)
  then have "r \<in> C" by simp
  then show ?case using step.prems step.hyps unfolding ancestors_closed_def by blast
qed auto

locale block_store_api_laws =
  fixes api :: "'s block_store_api" and inv :: "'s \<Rightarrow> bool"
    and blocks :: "'s \<Rightarrow> block_map" and committed :: "'s \<Rightarrow> block_ref set"
  assumes get_law: "inv s \<Longrightarrow> api_get_blocks api s refs = map (blocks s) refs"
    and is_law: "inv s \<Longrightarrow> blocks s r \<noteq> None \<Longrightarrow> api_gc_round api s < ref_round r \<Longrightarrow>
      api_is_committed api s r = Some (r \<in> committed s)"
    and set_law: "inv s \<Longrightarrow> blocks s r \<noteq> None \<Longrightarrow> api_gc_round api s < ref_round r \<Longrightarrow>
      \<exists>s'. api_set_committed api s r = Some (s', r \<notin> committed s) \<and> inv s' \<and> blocks s' = blocks s \<and>
        api_gc_round api s' = api_gc_round api s \<and> committed s' = insert r (committed s)"
    and refs_law: "inv s \<Longrightarrow> refs_match (blocks s)"
    and round_law: "inv s \<Longrightarrow> rounds_decrease (blocks s)"
    and complete_law: "inv s \<Longrightarrow> complete_above (api_gc_round api s) (blocks s)"
    and distinct_law: "inv s \<Longrightarrow> blocks s r = Some b \<Longrightarrow> distinct (vb_ancestors b)"
begin

definition fresh_ancestors :: "'s \<Rightarrow> verified_block \<Rightarrow> block_ref list" where
  "fresh_ancestors s x = filter (\<lambda>a. api_gc_round api s < ref_round a \<and> a \<notin> committed s) (vb_ancestors x)"

lemma uncommitted_ancestors_eq:
  assumes inv: "inv s" and x: "blocks s (vb_reference x) = Some x" "api_gc_round api s < vb_round x"
  shows "uncommitted_ancestors api (api_gc_round api s) s x = Some (map (\<lambda>r. the (blocks s r)) (fresh_ancestors s x))"
proof -
  have present: "blocks s a \<noteq> None" if "a \<in> set (vb_ancestors x)" "api_gc_round api s < ref_round a" for a
    using complete_aboveD [OF complete_law [OF inv] x(1)] that x(2) by auto
  have "filter_rs (\<lambda>a. if api_gc_round api s < ref_round a then map_option Not (api_is_committed api s a) else Some False)
      (vb_ancestors x) = Some (fresh_ancestors s x)"
    unfolding fresh_ancestors_def
    by (rule filter_rs_eq) (use is_law [OF inv present] in auto)
  moreover have "traverse (\<lambda>b. b) (map (blocks s) (fresh_ancestors s x)) = Some (map (\<lambda>r. the (blocks s r)) (fresh_ancestors s x))"
    using present by (auto simp: traverse_Some_conv fresh_ancestors_def)
  ultimately show ?thesis by (simp add: uncommitted_ancestors_def get_law [OF inv])
qed

lemma push_all:
  assumes "inv s" and "distinct rs" and "\<forall>r \<in> set rs. blocks s r \<noteq> None \<and> api_gc_round api s < ref_round r \<and> r \<notin> committed s"
  shows "\<exists>s'. for_each (linearize_push api) (map (\<lambda>r. the (blocks s r)) rs) (buffer, s) =
       Some (rev (map (\<lambda>r. the (blocks s r)) rs) @ buffer, s') \<and>
     inv s' \<and> blocks s' = blocks s \<and> api_gc_round api s' = api_gc_round api s \<and> committed s' = committed s \<union> set rs"
  using assms
proof (induction rs arbitrary: buffer s)
  case (Cons r rs)
  have ref: "vb_reference (the (blocks s r)) = r"
    using refs_law [OF Cons.prems(1)] Cons.prems(3) by (auto simp: refs_match_def)
  obtain s1 where s1: "api_set_committed api s r = Some (s1, True)" "inv s1" "blocks s1 = blocks s"
    "api_gc_round api s1 = api_gc_round api s" "committed s1 = insert r (committed s)"
    using set_law [OF Cons.prems(1), of r] Cons.prems(3) by auto
  from Cons.IH [OF s1(2), of "the (blocks s r) # buffer"] Cons.prems s1
  show ?case by (auto simp: linearize_push_def ref)
qed simp

abbreviation refs_of :: "verified_block list \<Rightarrow> block_ref set" where
  "refs_of bs \<equiv> vb_reference ` set bs"

text \<open>The invariant of the loop, and what it has collected when it ends.\<close>

definition buffer_ok :: "'s \<Rightarrow> verified_block list \<Rightarrow> bool" where
  "buffer_ok s buffer \<longleftrightarrow> inv s \<and>
     (\<forall>x \<in> set buffer. blocks s (vb_reference x) = Some x \<and> api_gc_round api s < vb_round x \<and> vb_reference x \<in> committed s) \<and>
     distinct (map vb_reference buffer) \<and>
     ancestors_closed (api_gc_round api s) (blocks s) (committed s - refs_of buffer) (committed s)"

definition collected :: "'s \<Rightarrow> verified_block list \<Rightarrow> 's \<Rightarrow> verified_block list \<Rightarrow> bool" where
  "collected s buffer s' new \<longleftrightarrow> inv s' \<and> blocks s' = blocks s \<and> api_gc_round api s' = api_gc_round api s \<and>
     distinct (map vb_reference new) \<and> committed s' = committed s \<union> refs_of new \<and> refs_of new \<inter> committed s = refs_of buffer \<and>
     ancestors_closed (api_gc_round api s) (blocks s) (committed s') (committed s') \<and>
     (\<forall>x \<in> set new. blocks s (vb_reference x) = Some x \<and> api_gc_round api s < vb_round x \<and>
        causal (blocks s) (api_gc_round api s) (refs_of buffer) (vb_reference x))"

lemma fresh_ancestors_facts:
  assumes ok: "buffer_ok s (x # rest)"
  defines "rs \<equiv> fresh_ancestors s x"
  shows "distinct rs" "\<forall>r \<in> set rs. blocks s r \<noteq> None \<and> api_gc_round api s < ref_round r \<and> r \<notin> committed s"
    "refs_of (map (\<lambda>r. the (blocks s r)) rs) = set rs" "map vb_reference (map (\<lambda>r. the (blocks s r)) rs) = rs"
    "\<forall>r \<in> set rs. ref_round r < vb_round x"
proof -
  have inv: "inv s" and x: "blocks s (vb_reference x) = Some x" "api_gc_round api s < vb_round x"
    using ok by (auto simp: buffer_ok_def)
  show "distinct rs" unfolding rs_def fresh_ancestors_def using distinct_law [OF inv x(1)] by simp
  show present: "\<forall>r \<in> set rs. blocks s r \<noteq> None \<and> api_gc_round api s < ref_round r \<and> r \<notin> committed s"
    unfolding rs_def fresh_ancestors_def using complete_aboveD [OF complete_law [OF inv] x(1)] x(2) by auto
  show refs: "map vb_reference (map (\<lambda>r. the (blocks s r)) rs) = rs"
    by (rule map_reference_lookup [OF refs_law [OF inv]]) (use present in blast)
  show "refs_of (map (\<lambda>r. the (blocks s r)) rs) = set rs" by (metis refs set_map)
  show "\<forall>r \<in> set rs. ref_round r < vb_round x"
    using rounds_decreaseD [OF round_law [OF inv] x(1)] by (auto simp: rs_def fresh_ancestors_def)
qed

lemma buffer_step:
  assumes ok: "buffer_ok s (x # rest)"
  shows "\<exists>s1. for_each (linearize_push api) (map (\<lambda>r. the (blocks s r)) (fresh_ancestors s x)) (rest, s) =
       Some (rev (map (\<lambda>r. the (blocks s r)) (fresh_ancestors s x)) @ rest, s1) \<and>
     buffer_ok s1 (rev (map (\<lambda>r. the (blocks s r)) (fresh_ancestors s x)) @ rest) \<and>
     blocks s1 = blocks s \<and> api_gc_round api s1 = api_gc_round api s \<and> committed s1 = committed s \<union> set (fresh_ancestors s x)"
proof -
  let ?rs = "fresh_ancestors s x" and ?bs = "map (\<lambda>r. the (blocks s r)) (fresh_ancestors s x)" and ?gc = "api_gc_round api s"
  note f = fresh_ancestors_facts [OF ok]
  have inv: "inv s" and x: "blocks s (vb_reference x) = Some x" "?gc < vb_round x" "vb_reference x \<in> committed s"
    and rest: "\<forall>y \<in> set rest. blocks s (vb_reference y) = Some y \<and> ?gc < vb_round y \<and> vb_reference y \<in> committed s"
    and dist: "distinct (map vb_reference (x # rest))"
    and closed: "ancestors_closed ?gc (blocks s) (committed s - refs_of (x # rest)) (committed s)"
    using ok by (auto simp: buffer_ok_def)
  obtain s1 where s1: "for_each (linearize_push api) ?bs (rest, s) = Some (rev ?bs @ rest, s1)"
    "inv s1" "blocks s1 = blocks s" "api_gc_round api s1 = ?gc" "committed s1 = committed s \<union> set ?rs"
    using push_all [OF inv f(1,2)] by blast
  have new: "\<forall>y \<in> set ?bs. blocks s (vb_reference y) = Some y \<and> ?gc < vb_round y \<and> vb_reference y \<in> set ?rs"
  proof
    fix y assume "y \<in> set ?bs"
    then obtain r where r: "r \<in> set ?rs" "blocks s r = Some y" using f(2) by auto
    then have "vb_reference y = r" using refs_law [OF inv] by (simp add: refs_match_def)
    then show "blocks s (vb_reference y) = Some y \<and> ?gc < vb_round y \<and> vb_reference y \<in> set ?rs"
      using r f(2) by auto
  qed
  have xa: "a \<in> committed s \<union> set ?rs" if "a \<in> set (vb_ancestors x)" "?gc < ref_round a" for a
    using that by (auto simp: fresh_ancestors_def)
  have "ancestors_closed ?gc (blocks s) (committed s1 - refs_of (rev ?bs @ rest)) (committed s1)"
    unfolding ancestors_closed_def s1(5)
  proof (intro allI impI)
    fix r b a
    assume r: "r \<in> committed s \<union> set ?rs - refs_of (rev ?bs @ rest)" and b: "blocks s r = Some b" "?gc < ref_round r"
      and a: "a \<in> set (vb_ancestors b)" "?gc < ref_round a"
    have "r \<in> committed s" "r \<notin> refs_of rest" using r f(3) by (auto simp: image_Un)
    show "a \<in> committed s \<union> set ?rs"
    proof (cases "r = vb_reference x")
      case True
      then have "b = x" using b(1) x(1) by simp
      then show ?thesis using xa a by simp
    next
      case False
      then have "r \<in> committed s - refs_of (x # rest)" using \<open>r \<in> committed s\<close> \<open>r \<notin> refs_of rest\<close> by simp
      then show ?thesis using closed b a unfolding ancestors_closed_def by blast
    qed
  qed
  moreover have "distinct (map vb_reference (rev ?bs @ rest))"
  proof -
    have "map vb_reference (rev ?bs @ rest) = rev ?rs @ map vb_reference rest"
      using f(4) by (simp only: map_append rev_map [symmetric])
    then show ?thesis using f(1,2) dist rest by auto
  qed
  ultimately have "buffer_ok s1 (rev ?bs @ rest)"
    unfolding buffer_ok_def s1(3,4) using s1(2,5) new rest by auto
  then show ?thesis using s1 by blast
qed

lemma buffer_decreases:
  assumes ok: "buffer_ok s (x # rest)"
  shows "(mset (map vb_round (rev (map (\<lambda>r. the (blocks s r)) (fresh_ancestors s x)) @ rest)), mset (map vb_round (x # rest)))
     \<in> mult less_than"
proof -
  let ?bs = "map (\<lambda>r. the (blocks s r)) (fresh_ancestors s x)"
  note f = fresh_ancestors_facts [OF ok]
  have "map vb_round ?bs = map ref_round (fresh_ancestors s x)"
    using arg_cong [OF f(4), of "map ref_round"] by (simp add: comp_def)
  then have "\<forall>n \<in># mset (map vb_round (rev ?bs)). n < vb_round x" using f(5) by (auto simp: rev_map [symmetric])
  then show ?thesis
    using one_step_implies_mult [of "{#vb_round x#}" "mset (map vb_round (rev ?bs))" less_than "mset (map vb_round rest)"]
    by (simp add: add.commute)
qed

lemma collected_step:
  assumes ok: "buffer_ok s (x # rest)" and bs: "refs_of bs = set (fresh_ancestors s x)"
    and s1: "blocks s1 = blocks s" "api_gc_round api s1 = api_gc_round api s" "committed s1 = committed s \<union> set (fresh_ancestors s x)"
    and col: "collected s1 (bs @ rest) s' new"
  shows "collected s (x # rest) s' (x # new)"
proof -
  let ?rs = "set (fresh_ancestors s x)" and ?gc = "api_gc_round api s"
  note f = fresh_ancestors_facts [OF ok]
  have x: "blocks s (vb_reference x) = Some x" "?gc < vb_round x" "vb_reference x \<in> committed s" "vb_reference x \<notin> refs_of rest"
    "refs_of rest \<subseteq> committed s"
    using ok by (auto simp: buffer_ok_def)
  have c: "inv s'" "blocks s' = blocks s" "api_gc_round api s' = ?gc" "distinct (map vb_reference new)"
    "committed s' = committed s \<union> ?rs \<union> refs_of new" "refs_of new \<inter> (committed s \<union> ?rs) = ?rs \<union> refs_of rest"
    "ancestors_closed ?gc (blocks s) (committed s') (committed s')"
    "\<forall>y \<in> set new. blocks s (vb_reference y) = Some y \<and> ?gc < vb_round y \<and> causal (blocks s) ?gc (?rs \<union> refs_of rest) (vb_reference y)"
    using col unfolding collected_def s1 by (auto simp: image_Un bs)
  have rs: "?rs \<inter> committed s = {}" "?rs \<subseteq> refs_of new" using f(2) c(6) by auto
  have "vb_reference x \<notin> refs_of new" using c(6) x rs(1) by blast
  moreover have "refs_of (x # new) \<inter> committed s = refs_of (x # rest)" using c(6) x rs by auto
  moreover have "committed s' = committed s \<union> refs_of (x # new)" using c(5) x rs(2) by auto
  moreover have "causal (blocks s) ?gc (refs_of (x # rest)) r" if "causal (blocks s) ?gc (?rs \<union> refs_of rest) r" for r
  proof (rule causal_trans [OF that])
    fix a assume "a \<in> ?rs \<union> refs_of rest"
    then show "causal (blocks s) ?gc (refs_of (x # rest)) a"
      using x(1,2) causal.step [OF causal.root [of "vb_reference x" "refs_of (x # rest)"], of ?gc "blocks s" x a]
      by (auto simp: fresh_ancestors_def intro: causal.root)
  qed
  ultimately show ?thesis
    using c(1-4,7,8) x unfolding collected_def by (auto intro: causal.root)
qed

lemma linearize_loop_spec:
  assumes "buffer_ok s buffer"
  shows "\<exists>new s'. linearize_loop api (api_gc_round api s) buffer acc s = Some (acc @ new, s') \<and> collected s buffer s' new"
  using assms
proof (induction "mset (map vb_round buffer)" arbitrary: buffer s acc rule: wf_induct_rule [OF wf_mult [OF wf_less_than]])
  case 1
  show ?case
  proof (cases buffer)
    case Nil
    then show ?thesis
      using 1(2) by (auto simp: linearize_loop.simps [of api _ "[]"] collected_def buffer_ok_def intro!: exI [of _ "[]"])
  next
    case (Cons x rest)
    let ?bs = "map (\<lambda>r. the (blocks s r)) (fresh_ancestors s x)"
    note ok = 1(2) [unfolded Cons] and f = fresh_ancestors_facts [OF 1(2) [unfolded Cons]]
    obtain s1 where s1: "for_each (linearize_push api) ?bs (rest, s) = Some (rev ?bs @ rest, s1)"
      "buffer_ok s1 (rev ?bs @ rest)" "blocks s1 = blocks s" "api_gc_round api s1 = api_gc_round api s"
      "committed s1 = committed s \<union> set (fresh_ancestors s x)"
      using buffer_step [OF ok] by blast
    have unc: "uncommitted_ancestors api (api_gc_round api s) s x = Some ?bs"
      by (rule uncommitted_ancestors_eq) (use ok in \<open>auto simp: buffer_ok_def\<close>)
    from 1(1) [OF buffer_decreases [OF ok, folded Cons] s1(2), of "acc @ [x]"] obtain new s' where
      new: "linearize_loop api (api_gc_round api s) (rev ?bs @ rest) (acc @ [x]) s1 = Some (acc @ [x] @ new, s')"
        "collected s1 (rev ?bs @ rest) s' new" using s1(4) by auto
    have "refs_of (rev ?bs) = set (fresh_ancestors s x)" using f(3) by simp
    from collected_step [OF ok this s1(3-5) new(2)] new(1) unc s1(1) show ?thesis
      by (intro exI [of _ "x # new"] exI [of _ s']) (simp add: Cons linearize_loop.simps [of api _ "x # rest"])
  qed
qed

text \<open>The sub-DAG of a leader: its causal history above the garbage collection round that was not committed before.\<close>

definition sub_dag_of :: "'s \<Rightarrow> verified_block \<Rightarrow> block_ref set" where
  "sub_dag_of s leader = {x. causal (blocks s) (api_gc_round api s) {vb_reference leader} x \<and>
     api_gc_round api s < ref_round x \<and> x \<notin> committed s}"

definition can_commit :: "'s \<Rightarrow> verified_block \<Rightarrow> bool" where
  "can_commit s leader \<longleftrightarrow> inv s \<and> blocks s (vb_reference leader) = Some leader \<and> api_gc_round api s < vb_round leader \<and>
     vb_reference leader \<notin> committed s \<and> ancestors_closed (api_gc_round api s) (blocks s) (committed s) (committed s)"

lemma mark_leader:
  assumes "can_commit s leader"
  shows "\<exists>s1. api_set_committed api s (vb_reference leader) = Some (s1, True) \<and> buffer_ok s1 [leader] \<and> blocks s1 = blocks s \<and>
     api_gc_round api s1 = api_gc_round api s \<and> committed s1 = insert (vb_reference leader) (committed s)"
proof -
  obtain s1 where s1: "api_set_committed api s (vb_reference leader) = Some (s1, True)" "inv s1" "blocks s1 = blocks s"
    "api_gc_round api s1 = api_gc_round api s" "committed s1 = insert (vb_reference leader) (committed s)"
    using set_law [of s "vb_reference leader"] assms by (auto simp: can_commit_def)
  moreover have "ancestors_closed (api_gc_round api s) (blocks s) (committed s - {vb_reference leader}) (insert (vb_reference leader) (committed s))"
    using assms unfolding can_commit_def ancestors_closed_def by blast
  ultimately have "buffer_ok s1 [leader]" using assms by (auto simp: buffer_ok_def can_commit_def)
  then show ?thesis using s1 by blast
qed

lemma collected_sub_dag:
  assumes leader: "can_commit s leader" and s1: "blocks s1 = blocks s" "api_gc_round api s1 = api_gc_round api s"
      "committed s1 = insert (vb_reference leader) (committed s)"
    and col: "collected s1 [leader] s' new"
  shows "refs_of new = sub_dag_of s leader" "committed s' = committed s \<union> refs_of new"
proof -
  let ?gc = "api_gc_round api s"
  have c: "committed s' = insert (vb_reference leader) (committed s) \<union> refs_of new"
    "refs_of new \<inter> insert (vb_reference leader) (committed s) = {vb_reference leader}"
    "ancestors_closed ?gc (blocks s) (committed s') (committed s')"
    "\<forall>x \<in> set new. ?gc < vb_round x \<and> causal (blocks s) ?gc {vb_reference leader} (vb_reference x)"
    using col unfolding collected_def s1 by auto
  have l: "vb_reference leader \<in> refs_of new" "vb_reference leader \<notin> committed s" "inv s"
    using c(2) leader by (auto simp: can_commit_def)
  show com: "committed s' = committed s \<union> refs_of new" using c(1) l(1) by auto
  show "refs_of new = sub_dag_of s leader"
  proof (intro equalityI subsetI)
    fix x assume x: "x \<in> refs_of new"
    have "x \<notin> committed s"
    proof
      assume "x \<in> committed s"
      then have "x \<in> refs_of new \<inter> insert (vb_reference leader) (committed s)" using x by simp
      then show False using \<open>x \<in> committed s\<close> l(2) unfolding c(2) by simp
    qed
    then show "x \<in> sub_dag_of s leader" using x c(4) unfolding sub_dag_of_def by auto
  next
    fix x assume x: "x \<in> sub_dag_of s leader"
    then have "x \<in> committed s'"
      using ancestors_closed_causal [OF _ _ c(3)] l round_law [OF l(3)] unfolding sub_dag_of_def com by blast
    then show "x \<in> refs_of new" using x com by (auto simp: sub_dag_of_def)
  qed
qed

lemma linearize_sub_dag_spec:
  assumes leader: "can_commit s leader"
  shows "\<exists>bs s'. linearize_sub_dag api leader s = Some (bs, s') \<and> inv s' \<and> blocks s' = blocks s \<and>
     api_gc_round api s' = api_gc_round api s \<and> committed s' = committed s \<union> sub_dag_of s leader \<and>
     ancestors_closed (api_gc_round api s) (blocks s) (committed s') (committed s') \<and>
     distinct (map vb_reference bs) \<and> sorted (map (\<lambda>b. (vb_round b, vb_author b)) bs) \<and>
     refs_of bs = sub_dag_of s leader \<and> (\<forall>b \<in> set bs. blocks s (vb_reference b) = Some b)"
proof -
  obtain s1 where s1: "api_set_committed api s (vb_reference leader) = Some (s1, True)" "buffer_ok s1 [leader]" "blocks s1 = blocks s"
     "api_gc_round api s1 = api_gc_round api s" "committed s1 = insert (vb_reference leader) (committed s)"
    using mark_leader [OF leader] by blast
  obtain new s' where new: "linearize_loop api (api_gc_round api s) [leader] [] s1 = Some (new, s')" "collected s1 [leader] s' new"
    using linearize_loop_spec [OF s1(2), of "[]"] s1(4) by auto
  note sub = collected_sub_dag [OF leader s1(3-5) new(2)]
  have c: "inv s'" "blocks s' = blocks s" "api_gc_round api s' = api_gc_round api s" "distinct (map vb_reference new)"
    "ancestors_closed (api_gc_round api s) (blocks s) (committed s') (committed s')"
    "\<forall>x \<in> set new. blocks s (vb_reference x) = Some x \<and> api_gc_round api s < vb_round x"
    using new(2) unfolding collected_def s1 by auto
  have "list_all (\<lambda>b. api_gc_round api s < vb_round b) new" using c(6) by (simp add: list_all_iff)
  then have "linearize_sub_dag api leader s = Some (sort_sub_dag_blocks new, s')"
    using s1(1) new(1) by (simp add: linearize_sub_dag_def Let_def)
  moreover have "set (sort_sub_dag_blocks new) = set new" "sorted (map (\<lambda>b. (vb_round b, vb_author b)) (sort_sub_dag_blocks new))"
    by (simp_all add: sort_sub_dag_blocks_def)
  moreover have "distinct (map vb_reference (sort_sub_dag_blocks new))"
    using c(4) by (simp add: sort_sub_dag_blocks_def distinct_map)
  ultimately show ?thesis using c sub by (intro exI [of _ "sort_sub_dag_blocks new"] exI [of _ s']) auto
qed

end

text \<open>
  Two stores that agree on the blocks they share and on what was committed above the garbage
  collection round produce the same sub-DAG, in the same order.
\<close>

locale store_pair =
  L: block_store_api_laws api1 inv1 blocks1 committed1 + R: block_store_api_laws api2 inv2 blocks2 committed2
  for api1 :: "'s block_store_api" and inv1 blocks1 committed1
    and api2 :: "'t block_store_api" and inv2 blocks2 committed2
begin

definition agree :: "'s \<Rightarrow> 't \<Rightarrow> bool" where
  "agree s t \<longleftrightarrow> api_gc_round api2 t = api_gc_round api1 s \<and>
     (\<forall>r. api_gc_round api1 s < ref_round r \<longrightarrow> (r \<in> committed1 s \<longleftrightarrow> r \<in> committed2 t)) \<and>
     (\<forall>r x y. blocks1 s r = Some x \<longrightarrow> blocks2 t r = Some y \<longrightarrow> x = y)"

lemma fresh_agree:
  assumes "agree s t" and "L.buffer_ok s (x # rest)" and "R.buffer_ok t (x # rest)"
  shows "R.fresh_ancestors t x = L.fresh_ancestors s x"
    and "map (\<lambda>r. the (blocks2 t r)) (L.fresh_ancestors s x) = map (\<lambda>r. the (blocks1 s r)) (L.fresh_ancestors s x)"
proof -
  show eq: "R.fresh_ancestors t x = L.fresh_ancestors s x"
    using assms(1) unfolding R.fresh_ancestors_def L.fresh_ancestors_def agree_def by (auto intro!: filter_cong)
  have "blocks1 s r \<noteq> None" "blocks2 t r \<noteq> None" if "r \<in> set (L.fresh_ancestors s x)" for r
    using L.fresh_ancestors_facts(2) [OF assms(2)] R.fresh_ancestors_facts(2) [OF assms(3)] that eq by auto
  then show "map (\<lambda>r. the (blocks2 t r)) (L.fresh_ancestors s x) = map (\<lambda>r. the (blocks1 s r)) (L.fresh_ancestors s x)"
    using assms(1) unfolding agree_def by fastforce
qed

lemma loops_agree:
  assumes "agree s t" and "L.buffer_ok s buffer" and "R.buffer_ok t buffer"
  shows "\<exists>new s' t'. linearize_loop api1 (api_gc_round api1 s) buffer acc s = Some (new, s') \<and>
     linearize_loop api2 (api_gc_round api2 t) buffer acc t = Some (new, t')"
  using assms
proof (induction "mset (map vb_round buffer)" arbitrary: buffer s t acc rule: wf_induct_rule [OF wf_mult [OF wf_less_than]])
  case 1
  show ?case
  proof (cases buffer)
    case Nil
    then show ?thesis by (simp add: linearize_loop.simps [of _ _ "[]"])
  next
    case (Cons x rest)
    note okL = 1(3) [unfolded Cons] and okR = 1(4) [unfolded Cons]
    let ?rs = "L.fresh_ancestors s x" and ?bs = "map (\<lambda>r. the (blocks1 s r)) (L.fresh_ancestors s x)"
    note eq = fresh_agree [OF 1(2) okL okR]
    obtain s1 where s1: "for_each (linearize_push api1) ?bs (rest, s) = Some (rev ?bs @ rest, s1)"
      "L.buffer_ok s1 (rev ?bs @ rest)" "blocks1 s1 = blocks1 s" "api_gc_round api1 s1 = api_gc_round api1 s"
      "committed1 s1 = committed1 s \<union> set ?rs"
      using L.buffer_step [OF okL] by blast
    obtain t1 where t1: "for_each (linearize_push api2) ?bs (rest, t) = Some (rev ?bs @ rest, t1)"
      "R.buffer_ok t1 (rev ?bs @ rest)" "blocks2 t1 = blocks2 t" "api_gc_round api2 t1 = api_gc_round api2 t"
      "committed2 t1 = committed2 t \<union> set ?rs"
      using R.buffer_step [OF okR] unfolding eq by blast
    have unc: "uncommitted_ancestors api1 (api_gc_round api1 s) s x = Some ?bs"
      "uncommitted_ancestors api2 (api_gc_round api2 t) t x = Some ?bs"
      using L.uncommitted_ancestors_eq [of s x] R.uncommitted_ancestors_eq [of t x] okL okR eq
      by (auto simp: L.buffer_ok_def R.buffer_ok_def)
    have ag: "agree s1 t1" using 1(2) unfolding agree_def s1(3-5) t1(3-5) by auto
    from 1(1) [OF L.buffer_decreases [OF okL, folded Cons] ag s1(2) t1(2), of "acc @ [x]"] unc s1(1,4) t1(1,4)
    show ?thesis by (auto simp: Cons linearize_loop.simps [of _ _ "x # rest"])
  qed
qed

lemma sub_dags_agree:
  assumes "agree s t" and "L.can_commit s leader" and "R.can_commit t leader"
  shows "\<exists>bs s' t'. linearize_sub_dag api1 leader s = Some (bs, s') \<and> linearize_sub_dag api2 leader t = Some (bs, t')"
proof -
  obtain s1 where s1: "api_set_committed api1 s (vb_reference leader) = Some (s1, True)" "L.buffer_ok s1 [leader]"
    "blocks1 s1 = blocks1 s" "api_gc_round api1 s1 = api_gc_round api1 s" "committed1 s1 = insert (vb_reference leader) (committed1 s)"
    using L.mark_leader [OF assms(2)] by blast
  obtain t1 where t1: "api_set_committed api2 t (vb_reference leader) = Some (t1, True)" "R.buffer_ok t1 [leader]"
    "blocks2 t1 = blocks2 t" "api_gc_round api2 t1 = api_gc_round api2 t" "committed2 t1 = insert (vb_reference leader) (committed2 t)"
    using R.mark_leader [OF assms(3)] by blast
  have gc: "api_gc_round api2 t = api_gc_round api1 s" using assms(1) by (simp add: agree_def)
  have "agree s1 t1" using assms(1) unfolding agree_def s1(3-5) t1(3-5) by auto
  from loops_agree [OF this s1(2) t1(2), of "[]"] obtain new s' t' where
    new: "linearize_loop api1 (api_gc_round api1 s) [leader] [] s1 = Some (new, s')"
      "linearize_loop api2 (api_gc_round api2 t) [leader] [] t1 = Some (new, t')" unfolding s1(4) t1(4) by blast
  have "\<forall>b \<in> set new. api_gc_round api1 s < vb_round b"
    using L.linearize_loop_spec [OF s1(2), of "[]"] new(1) s1(4) by (auto simp: L.collected_def)
  then show ?thesis
    using new s1(1) t1(1) gc by (simp add: linearize_sub_dag_def Let_def list_all_iff)
qed

end

end
