(* ===== verification/Commit_Timestamps.thy ===== *)
theory Commit_Timestamps
  imports Linearizer
begin

text \<open>
  The commit timestamp as a stake-weighted median: less than half of the stake is earlier, more than
  half is not later, and it lies between the timestamps of correct authorities.
\<close>

section \<open>The scan\<close>

abbreviation stake_where :: "(nat \<Rightarrow> bool) \<Rightarrow> (nat \<times> stake) list \<Rightarrow> stake" where
  "stake_where P xs \<equiv> sum_list (map snd (filter (\<lambda>(ts, _). P ts) xs))"

lemma stake_where_le: "stake_where P xs \<le> sum_list (map snd xs)"
  by (induction xs) auto

lemma median_scan_spec:
  assumes "sorted (map fst xs)" and "cum + sum_list (map snd xs) \<le> u64_max" and "cum \<le> half" "half < cum + sum_list (map snd xs)"
  shows "\<exists>ts. median_scan half cum xs = Some ts \<and> ts \<in> fst ` set xs \<and>
     cum + stake_where (\<lambda>t. t < ts) xs \<le> half \<and> half < cum + stake_where (\<lambda>t. t \<le> ts) xs"
  using assms
proof (induction xs arbitrary: cum)
  case (Cons x xs)
  obtain t st where x: "x = (t, st)" by (cases x)
  have add: "add_u64 cum st = cum + st" using Cons.prems(2) x by simp
  show ?case
  proof (cases "half < cum + st")
    case True
    have "filter (\<lambda>(ts, _). ts < t) xs = []" using Cons.prems(1) x by (auto simp: filter_empty_conv)
    then show ?thesis using True add x Cons.prems(3) by auto
  next
    case False
    then obtain ts where ts: "median_scan half (cum + st) xs = Some ts" "ts \<in> fst ` set xs"
      "cum + st + stake_where (\<lambda>t. t < ts) xs \<le> half" "half < cum + st + stake_where (\<lambda>t. t \<le> ts) xs"
      using Cons.IH [of "cum + st"] Cons.prems x by auto
    then have "t \<le> ts" using Cons.prems(1) x by auto
    then show ?thesis using ts False add x by (intro exI [of _ ts]) auto
  qed
qed simp

lemma stake_where_sort: "stake_where P (sort_key f xs) = stake_where P xs"
  by (simp flip: sum_mset_sum_list)

lemma median_inner_spec:
  assumes "sum_list (map snd xs) \<le> u64_max" and "0 < sum_list (map snd xs)"
  shows "\<exists>ts. median_timestamps_by_stake_inner xs (sum_list (map snd xs)) = Some ts \<and> ts \<in> fst ` set xs \<and>
     stake_where (\<lambda>t. t < ts) xs \<le> sum_list (map snd xs) div 2 \<and> sum_list (map snd xs) div 2 < stake_where (\<lambda>t. t \<le> ts) xs"
proof -
  let ?ys = "sort_key fst xs" and ?total = "sum_list (map snd xs)"
  have total: "sum_list (map snd ?ys) = ?total" using stake_where_sort [of "\<lambda>_. True" fst xs] by simp
  have "sorted (map fst ?ys)" "0 + sum_list (map snd ?ys) \<le> u64_max" "0 \<le> ?total div 2" "?total div 2 < 0 + sum_list (map snd ?ys)"
    using assms total by simp_all
  from median_scan_spec [OF this] obtain ts where "median_scan (?total div 2) 0 ?ys = Some ts" "ts \<in> fst ` set ?ys"
    "stake_where (\<lambda>t. t < ts) ?ys \<le> ?total div 2" "?total div 2 < stake_where (\<lambda>t. t \<le> ts) ?ys" by auto
  then show ?thesis
    by (intro exI [of _ ts]) (simp add: median_timestamps_by_stake_inner_def Let_def stake_where_sort)
qed

section \<open>Blocks of distinct authorities\<close>

definition stamps :: "committee \<Rightarrow> verified_block list \<Rightarrow> (nat \<times> stake) list" where
  "stamps c bs = map (\<lambda>b. (vb_timestamp_ms b, auth_stake (com_authorities c ! vb_author b))) bs"

definition stamped :: "(nat \<Rightarrow> bool) \<Rightarrow> verified_block list \<Rightarrow> authority_index set" where
  "stamped P bs = {vb_author b |b. b \<in> set bs \<and> P (vb_timestamp_ms b)}"

lemma stake_where_weight:
  assumes "distinct (map vb_author bs)"
  shows "stake_where P (stamps c bs) = weight c (stamped P bs)"
  using assms
proof (induction bs)
  case (Cons b bs)
  have fin: "finite (stamped P bs)" unfolding stamped_def by simp
  have new: "vb_author b \<notin> stamped P bs" using Cons.prems by (auto simp: stamped_def)
  have "stamped P (b # bs) = (if P (vb_timestamp_ms b) then insert (vb_author b) (stamped P bs) else stamped P bs)"
    by (auto simp: stamped_def)
  then show ?case using Cons fin new by (simp add: weight_insert stamps_def)
qed (simp add: stamps_def stamped_def)

lemma median_stakes:
  assumes "\<forall>b \<in> set bs. vb_author b \<in> members (ctx_committee ctx)"
  shows "traverse (\<lambda>b. do {
       a \<leftarrow> committee_authority (ctx_committee ctx) (vb_author b); Some (vb_timestamp_ms b, auth_stake a) }) bs =
     Some (stamps (ctx_committee ctx) bs)"
  unfolding stamps_def
  by (rule traverse_total) (use assms in \<open>auto simp: committee_authority_def members_def committee_size_def\<close>)

definition parents_ok :: "committee \<Rightarrow> verified_block list \<Rightarrow> bool" where
  "parents_ok c bs \<longleftrightarrow> distinct (map vb_author bs) \<and> (\<forall>b \<in> set bs. vb_author b \<in> members c)"

lemma parents_stake:
  assumes wf: "committee_wf c" and ok: "parents_ok c bs"
  shows "sum_list (map snd (stamps c bs)) = weight c (vb_author ` set bs)" "weight c (vb_author ` set bs) \<le> u64_max"
    "foldl add_u64 0 (map snd (stamps c bs)) = weight c (vb_author ` set bs)"
proof -
  have "stamped (\<lambda>_. True) bs = vb_author ` set bs" by (auto simp: stamped_def)
  then show sum: "sum_list (map snd (stamps c bs)) = weight c (vb_author ` set bs)"
    using stake_where_weight [of bs "\<lambda>_. True" c] ok by (simp add: parents_ok_def)
  show "weight c (vb_author ` set bs) \<le> u64_max"
    using weight_le_total [OF wf, of "vb_author ` set bs"] wf_bounds(5) [OF wf] ok by (fastforce simp: parents_ok_def)
  then show "foldl add_u64 0 (map snd (stamps c bs)) = weight c (vb_author ` set bs)"
    using foldl_add_u64_exact [of 0 "map snd (stamps c bs)"] sum by simp
qed

definition weighted_median :: "committee \<Rightarrow> verified_block list \<Rightarrow> nat \<Rightarrow> bool" where
  "weighted_median c bs ts \<longleftrightarrow> ts \<in> vb_timestamp_ms ` set bs \<and>
     weight c (stamped (\<lambda>t. t < ts) bs) \<le> weight c (vb_author ` set bs) div 2 \<and>
     weight c (vb_author ` set bs) div 2 < weight c (stamped (\<lambda>t. t \<le> ts) bs)"

lemma median_of_quorum:
  assumes wf: "committee_wf (ctx_committee ctx)" and ok: "parents_ok (ctx_committee ctx) bs"
    and q: "is_quorum (ctx_committee ctx) (vb_author ` set bs)"
  shows "\<exists>ts. median_timestamp_by_stake ctx bs = Some (Inr ts) \<and> weighted_median (ctx_committee ctx) bs ts"
proof -
  let ?c = "ctx_committee ctx"
  note st = parents_stake [OF wf ok]
  have pos: "com_quorum_threshold ?c \<le> weight ?c (vb_author ` set bs)" "0 < weight ?c (vb_author ` set bs)"
    using q wf_bounds(1) [OF wf] by (auto simp: is_quorum_def reached_quorum_def)
  then have "bs \<noteq> []" by auto
  moreover obtain ts where ts: "median_timestamps_by_stake_inner (stamps ?c bs) (weight ?c (vb_author ` set bs)) = Some ts"
    "ts \<in> fst ` set (stamps ?c bs)" "stake_where (\<lambda>t. t < ts) (stamps ?c bs) \<le> weight ?c (vb_author ` set bs) div 2"
    "weight ?c (vb_author ` set bs) div 2 < stake_where (\<lambda>t. t \<le> ts) (stamps ?c bs)"
    using median_inner_spec [of "stamps ?c bs"] st pos(2) by auto
  moreover have "weighted_median ?c bs ts"
    using ts(2-4) ok stake_where_weight [of bs] unfolding weighted_median_def parents_ok_def
    by (auto simp: stamps_def)
  moreover have "stamps ?c bs = [] \<longleftrightarrow> bs = []" by (simp add: stamps_def)
  moreover have "traverse (\<lambda>b. do {
      a \<leftarrow> committee_authority ?c (vb_author b); Some (vb_timestamp_ms b, auth_stake a) }) bs = Some (stamps ?c bs)"
    by (rule median_stakes) (use ok in \<open>simp add: parents_ok_def\<close>)
  ultimately show ?thesis
    unfolding median_timestamp_by_stake_def using pos(1) by (simp add: st(3) Let_def)
qed

text \<open>More than half of a quorum is more than any set below the validity threshold.\<close>

lemma half_of_quorum: "f < (t + 2) div 3 \<Longrightarrow> 2 * t div 3 + 1 \<le> w \<Longrightarrow> 2 * f < (w :: nat)"
  using div_times_less_eq_dividend [of "t + 2" 3] dividend_less_div_times [of 3 "2 * t"] by linarith

lemma weighted_median_honest:
  assumes wf: "committee_wf c" and ok: "parents_ok c bs" and q: "is_quorum c (vb_author ` set bs)"
    and med: "weighted_median c bs ts" and F: "F \<subseteq> members c" "below_validity c F"
  shows "\<exists>b \<in> set bs. vb_author b \<notin> F \<and> vb_timestamp_ms b \<le> ts" "\<exists>b \<in> set bs. vb_author b \<notin> F \<and> ts \<le> vb_timestamp_ms b"
proof -
  let ?w = "weight c (vb_author ` set bs)"
  have "2 * weight c F < ?w"
    using half_of_quorum q F(2) wf
    unfolding is_quorum_def reached_quorum_def below_validity_def reached_validity_def committee_wf_def by (metis not_le)
  then have few: "weight c F \<le> ?w div 2" "2 * weight c F < ?w" by linarith+
  have out: "\<exists>a \<in> S. a \<notin> F" if "weight c F < weight c S" for S
    using that weight_mono [of S F c] finite_subset_members [OF F(1)] by (meson not_less subsetI)
  have "weight c F < weight c (stamped (\<lambda>t. t \<le> ts) bs)" using med few(1) by (simp add: weighted_median_def)
  from out [OF this] show "\<exists>b \<in> set bs. vb_author b \<notin> F \<and> vb_timestamp_ms b \<le> ts" by (auto simp: stamped_def)
  have disj: "stamped (\<lambda>t. t < ts) bs \<union> stamped (\<lambda>t. ts \<le> t) bs = vb_author ` set bs"
    unfolding stamped_def using le_less_linear [of ts] by blast
  have fin: "finite (stamped (\<lambda>t. t < ts) bs)" "finite (stamped (\<lambda>t. ts \<le> t) bs)" by (simp_all add: stamped_def)
  have "weight c F < weight c (stamped (\<lambda>t. ts \<le> t) bs)"
    using weight_Un_Int [OF fin, of c, unfolded disj] med few(2) unfolding weighted_median_def by linarith
  from out [OF this] show "\<exists>b \<in> set bs. vb_author b \<notin> F \<and> ts \<le> vb_timestamp_ms b" by (auto simp: stamped_def)
qed

lemma median_errors:
  assumes wf: "committee_wf (ctx_committee ctx)" and ok: "parents_ok (ctx_committee ctx) bs"
    and nq: "\<not> is_quorum (ctx_committee ctx) (vb_author ` set bs)"
  shows "median_timestamp_by_stake ctx bs = Some (Inl (if bs = [] then NoBlocksProvided else
     TotalStakeBelowQuorum (weight (ctx_committee ctx) (vb_author ` set bs)) (com_quorum_threshold (ctx_committee ctx))))"
proof -
  let ?c = "ctx_committee ctx"
  have "traverse (\<lambda>b. do {
      a \<leftarrow> committee_authority ?c (vb_author b); Some (vb_timestamp_ms b, auth_stake a) }) bs = Some (stamps ?c bs)"
    by (rule median_stakes) (use ok in \<open>simp add: parents_ok_def\<close>)
  moreover have "stamps ?c bs = [] \<longleftrightarrow> bs = []" by (simp add: stamps_def)
  moreover have "weight ?c (vb_author ` set bs) < com_quorum_threshold ?c"
    using nq by (simp add: is_quorum_def reached_quorum_def)
  ultimately show ?thesis
    unfolding median_timestamp_by_stake_def by (simp add: parents_stake(3) [OF wf ok] Let_def)
qed

end
