(* ===== verification/Sub_Dags.thy ===== *)
theory Sub_Dags
  imports Commit_Timestamps
begin

text \<open>
  The linearizer on \<open>DagState\<close>: the laws of the store interface hold in every state that satisfies the
  invariant, and \<open>handle_commit\<close> turns a committed leader into the next sub-DAG and commit. Two
  states that agree on shared blocks, on the last commit and on the committed blocks give equal
  results.
\<close>

section \<open>DagState as a store\<close>

definition committed_refs :: "dag_state \<Rightarrow> block_ref set" where
  "committed_refs ds = {r. \<exists>info. fmlookup (ds_recent_blocks ds) r = Some info \<and> bi_committed info}"

lemma dag_api_sel [simp]:
  "api_get_blocks (dag_state_api ctx) = get_blocks" "api_gc_round (dag_state_api ctx) = gc_round ctx"
  "api_set_committed (dag_state_api ctx) = set_committed" "api_is_committed (dag_state_api ctx) = is_committed"
  by (simp_all add: dag_state_api_def)

lemma dag_inv_cached:
  assumes "dag_inv ctx G ds" and "ds_blocks ds r \<noteq> None" and "gc_round ctx ds < ref_round r"
  shows "\<exists>info. fmlookup (ds_recent_blocks ds) r = Some info"
  using assms cached_above_gc [of ctx ds r] by (auto simp: dag_inv_def)

lemma dag_inv_facts:
  assumes "dag_inv ctx G ds"
  shows "dag_view (ctx_committee ctx) G (gc_round ctx ds) (ds_blocks ds)" "committee_wf (ctx_committee ctx)"
    "length (ds_last_committed_rounds ds) = committee_size (ctx_committee ctx)" "fmdom (ds_genesis ds) = G"
  using assms by (auto simp: dag_inv_def ds_inv_def clock_ok_def refs_inv_def)

lemma set_committed_dag:
  assumes inv: "dag_inv ctx G ds" and r: "ds_blocks ds r \<noteq> None" "gc_round ctx ds < ref_round r"
  shows "\<exists>ds'. set_committed ds r = Some (ds', r \<notin> committed_refs ds) \<and> dag_inv ctx G ds' \<and> ds_blocks ds' = ds_blocks ds \<and>
     gc_round ctx ds' = gc_round ctx ds \<and> committed_refs ds' = insert r (committed_refs ds)"
proof -
  obtain info where info: "fmlookup (ds_recent_blocks ds) r = Some info" using dag_inv_cached [OF inv r] by blast
  have "\<exists>ds'. set_committed ds r = Some (ds', r \<notin> committed_refs ds) \<and> committed_refs ds' = insert r (committed_refs ds)"
  proof (cases "bi_committed info")
    case True
    then have "r \<in> committed_refs ds" using info by (simp add: committed_refs_def)
    then show ?thesis using True info by (auto simp: set_committed_def)
  next
    case False
    then have "r \<notin> committed_refs ds" using info by (simp add: committed_refs_def)
    moreover have "committed_refs (ds\<lparr> ds_recent_blocks := fmupd r (info\<lparr> bi_committed := True \<rparr>) (ds_recent_blocks ds) \<rparr>) =
        insert r (committed_refs ds)"
      by (auto simp: committed_refs_def split: if_splits)
    ultimately show ?thesis using False info by (simp add: set_committed_def)
  qed
  then obtain ds' where ds': "set_committed ds r = Some (ds', r \<notin> committed_refs ds)" "committed_refs ds' = insert r (committed_refs ds)"
    by blast
  have same: "same_dag ds ds'" "gc_round ctx ds' = gc_round ctx ds"
    using set_committed_same [OF ds'(1)] gc_round_cong by blast+
  then show ?thesis
    using ds' same_dag_dag_inv [OF inv same(1)] same_dag_blocks [OF same(1)] by auto
qed

text \<open>The linearizer changes the committed flags only.\<close>

definition flags_only :: "dag_state \<Rightarrow> dag_state \<Rightarrow> bool" where
  "flags_only ds ds' \<longleftrightarrow> (\<exists>m. ds' = ds\<lparr> ds_recent_blocks := m \<rparr>)"

lemma flags_only_refl: "flags_only ds ds"
  unfolding flags_only_def by (rule exI [of _ "ds_recent_blocks ds"]) simp

lemma flags_only_trans: "flags_only a b \<Longrightarrow> flags_only b c \<Longrightarrow> flags_only a c"
  unfolding flags_only_def by auto

lemma set_committed_flags: "set_committed ds r = Some (ds', fresh) \<Longrightarrow> flags_only ds ds'"
  using flags_only_refl by (auto simp: set_committed_def flags_only_def Option.bind_eq_Some_conv split: if_splits)

interpretation dsl: block_store_api_laws "dag_state_api ctx" "\<lambda>s. dag_inv ctx G s \<and> flags_only ds0 s" ds_blocks committed_refs
proof
  fix s r b refs
  assume invs: "dag_inv ctx G s \<and> flags_only ds0 s"
  then have inv: "dag_inv ctx G s" by simp
  note view = dag_inv_facts(1) [OF inv]
  show "api_get_blocks (dag_state_api ctx) s refs = map (ds_blocks s) refs" by (simp add: get_blocks_eq)
  show "refs_match (ds_blocks s)" "complete_above (api_gc_round (dag_state_api ctx) s) (ds_blocks s)"
    using view by (simp_all add: dag_view_def)
  show "rounds_decrease (ds_blocks s)" by (rule view_rounds_decrease [OF view])
  show "distinct (vb_ancestors b)" if "ds_blocks s r = Some b" using view_ancestors(1) [OF view that] by (simp add: distinct_map)
  assume r: "ds_blocks s r \<noteq> None" "api_gc_round (dag_state_api ctx) s < ref_round r"
  show "api_is_committed (dag_state_api ctx) s r = Some (r \<in> committed_refs s)"
    using dag_inv_cached [OF inv r(1)] r(2) by (auto simp: is_committed_def committed_refs_def)
  show "\<exists>s'. api_set_committed (dag_state_api ctx) s r = Some (s', r \<notin> committed_refs s) \<and> (dag_inv ctx G s' \<and> flags_only ds0 s') \<and>
      ds_blocks s' = ds_blocks s \<and> api_gc_round (dag_state_api ctx) s' = api_gc_round (dag_state_api ctx) s \<and>
      committed_refs s' = insert r (committed_refs s)"
    using set_committed_dag [OF inv] r invs flags_only_trans [OF _ set_committed_flags] by fastforce
qed

interpretation dsp: store_pair "dag_state_api ctx1" "\<lambda>s. dag_inv ctx1 G1 s \<and> flags_only ds1 s" ds_blocks committed_refs
  "dag_state_api ctx2" "\<lambda>s. dag_inv ctx2 G2 s \<and> flags_only ds2 s" ds_blocks committed_refs
  by (intro store_pair.intro) (rule dsl.block_store_api_laws_axioms)+


section \<open>The timestamp of a commit\<close>

definition leader_parents :: "dag_state \<Rightarrow> verified_block \<Rightarrow> verified_block list" where
  "leader_parents ds l = map (\<lambda>r. the (ds_blocks ds r)) (filter (\<lambda>r. ref_round r + 1 = vb_round l) (vb_ancestors l))"

definition next_leader :: "consensus_context \<Rightarrow> dag_state \<Rightarrow> verified_block \<Rightarrow> bool" where
  "next_leader ctx ds l \<longleftrightarrow> ds_blocks ds (vb_reference l) = Some l \<and> last_commit_round ds < vb_round l \<and> 0 < gc_depth ctx"

lemma next_leader_above_gc: "next_leader ctx ds l \<Longrightarrow> gc_round ctx ds < vb_round l"
  using gc_round_le [of ctx ds] by (simp add: next_leader_def)

lemma next_leader_round:
  assumes "dag_inv ctx G ds" and "next_leader ctx ds l"
  shows "0 < vb_round l" "vb_round l < u32_max"
proof -
  show "0 < vb_round l" using assms(2) by (simp add: next_leader_def)
  obtain info where "fmlookup (ds_recent_blocks ds) (vb_reference l) = Some info"
    using dag_inv_cached [OF assms(1)] next_leader_above_gc [OF assms(2)] assms(2) by (force simp: next_leader_def)
  then have "ref_round (vb_reference l) < u32_max"
    using assms(1) unfolding dag_inv_def ds_inv_def recent_inv_def by blast
  then show "vb_round l < u32_max" by simp
qed

lemma parents_present:
  assumes inv: "dag_inv ctx G ds" and l: "next_leader ctx ds l" and a: "a \<in> set (vb_ancestors l)" "ref_round a + 1 = vb_round l"
  shows "ds_blocks ds a \<noteq> None"
proof (cases "ref_round a = 0")
  case True
  have "block_ok (ctx_committee ctx) G (vb_block l)"
    using view_block_ok [OF dag_inv_facts(1) [OF inv], of "vb_reference l" l] l next_leader_round(1) [OF inv l]
    by (simp add: next_leader_def)
  then have "a |\<in>| G" using a(1) True by (auto simp: block_ok_def ancestors_ok_def GENESIS_ROUND_def)
  then show ?thesis
    using True dag_inv_facts(4) [OF inv] by (auto simp: ds_blocks_def GENESIS_ROUND_def fmdom_iff)
next
  case False
  have "gc_round ctx ds < ref_round a"
    using l a(2) False by (auto simp: next_leader_def gc_round_def calculate_gc_round_def)
  then show ?thesis
    using complete_aboveD [of "gc_round ctx ds" "ds_blocks ds" "vb_reference l" l a] dag_inv_facts(1) [OF inv] l a(1)
      next_leader_above_gc [OF l] by (auto simp: dag_view_def next_leader_def)
qed

lemma leader_parents_ok:
  assumes inv: "dag_inv ctx G ds" and l: "next_leader ctx ds l"
  shows "parents_ok (ctx_committee ctx) (leader_parents ds l)"
    and "is_quorum (ctx_committee ctx) (vb_author ` set (leader_parents ds l))"
proof -
  let ?as = "filter (\<lambda>r. ref_round r + 1 = vb_round l) (vb_ancestors l)"
  note view = dag_inv_facts(1) [OF inv]
  have lb: "ds_blocks ds (vb_reference l) = Some l" using l by (simp add: next_leader_def)
  have "map vb_reference (leader_parents ds l) = ?as"
    unfolding leader_parents_def
    by (rule map_reference_lookup) (use view parents_present [OF inv l] in \<open>auto simp: dag_view_def\<close>)
  then have au: "map vb_author (leader_parents ds l) = map ref_author ?as"
    by (metis (no_types, lifting) list.map_comp map_eq_conv comp_apply vb_reference_sel(2))
  then have set: "vb_author ` set (leader_parents ds l) = ref_author ` set ?as" by (metis set_map)
  have "distinct (map ref_author ?as)" using view_ancestors(1) [OF view lb] by (simp add: distinct_map_filter)
  moreover have "vb_author ` set (leader_parents ds l) \<subseteq> members (ctx_committee ctx)"
    unfolding set using view_ancestors(2) [OF view lb] by auto
  ultimately show "parents_ok (ctx_committee ctx) (leader_parents ds l)" by (auto simp: parents_ok_def au)
  have "ref_author ` set ?as = {ref_author a |a. a \<in> set (vb_ancestors l) \<and> ref_round a + 1 = ref_round (vb_reference l)}" by auto
  then show "is_quorum (ctx_committee ctx) (vb_author ` set (leader_parents ds l))"
    using view_parents [OF view lb] next_leader_round(1) [OF inv l] by (simp add: set)
qed

lemma commit_timestamp_median:
  assumes inv: "dag_inv ctx G ds" and l: "next_leader ctx ds l"
  shows "calculate_commit_timestamp ctx (dag_state_api ctx) ds l t =
       (case median_timestamp_by_stake ctx (leader_parents ds l) of Some (Inr ts) \<Rightarrow> Some (max ts t) | _ \<Rightarrow> None)"
proof -
  have "sub_u32 (vb_round l) 1 = vb_round l - 1"
    using next_leader_round [OF inv l] by (intro sub_u32_exact) auto
  then have "filter (\<lambda>r. ref_round r = sub_u32 (vb_round l) 1) (vb_ancestors l) =
      filter (\<lambda>r. ref_round r + 1 = vb_round l) (vb_ancestors l)"
    using next_leader_round(1) [OF inv l] by (intro filter_cong) auto
  moreover have "traverse (\<lambda>b. b) (map (ds_blocks ds) (filter (\<lambda>r. ref_round r + 1 = vb_round l) (vb_ancestors l))) =
      Some (leader_parents ds l)"
    using parents_present [OF inv l] by (auto simp: traverse_Some_conv leader_parents_def)
  ultimately show ?thesis
    by (auto simp: calculate_commit_timestamp_def Let_def get_blocks_eq split: option.splits sum.splits)
qed

lemma commit_timestamp_exists:
  assumes inv: "dag_inv ctx G ds" and l: "next_leader ctx ds l"
  shows "\<exists>ts. calculate_commit_timestamp ctx (dag_state_api ctx) ds l t = Some (max ts t) \<and>
     weighted_median (ctx_committee ctx) (leader_parents ds l) ts"
  using median_of_quorum [OF dag_inv_facts(2) [OF inv] leader_parents_ok [OF inv l]] commit_timestamp_median [OF inv l] by auto

section \<open>Committing a leader\<close>

definition commit_inv :: "consensus_context \<Rightarrow> dag_state \<Rightarrow> bool" where
  "commit_inv ctx ds \<longleftrightarrow>
     ancestors_closed (gc_round ctx ds) (ds_blocks ds) (committed_refs ds) (committed_refs ds) \<and>
     (\<forall>r \<in> committed_refs ds. ref_round r \<le> last_commit_round ds)"

definition sub_dag :: "consensus_context \<Rightarrow> dag_state \<Rightarrow> verified_block \<Rightarrow> block_ref set" where
  "sub_dag ctx ds l = {x. causal (ds_blocks ds) (gc_round ctx ds) {vb_reference l} x \<and> gc_round ctx ds < ref_round x \<and>
     x \<notin> committed_refs ds}"

lemma next_leader_can_commit:
  assumes "dag_inv ctx G ds" and "commit_inv ctx ds" and "next_leader ctx ds l"
  shows "dsl.can_commit ctx G ds ds l"
  using assms next_leader_above_gc [OF assms(3)] flags_only_refl
  unfolding dsl.can_commit_def commit_inv_def next_leader_def by fastforce

lemma linearize_dag:
  assumes "dag_inv ctx G ds" and "commit_inv ctx ds" and "next_leader ctx ds l"
  shows "\<exists>bs ds'. linearize_sub_dag (dag_state_api ctx) l ds = Some (bs, ds') \<and> dag_inv ctx G ds' \<and> flags_only ds ds' \<and>
     ds_blocks ds' = ds_blocks ds \<and> committed_refs ds' = committed_refs ds \<union> sub_dag ctx ds l \<and>
     ancestors_closed (gc_round ctx ds) (ds_blocks ds) (committed_refs ds') (committed_refs ds') \<and>
     distinct (map vb_reference bs) \<and> sorted (map (\<lambda>b. (vb_round b, vb_author b)) bs) \<and>
     vb_reference ` set bs = sub_dag ctx ds l \<and> (\<forall>b \<in> set bs. ds_blocks ds (vb_reference b) = Some b)"
  using dsl.linearize_sub_dag_spec [OF next_leader_can_commit [OF assms]]
  unfolding dsl.sub_dag_of_def sub_dag_def dag_api_sel by blast

lemma flags_only_frame:
  assumes "flags_only ds ds'"
  shows "ds_last_commit ds' = ds_last_commit ds" "ds_last_committed_rounds ds' = ds_last_committed_rounds ds"
    "gc_round ctx ds' = gc_round ctx ds"
  using assms by (auto simp: flags_only_def gc_round_def last_commit_round_def)

definition sub_dag_ok :: "consensus_context \<Rightarrow> dag_state \<Rightarrow> verified_block \<Rightarrow> committed_sub_dag \<Rightarrow> bool" where
  "sub_dag_ok ctx ds l sub \<longleftrightarrow>
     csd_leader sub = vb_reference l \<and> vb_reference ` set (csd_blocks sub) = sub_dag ctx ds l \<and>
     distinct (map vb_reference (csd_blocks sub)) \<and> sorted (map (\<lambda>b. (vb_round b, vb_author b)) (csd_blocks sub)) \<and>
     (\<forall>b \<in> set (csd_blocks sub). ds_blocks ds (vb_reference b) = Some b) \<and>
     (\<exists>ts. weighted_median (ctx_committee ctx) (leader_parents ds l) ts \<and>
        csd_timestamp_ms sub = max ts (last_commit_timestamp_ms ds)) \<and>
     cref_index (csd_commit_ref sub) = last_commit_index ds + 1"

lemma collect_spec:
  assumes inv: "dag_inv ctx G ds" "commit_inv ctx ds" and l: "next_leader ctx ds l"
    and idx: "last_commit_index ds < u32_max" and ser: "\<And>c. \<exists>bytes. cr_bcs_commit cr c = Inr bytes"
  shows "\<exists>sub tc ds'. collect_sub_dag_and_commit cr ctx l ds = Some (sub, tc, ds') \<and> sub_dag_ok ctx ds l sub \<and>
     tc_leader tc = vb_reference l \<and> tc_index tc = last_commit_index ds + 1 \<and> tc_timestamp_ms tc = csd_timestamp_ms sub \<and>
     tc_blocks tc = map vb_reference (csd_blocks sub) \<and> dag_inv ctx G ds' \<and> flags_only ds ds' \<and> ds_blocks ds' = ds_blocks ds \<and>
     committed_refs ds' = committed_refs ds \<union> sub_dag ctx ds l \<and>
     ancestors_closed (gc_round ctx ds) (ds_blocks ds) (committed_refs ds') (committed_refs ds')"
proof -
  obtain bs ds' where bs: "linearize_sub_dag (dag_state_api ctx) l ds = Some (bs, ds')" "dag_inv ctx G ds'" "flags_only ds ds'"
     "ds_blocks ds' = ds_blocks ds" "committed_refs ds' = committed_refs ds \<union> sub_dag ctx ds l"
     "ancestors_closed (gc_round ctx ds) (ds_blocks ds) (committed_refs ds') (committed_refs ds')"
     "distinct (map vb_reference bs)" "sorted (map (\<lambda>b. (vb_round b, vb_author b)) bs)"
     "vb_reference ` set bs = sub_dag ctx ds l" "\<forall>b \<in> set bs. ds_blocks ds (vb_reference b) = Some b"
    using linearize_dag [OF inv l] by blast
  have l': "next_leader ctx ds' l" and par: "leader_parents ds' l = leader_parents ds l"
    using l flags_only_frame(1) [OF bs(3)] bs(4) by (simp_all add: next_leader_def leader_parents_def last_commit_round_def)
  obtain ts where ts: "calculate_commit_timestamp ctx (dag_state_api ctx) ds' l (last_commit_timestamp_ms ds) =
      Some (max ts (last_commit_timestamp_ms ds))" "weighted_median (ctx_committee ctx) (leader_parents ds l) ts"
    using commit_timestamp_exists [OF bs(2) l'] par by metis
  let ?c = "commit_new (add_u32 (last_commit_index ds) 1) (last_commit_digest ds) (max ts (last_commit_timestamp_ms ds))
     (vb_reference l) (map vb_reference bs)"
  obtain bytes where bytes: "cr_bcs_commit cr ?c = Inr bytes" using ser by blast
  have "collect_sub_dag_and_commit cr ctx l ds = Some (committed_sub_dag_new (vb_reference l) bs
      (max ts (last_commit_timestamp_ms ds)) (tc_reference (new_trusted cr ?c bytes)), new_trusted cr ?c bytes, ds')"
    using bytes by (simp add: collect_sub_dag_and_commit_def bs(1) ts(1) Let_def)
  moreover have "sub_dag_ok ctx ds l (committed_sub_dag_new (vb_reference l) bs
      (max ts (last_commit_timestamp_ms ds)) (tc_reference (new_trusted cr ?c bytes)))"
    using bs(7-10) ts(2) idx
    by (auto simp: sub_dag_ok_def committed_sub_dag_new_def tc_reference_def new_trusted_def)
  ultimately show ?thesis
    using bs(2-6) idx
    by (intro exI [of _ "committed_sub_dag_new (vb_reference l) bs
          (max ts (last_commit_timestamp_ms ds)) (tc_reference (new_trusted cr ?c bytes))"]
        exI [of _ "new_trusted cr ?c bytes"] exI [of _ ds'])
      (simp add: new_trusted_def committed_sub_dag_new_def)
qed

lemma pruned_metric_total:
  assumes inv: "dag_inv ctx G ds" and bs: "\<forall>b \<in> set (csd_blocks sub). ds_blocks ds (vb_reference b) = Some b"
  shows "\<exists>labels. update_blocks_pruned_metric ctx ds sub = Some labels"
proof -
  let ?c = "ctx_committee ctx" and ?rounds = "ds_last_committed_rounds ds"
  let ?as = "concat (map vb_ancestors (csd_blocks sub))"
  have mem: "ref_author a < committee_size ?c" if "a \<in> set ?as" for a
    using that bs view_ancestors(2) [OF dag_inv_facts(1) [OF inv]] by (fastforce simp: members_def)
  note len = dag_inv_facts(3) [OF inv]
  let ?P = "\<lambda>a. ref_round a \<le> gc_round ctx ds \<and> ?rounds ! ref_author a \<noteq> ref_round a"
  have "filter_rs (\<lambda>a. if ref_round a \<le> gc_round ctx ds then map_option (\<lambda>r. r \<noteq> ref_round a) (vec_get ?rounds (ref_author a))
      else Some False) ?as = Some (filter ?P ?as)"
    by (rule filter_rs_eq) (use mem len in auto)
  moreover have "traverse (\<lambda>a. do { _ \<leftarrow> committee_authority ?c (ref_author a); committed \<leftarrow> vec_get ?rounds (ref_author a);
      Some (a, committed < ref_round a) }) (rev (remdups (rev (filter ?P ?as)))) =
      Some (map (\<lambda>a. (a, ?rounds ! ref_author a < ref_round a)) (rev (remdups (rev (filter ?P ?as)))))"
    by (rule traverse_total) (use mem len in \<open>auto simp: committee_authority_def committee_size_def\<close>)
  ultimately show ?thesis by (simp add: update_blocks_pruned_metric_def)
qed

lemma bump_total:
  assumes "\<forall>r \<in> set refs. ref_author r < length xs"
  shows "\<exists>ys. for_each bump_committed_round refs xs = Some ys \<and> length ys = length xs"
  by (rule for_each_returns [where P = "\<lambda>ys. length ys = length xs"]) (use assms in \<open>auto simp: bump_committed_round_def\<close>)

lemma add_commit_next:
  assumes inv: "dag_inv ctx G ds" and idx: "tc_index tc = last_commit_index ds + 1" "last_commit_index ds < u32_max"
    and ts: "last_commit_timestamp_ms ds \<le> tc_timestamp_ms tc" and au: "\<forall>r \<in> set (tc_blocks tc). ref_author r \<in> members (ctx_committee ctx)"
  shows "\<exists>ds'. add_commit ctx ds tc = Some ds' \<and> ds_last_commit ds' = Some tc \<and> ds_recent_blocks ds' = ds_recent_blocks ds"
proof -
  have "add_commit_checks ds tc = Some True"
    using idx ts by (cases "ds_last_commit ds") (auto simp: add_commit_checks_def last_commit_index_def last_commit_timestamp_ms_def)
  moreover obtain ys where ys: "for_each bump_committed_round (tc_blocks tc) (ds_last_committed_rounds ds) = Some ys"
    "length ys = committee_size (ctx_committee ctx)"
    using bump_total [of "tc_blocks tc" "ds_last_committed_rounds ds"] au dag_inv_facts(3) [OF inv] by (auto simp: members_def)
  moreover have "traverse (to_authority_index (ctx_committee ctx)) [0..<length ys] = Some [0..<length ys]"
    using ys(2) traverse_total [of "[0..<length ys]" "to_authority_index (ctx_committee ctx)" id] by (simp add: to_authority_index_def)
  ultimately show ?thesis by (simp add: add_commit_def)
qed

lemma committed_refs_cong: "ds_recent_blocks ds' = ds_recent_blocks ds \<Longrightarrow> committed_refs ds' = committed_refs ds"
  by (simp add: committed_refs_def)

lemma ancestors_closed_mono: "ancestors_closed gc B S T \<Longrightarrow> gc \<le> gc' \<Longrightarrow> ancestors_closed gc' B S T"
  unfolding ancestors_closed_def by (meson le_less_trans)

lemma sub_dag_round: "dag_inv ctx G ds \<Longrightarrow> x \<in> sub_dag ctx ds l \<Longrightarrow> ref_round x \<le> vb_round l"
  using causal_round_le [of "ds_blocks ds" "gc_round ctx ds" "{vb_reference l}" x "vb_round l"]
    view_rounds_decrease [OF dag_inv_facts(1)] by (auto simp: sub_dag_def)

lemma handle_leader_spec:
  assumes inv: "dag_inv ctx G ds" "commit_inv ctx ds" and l: "next_leader ctx ds l"
    and idx: "last_commit_index ds < u32_max" and ser: "\<And>c. \<exists>bytes. cr_bcs_commit cr c = Inr bytes"
  shows "\<exists>sub ds'. handle_leader cr ctx l (out, ds) = Some (out @ [sub], ds') \<and> sub_dag_ok ctx ds l sub \<and>
     dag_inv ctx G ds' \<and> commit_inv ctx ds' \<and> ds_blocks ds' = ds_blocks ds \<and>
     last_commit_index ds' = last_commit_index ds + 1 \<and> last_commit_round ds' = vb_round l \<and>
     last_commit_timestamp_ms ds' = csd_timestamp_ms sub \<and> committed_refs ds' = committed_refs ds \<union> sub_dag ctx ds l \<and>
     map_option (\<lambda>(sub, tc, ds1). (sub, Some tc)) (collect_sub_dag_and_commit cr ctx l ds) = Some (sub, ds_last_commit ds')"
proof -
  obtain sub tc ds1 where c: "collect_sub_dag_and_commit cr ctx l ds = Some (sub, tc, ds1)" "sub_dag_ok ctx ds l sub"
    "tc_leader tc = vb_reference l" "tc_index tc = last_commit_index ds + 1" "tc_timestamp_ms tc = csd_timestamp_ms sub"
    "tc_blocks tc = map vb_reference (csd_blocks sub)" "dag_inv ctx G ds1" "flags_only ds ds1" "ds_blocks ds1 = ds_blocks ds"
    "committed_refs ds1 = committed_refs ds \<union> sub_dag ctx ds l"
    "ancestors_closed (gc_round ctx ds) (ds_blocks ds) (committed_refs ds1) (committed_refs ds1)"
    using collect_spec [OF inv l idx ser] by metis
  have same: "last_commit_index ds1 = last_commit_index ds" "last_commit_timestamp_ms ds1 = last_commit_timestamp_ms ds"
    "last_commit_round ds1 = last_commit_round ds" "gc_round ctx ds1 = gc_round ctx ds"
    using flags_only_frame [OF c(8)] by (simp_all add: last_commit_index_def last_commit_timestamp_ms_def last_commit_round_def)
  have blocks: "\<forall>b \<in> set (csd_blocks sub). ds_blocks ds1 (vb_reference b) = Some b"
    and refs: "vb_reference ` set (csd_blocks sub) = sub_dag ctx ds l" using c(2,9) by (simp_all add: sub_dag_ok_def)
  have au: "\<forall>r \<in> set (tc_blocks tc). ref_author r \<in> members (ctx_committee ctx)"
  proof
    fix r assume "r \<in> set (tc_blocks tc)"
    then obtain b where "b \<in> set (csd_blocks sub)" "r = vb_reference b" using c(6) by auto
    then have "ds_blocks ds1 r = Some b" "r \<in> sub_dag ctx ds l" using blocks refs by auto
    then have "0 < ref_round r" "ds_blocks ds1 r \<noteq> None" by (auto simp: sub_dag_def)
    then show "ref_author r \<in> members (ctx_committee ctx)" using view_author [OF dag_inv_facts(1) [OF c(7)]] by blast
  qed
  have tsm: "last_commit_timestamp_ms ds1 \<le> tc_timestamp_ms tc" using c(2,5) same(2) by (auto simp: sub_dag_ok_def)
  have ix: "tc_index tc = last_commit_index ds1 + 1" "last_commit_index ds1 < u32_max" using c(4) same(1) idx by simp_all
  obtain ds2 where ds2: "add_commit ctx ds1 tc = Some ds2" "ds_last_commit ds2 = Some tc" "ds_recent_blocks ds2 = ds_recent_blocks ds1"
    using add_commit_next [OF c(7) ix tsm au] by blast
  have same2: "same_dag ds1 ds2" using add_commit_same [OF ds2(1)] by simp
  have gc: "gc_round ctx ds1 \<le> gc_round ctx ds2" "last_commit_round ds2 = vb_round l"
    using gc_round_commit [OF ds2(2)] c(3) l same(3) ds2(2) by (auto simp: next_leader_def last_commit_round_def)
  have com: "committed_refs ds2 = committed_refs ds \<union> sub_dag ctx ds l" using committed_refs_cong [OF ds2(3)] c(10) by simp
  have B: "ds_blocks ds2 = ds_blocks ds" using same_dag_blocks [OF same2] c(9) by simp
  have "ancestors_closed (gc_round ctx ds2) (ds_blocks ds2) (committed_refs ds2) (committed_refs ds2)"
    using ancestors_closed_mono [OF c(11)] gc(1) same(4) c(10) by (simp add: B com)
  moreover have "ref_round r \<le> vb_round l" if "r \<in> committed_refs ds2" for r
    using that sub_dag_round [OF inv(1)] inv(2) l unfolding com commit_inv_def next_leader_def by fastforce
  ultimately have "commit_inv ctx ds2" by (simp add: commit_inv_def gc(2))
  moreover have "handle_leader cr ctx l (out, ds) = Some (out @ [sub], ds2)"
    using c(1) ds2(1) pruned_metric_total [OF c(7) blocks] by (auto simp: handle_leader_def)
  ultimately show ?thesis
    using c(1,2,4,5) ds2(2) gc(2) B com same_dag_dag_inv [OF c(7) same2 gc(1)]
    by (auto simp: last_commit_index_def last_commit_timestamp_ms_def)
qed

section \<open>Two validators\<close>

definition same_commits :: "consensus_context \<Rightarrow> dag_state \<Rightarrow> dag_state \<Rightarrow> bool" where
  "same_commits ctx ds1 ds2 \<longleftrightarrow> ds_last_commit ds2 = ds_last_commit ds1 \<and>
     (\<forall>r. gc_round ctx ds1 < ref_round r \<longrightarrow> (r \<in> committed_refs ds1 \<longleftrightarrow> r \<in> committed_refs ds2))"

definition same_epoch :: "consensus_context \<Rightarrow> consensus_context \<Rightarrow> bool" where
  "same_epoch ctx1 ctx2 \<longleftrightarrow> ctx_committee ctx2 = ctx_committee ctx1 \<and> gc_depth ctx2 = gc_depth ctx1"

lemma same_epoch_gc: "same_epoch ctx1 ctx2 \<Longrightarrow> ds_last_commit ds2 = ds_last_commit ds1 \<Longrightarrow> gc_round ctx2 ds2 = gc_round ctx1 ds1"
  by (simp add: same_epoch_def gc_round_def calculate_gc_round_def last_commit_round_def)

lemma same_parents:
  assumes "dag_inv ctx1 G1 ds1" "next_leader ctx1 ds1 l" "dag_inv ctx2 G2 ds2" "next_leader ctx2 ds2 l" "same_blocks ds1 ds2"
  shows "leader_parents ds2 l = leader_parents ds1 l"
proof -
  have "the (ds_blocks ds2 a) = the (ds_blocks ds1 a)" if "a \<in> set (vb_ancestors l)" "ref_round a + 1 = vb_round l" for a
    using parents_present [OF assms(1,2) that] parents_present [OF assms(3,4) that] assms(5)
    unfolding same_blocks_def by (metis option.collapse)
  then show ?thesis by (simp add: leader_parents_def)
qed

lemma median_cong: "ctx_committee ctx = ctx_committee ctx' \<Longrightarrow> median_timestamp_by_stake ctx = median_timestamp_by_stake ctx'"
  by (rule ext) (simp add: median_timestamp_by_stake_def cong: if_cong)

lemma collect_agree:
  assumes n1: "dag_inv ctx1 G1 ds1" "commit_inv ctx1 ds1" "next_leader ctx1 ds1 l"
    and n2: "dag_inv ctx2 G2 ds2" "commit_inv ctx2 ds2" "next_leader ctx2 ds2 l"
    and ep: "same_epoch ctx1 ctx2" and sb: "same_blocks ds1 ds2" and sc: "same_commits ctx1 ds1 ds2"
  shows "map_option (\<lambda>(sub, tc, ds'). (sub, Some tc)) (collect_sub_dag_and_commit cr ctx1 l ds1) =
     map_option (\<lambda>(sub, tc, ds'). (sub, Some tc)) (collect_sub_dag_and_commit cr ctx2 l ds2)"
proof -
  have lc: "ds_last_commit ds2 = ds_last_commit ds1" using sc by (simp add: same_commits_def)
  have "dsp.agree ctx1 ctx2 ds1 ds2"
    using sc sb same_epoch_gc [OF ep lc] by (simp add: dsp.agree_def same_commits_def same_blocks_def)
  from dsp.sub_dags_agree [OF this next_leader_can_commit [OF n1] next_leader_can_commit [OF n2]]
  obtain bs d1 d2 where d: "linearize_sub_dag (dag_state_api ctx1) l ds1 = Some (bs, d1)" "linearize_sub_dag (dag_state_api ctx2) l ds2 = Some (bs, d2)"
    by blast
  have d1: "dag_inv ctx1 G1 d1" "flags_only ds1 d1" "ds_blocks d1 = ds_blocks ds1" using linearize_dag [OF n1] d(1) by auto
  have d2: "dag_inv ctx2 G2 d2" "flags_only ds2 d2" "ds_blocks d2 = ds_blocks ds2" using linearize_dag [OF n2] d(2) by auto
  have l1: "next_leader ctx1 d1 l" and l2: "next_leader ctx2 d2 l"
    using n1(3) n2(3) d1(3) d2(3) flags_only_frame(1) [OF d1(2)] flags_only_frame(1) [OF d2(2)]
    by (simp_all add: next_leader_def last_commit_round_def)
  have "leader_parents d2 l = leader_parents d1 l"
    by (rule same_parents [OF d1(1) l1 d2(1) l2]) (use sb d1(3) d2(3) in \<open>simp add: same_blocks_def\<close>)
  then have "calculate_commit_timestamp ctx2 (dag_state_api ctx2) d2 l t = calculate_commit_timestamp ctx1 (dag_state_api ctx1) d1 l t" for t
    unfolding commit_timestamp_median [OF d1(1) l1] commit_timestamp_median [OF d2(1) l2]
    using median_cong [of ctx2 ctx1] ep by (simp add: same_epoch_def)
  moreover have "last_commit_index ds2 = last_commit_index ds1" "last_commit_digest ds2 = last_commit_digest ds1"
    "last_commit_timestamp_ms ds2 = last_commit_timestamp_ms ds1"
    using lc by (simp_all add: last_commit_index_def last_commit_digest_def last_commit_timestamp_ms_def)
  ultimately show ?thesis
    unfolding collect_sub_dag_and_commit_def using d
    by (auto simp: Let_def split: option.splits sum.splits Option.bind_splits)
qed

lemma handle_leader_agree:
  assumes n1: "dag_inv ctx1 G1 ds1" "commit_inv ctx1 ds1" "next_leader ctx1 ds1 l"
    and n2: "dag_inv ctx2 G2 ds2" "commit_inv ctx2 ds2" "next_leader ctx2 ds2 l"
    and ep: "same_epoch ctx1 ctx2" and sb: "same_blocks ds1 ds2" and sc: "same_commits ctx1 ds1 ds2"
    and idx: "last_commit_index ds1 < u32_max" and ser: "\<And>c. \<exists>bytes. cr_bcs_commit cr c = Inr bytes"
  shows "\<exists>sub ds1' ds2'. handle_leader cr ctx1 l (out, ds1) = Some (out @ [sub], ds1') \<and>
     handle_leader cr ctx2 l (out, ds2) = Some (out @ [sub], ds2') \<and> same_commits ctx1 ds1' ds2'"
proof -
  have idx2: "last_commit_index ds2 < u32_max" using idx sc by (simp add: same_commits_def last_commit_index_def)
  obtain sub1 ds1' where h1: "handle_leader cr ctx1 l (out, ds1) = Some (out @ [sub1], ds1')" "sub_dag_ok ctx1 ds1 l sub1"
    "ds_blocks ds1' = ds_blocks ds1" "committed_refs ds1' = committed_refs ds1 \<union> sub_dag ctx1 ds1 l"
    "last_commit_round ds1' = vb_round l"
    "map_option (\<lambda>(sub, tc, ds1). (sub, Some tc)) (collect_sub_dag_and_commit cr ctx1 l ds1) = Some (sub1, ds_last_commit ds1')"
    using handle_leader_spec [OF n1 idx ser, of out] by (elim exE conjE) (rule that; assumption)
  obtain sub2 ds2' where h2: "handle_leader cr ctx2 l (out, ds2) = Some (out @ [sub2], ds2')" "sub_dag_ok ctx2 ds2 l sub2"
    "ds_blocks ds2' = ds_blocks ds2" "committed_refs ds2' = committed_refs ds2 \<union> sub_dag ctx2 ds2 l"
    "map_option (\<lambda>(sub, tc, ds1). (sub, Some tc)) (collect_sub_dag_and_commit cr ctx2 l ds2) = Some (sub2, ds_last_commit ds2')"
    using handle_leader_spec [OF n2 idx2 ser, of out] by (elim exE conjE) (rule that; assumption)
  have eq: "sub2 = sub1" "ds_last_commit ds2' = ds_last_commit ds1'"
    using collect_agree [OF n1 n2 ep sb sc, of cr] h1(6) h2(5) by simp_all
  have "gc_round ctx1 ds1 \<le> gc_round ctx1 ds1'"
    using h1(5) n1(3) by (simp add: gc_round_def calculate_gc_round_def next_leader_def diff_le_mono)
  moreover have "sub_dag ctx2 ds2 l = sub_dag ctx1 ds1 l" using h1(2) h2(2) eq(1) by (simp add: sub_dag_ok_def)
  ultimately have "same_commits ctx1 ds1' ds2'"
    using sc eq(2) unfolding same_commits_def h1(4) h2(4) by auto
  then show ?thesis using h1(1) h2(1) eq(1) by auto
qed

end
