(* ===== verification/Sample_States.thy ===== *)
theory Sample_States
  imports Dag_Steps
begin

text \<open>
  Concrete DAG states over the sample network, reached by accepting blocks, on which the theorems
  about \<open>DagState\<close> and the committers are instantiated. Nothing here models code.
\<close>

text \<open>States reached by accepting blocks that are ready; the input data of the witnesses.\<close>

definition accept_ready :: "consensus_context \<Rightarrow> verified_block \<Rightarrow> dag_state \<Rightarrow> dag_state option" where
  "accept_ready ctx b ds = (if ready ctx ds b then accept_block ctx b ds else None)"

definition sample_state :: "consensus_context \<Rightarrow> verified_block list \<Rightarrow> dag_state" where
  "sample_state ctx bs = the (for_each (accept_ready ctx) bs (initial_state ctx (the (genesis_blocks sample_crypto ctx))))"

definition sample_round :: "round \<Rightarrow> authority_index list \<Rightarrow> verified_block list" where
  "sample_round r as = map (\<lambda>a. sample_block r a (10 * r) (map (sample_ref (r - 1)) (a # remove1 a [0, 1, 2, 3]))) as"

definition sample_blocks :: "round \<Rightarrow> verified_block list" where
  "sample_blocks n = concat (map (\<lambda>r. sample_round r [0, 1, 2, 3]) [1..<n + 1])"

lemma accept_ready_reachable:
  assumes "dag_reachable cr ctx ds" and "for_each (accept_ready ctx) bs ds = Some ds'"
  shows "dag_reachable cr ctx ds'"
  by (rule for_each_invariant [where P = "dag_reachable cr ctx", OF assms(2,1)])
    (auto simp: accept_ready_def split: if_splits intro: dag_reachable.step dag_step.accept)

lemma sample_state_reachable:
  assumes "genesis_blocks sample_crypto ctx \<noteq> None"
    and "for_each (accept_ready ctx) bs (initial_state ctx (the (genesis_blocks sample_crypto ctx))) \<noteq> None"
  shows "dag_reachable sample_crypto ctx (sample_state ctx bs)"
proof -
  have "dag_reachable sample_crypto ctx (initial_state ctx (the (genesis_blocks sample_crypto ctx)))"
    using assms(1) by (intro dag_reachable.start) (auto simp: dag_state_new_empty)
  then show ?thesis
    using accept_ready_reachable assms(2) unfolding sample_state_def by (metis option.collapse)
qed

definition known_refs :: "dag_state \<Rightarrow> block_ref list" where
  "known_refs ds = btree_iter (fmdom (ds_genesis ds)) @ btree_iter (fmdom (ds_recent_blocks ds)) @
     map (\<lambda>(r, a, d). BlockRef r a d) (btree_iter (fmdom (ms_blocks (ds_store ds))))"

lemma known_refs_complete: "ds_blocks ds r \<noteq> None \<Longrightarrow> r \<in> set (known_refs ds)"
proof -
  assume "ds_blocks ds r \<noteq> None"
  then consider "r |\<in>| fmdom (ds_genesis ds)" | "r |\<in>| fmdom (ds_recent_blocks ds)" | "ms_blocks_of (ds_store ds) r \<noteq> None"
    by (auto simp: ds_blocks_def fmdom_iff split: if_splits option.splits)
  then show ?thesis
  proof cases
    case 3
    then have "block_key r |\<in>| fmdom (ms_blocks (ds_store ds))" by (simp add: ms_blocks_of_def fmdom_iff)
    then have "block_key r \<in> set (btree_iter (fmdom (ms_blocks (ds_store ds))))" by simp
    moreover have "r = (\<lambda>(r, a, d). BlockRef r a d) (block_key r)" by (simp add: block_key_def)
    ultimately show ?thesis unfolding known_refs_def set_append set_map by blast
  qed (simp_all add: known_refs_def)
qed

text \<open>Two validators: the first has four full rounds, the second misses a block of the last round.\<close>

definition sample_context1 :: consensus_context where
  "sample_context1 = sample_context\<lparr> own_index := 1 \<rparr>"

definition sample_view0 :: dag_state where
  "sample_view0 = sample_state sample_context (sample_blocks 4)"

definition sample_view1 :: dag_state where
  "sample_view1 = sample_state sample_context1 (sample_blocks 3 @ sample_round 4 [1, 2, 3])"

lemma sample_contexts_ok: "ctx_ok sample_context" "ctx_ok sample_context1"
  by (simp_all add: ctx_ok_def sample_context_def sample_context1_def sample_committee_wf sample_members)

lemma sample_view0_reachable: "dag_reachable sample_crypto sample_context sample_view0"
  unfolding sample_view0_def by (rule sample_state_reachable) code_simp+

lemma sample_view1_reachable: "dag_reachable sample_crypto sample_context1 sample_view1"
  unfolding sample_view1_def by (rule sample_state_reachable) code_simp+

end
