(* ===== verification/Node_Runs.thy ===== *)
theory Node_Runs
  imports Sub_Dags Sample_States "HOL-Library.Sublist"
begin

text \<open>
  Runs of a validator: from an empty store it accepts blocks, flushes, links, keeps its buffers and
  scores, and lets the linearizer handle the committed leaders one after the other, in any
  interleaving. A run records the leaders it committed and the sub-DAGs it handed to the application.
\<close>

section \<open>Steps\<close>

inductive quiet_step :: "consensus_context \<Rightarrow> dag_state \<Rightarrow> dag_state \<Rightarrow> bool" for ctx where
  accept: "ready ctx ds b \<Longrightarrow> accept_block ctx b ds = Some ds' \<Longrightarrow> quiet_step ctx ds ds'"
| flush: "flush ctx ds = Some ds' \<Longrightarrow> quiet_step ctx ds ds'"
| link_causal_history: "link_causal_history ctx ds r = Some (ds', linked) \<Longrightarrow> quiet_step ctx ds ds'"
| add_commit_info: "add_commit_info ds scores = Some ds' \<Longrightarrow> quiet_step ctx ds ds'"
| add_finalized_commit: "quiet_step ctx ds (add_finalized_commit ds cref rejected)"
| take_commit_votes: "quiet_step ctx ds (fst (take_commit_votes ds n))"
| add_scoring_subdags: "add_scoring_subdags ctx ds subdags = Some ds' \<Longrightarrow> quiet_step ctx ds ds'"
| clear_scoring_subdag: "quiet_step ctx ds (clear_scoring_subdag ds)"

inductive node_run ::
  "crypto \<Rightarrow> consensus_context \<Rightarrow> dag_state \<Rightarrow> verified_block list \<Rightarrow> committed_sub_dag list \<Rightarrow> bool" for cr ctx where
  start: "dag_state_new cr ctx ms_new = Some ds \<Longrightarrow> node_run cr ctx ds [] []"
| quiet: "node_run cr ctx ds ls out \<Longrightarrow> quiet_step ctx ds ds' \<Longrightarrow> node_run cr ctx ds' ls out"
| commit: "node_run cr ctx ds ls out \<Longrightarrow> next_leader ctx ds l \<Longrightarrow> last_commit_index ds < u32_max \<Longrightarrow>
    handle_leader cr ctx l (out, ds) = Some (out', ds') \<Longrightarrow> node_run cr ctx ds' (ls @ [l]) out'"

inductive_cases node_run_snoc: "node_run cr ctx ds (ls @ [l]) out"

lemma quiet_is_step: "quiet_step ctx ds ds' \<Longrightarrow> dag_step ctx ds ds'"
  by (induction rule: quiet_step.induct) (auto intro: dag_step.intros)

section \<open>What a quiet step changes\<close>

definition extends_quietly :: "consensus_context \<Rightarrow> dag_state \<Rightarrow> dag_state \<Rightarrow> bool" where
  "extends_quietly ctx ds ds' \<longleftrightarrow> ds_last_commit ds' = ds_last_commit ds \<and> ds_blocks ds \<subseteq>\<^sub>m ds_blocks ds' \<and>
     committed_refs ds' \<subseteq> committed_refs ds \<and>
     (\<forall>r \<in> committed_refs ds. gc_round ctx ds < ref_round r \<longrightarrow> r \<in> committed_refs ds')"

lemma accept_recent:
  assumes "accept_block ctx b ds = Some ds'"
  shows "ds_recent_blocks ds' = ds_recent_blocks ds \<or> contains_block ds (vb_reference b) = Some False \<and>
     ds_recent_blocks ds' = fmupd (vb_reference b) (block_info_new b) (ds_recent_blocks ds)"
  using assms
  by (auto simp: accept_block_def update_block_metadata_def Let_def Option.bind_eq_Some_conv split: if_splits)

lemma accept_quietly:
  assumes inv: "dag_inv ctx G ds" and ready: "ready ctx ds b" and acc: "accept_block ctx b ds = Some ds'"
  shows "extends_quietly ctx ds ds'"
proof -
  have inv': "ds_inv ctx ds" using inv by (simp add: dag_inv_def)
  have b: "block_ok (ctx_committee ctx) (fmdom (ds_genesis ds)) (vb_block b)" "vb_round b < u32_max" using ready by (auto simp: ready_def)
  have B: "ds_blocks ds' = (case ds_blocks ds (vb_reference b) of
        None \<Rightarrow> (ds_blocks ds)(vb_reference b \<mapsto> b) | Some _ \<Rightarrow> ds_blocks ds)"
    using accept_block_spec [OF inv' accept_block_acceptable [OF inv' b acc]] acc by auto
  then have "ds_blocks ds \<subseteq>\<^sub>m ds_blocks ds'" by (auto simp: map_le_def split: option.splits)
  moreover have "committed_refs ds' = committed_refs ds"
    using accept_recent [OF acc]
  proof
    assume new: "contains_block ds (vb_reference b) = Some False \<and>
      ds_recent_blocks ds' = fmupd (vb_reference b) (block_info_new b) (ds_recent_blocks ds)"
    have "ds_blocks ds (vb_reference b) = None"
      using contains_block_eq [OF inv', of "vb_reference b"] b(1) new by (auto simp: block_ok_def)
    then have "fmlookup (ds_recent_blocks ds) (vb_reference b) = None"
      using b(1) by (auto simp: ds_blocks_def block_ok_def GENESIS_ROUND_def split: option.splits)
    then show ?thesis using new by (auto simp: committed_refs_def block_info_new_def split: if_splits)
  qed (rule committed_refs_cong)
  ultimately show ?thesis using accept_block_frame(3) [OF acc] by (simp add: extends_quietly_def)
qed

lemma evict_sub:
  assumes "for_each (evict_authority ctx) as ds = Some ds'" and "fmlookup (ds_recent_blocks ds') r = Some info"
  shows "fmlookup (ds_recent_blocks ds) r = Some info"
proof -
  have "\<forall>info. fmlookup (ds_recent_blocks ds') r = Some info \<longrightarrow> fmlookup (ds_recent_blocks ds) r = Some info"
    by (rule for_each_invariant [where P = "\<lambda>d. \<forall>info. fmlookup (ds_recent_blocks d) r = Some info \<longrightarrow>
          fmlookup (ds_recent_blocks ds) r = Some info", OF assms(1)])
      (auto simp: evict_authority_def evict_loop_eq Let_def Option.bind_eq_Some_conv split: if_splits)
  then show ?thesis using assms(2) by blast
qed

lemma flush_quietly:
  assumes inv: "dag_inv ctx G ds" and fl: "flush ctx ds = Some ds'"
  shows "extends_quietly ctx ds ds'"
proof -
  have inv': "ds_inv ctx ds" using inv by (simp add: dag_inv_def)
  note keep = flush_keeps [OF inv' fl]
  have "ds_blocks ds' = ds_blocks ds" using flush_spec [OF inv'] fl by auto
  moreover have "fmlookup (ds_recent_blocks ds) r = Some info" if "fmlookup (ds_recent_blocks ds') r = Some info" for r info
    using fl that by (auto simp: flush_def Let_def split: if_splits dest!: evict_sub)
  then have "committed_refs ds' \<subseteq> committed_refs ds" unfolding committed_refs_def by blast
  moreover have "r \<in> committed_refs ds'" if "r \<in> committed_refs ds" "gc_round ctx ds < ref_round r" for r
    using that keep unfolding committed_refs_def by simp
  ultimately show ?thesis using keep by (simp add: extends_quietly_def)
qed

lemma same_dag_quietly:
  assumes "same_dag ds ds' \<and> ds_last_commit ds' = ds_last_commit ds" and "committed_refs ds' = committed_refs ds"
  shows "extends_quietly ctx ds ds'"
  using assms same_dag_blocks by (auto simp: extends_quietly_def)

lemma link_loop_committed:
  "link_loop gc m ts l = Some (m', l') \<Longrightarrow>
     {r. \<exists>info. fmlookup m' r = Some info \<and> bi_committed info} = {r. \<exists>info. fmlookup m r = Some info \<and> bi_committed info}"
proof (induction gc m ts l rule: link_loop.induct)
  case (2 gc m r ts l)
  show ?case
  proof (cases "ref_round r \<le> gc")
    case False
    then obtain info where look: "fmlookup m r = Some info" using "2.prems" by (auto split: option.splits)
    have "{x. \<exists>i. fmlookup (fmupd r (info\<lparr> bi_hard_linked := True \<rparr>) m) x = Some i \<and> bi_committed i} =
        {x. \<exists>i. fmlookup m x = Some i \<and> bi_committed i}" using look by (auto split: if_splits)
    then show ?thesis
      using "2.IH"(2,3) [OF False look] "2.prems" False look by (cases "bi_hard_linked info") auto
  qed (use 2 in auto)
qed simp

lemma quiet_step_extends:
  assumes "quiet_step ctx ds ds'" and "dag_inv ctx G ds"
  shows "extends_quietly ctx ds ds'"
  using assms
proof (induction rule: quiet_step.induct)
  case (accept ds b ds')
  then show ?case by (blast intro: accept_quietly)
next
  case (flush ds ds')
  then show ?case by (blast intro: flush_quietly)
next
  case (link_causal_history ds r ds' linked)
  then obtain m where "link_loop (gc_round ctx ds) (ds_recent_blocks ds) [r] [] = Some (m, linked)" "ds' = ds\<lparr> ds_recent_blocks := m \<rparr>"
    by (auto simp: link_causal_history_def Option.bind_eq_Some_conv simp del: link_loop.simps)
  then have "committed_refs ds' = committed_refs ds" using link_loop_committed by (simp add: committed_refs_def del: link_loop.simps)
  then show ?case using link_same [OF link_causal_history.hyps] by (intro same_dag_quietly) auto
next
  case (add_commit_info ds scores ds')
  then show ?case
    by (intro same_dag_quietly committed_refs_cong) (auto simp: commit_buffers_same(1), auto simp: add_commit_info_def Let_def Option.bind_eq_Some_conv)
next
  case (add_scoring_subdags ds subdags ds')
  then show ?case
    by (intro same_dag_quietly committed_refs_cong) (auto simp: commit_buffers_same(4), auto simp: add_scoring_subdags_def Option.bind_eq_Some_conv)
next
  case (add_finalized_commit ds cref rejected)
  then show ?case
    by (intro same_dag_quietly [OF commit_buffers_same(2)]) (simp add: committed_refs_def add_finalized_commit_def)
next
  case (take_commit_votes ds n)
  then show ?case
    by (intro same_dag_quietly [OF commit_buffers_same(3)]) (simp add: committed_refs_def take_commit_votes_def)
next
  case (clear_scoring_subdag ds)
  then show ?case
    by (intro same_dag_quietly [OF commit_buffers_same(5)]) (simp add: committed_refs_def clear_scoring_subdag_def)
qed

section \<open>The invariant of a run\<close>

lemma committed_present:
  assumes "dag_inv ctx G ds" and "r \<in> committed_refs ds"
  shows "ds_blocks ds r \<noteq> None"
proof -
  obtain info where info: "fmlookup (ds_recent_blocks ds) r = Some info" using assms(2) by (auto simp: committed_refs_def)
  then have "0 < ref_round r" using assms(1) unfolding dag_inv_def ds_inv_def recent_inv_def by blast
  then show ?thesis using info by (simp add: ds_blocks_def GENESIS_ROUND_def)
qed

lemma quiet_commit_inv:
  assumes inv: "dag_inv ctx G ds" and com: "commit_inv ctx ds" and ext: "extends_quietly ctx ds ds'"
  shows "commit_inv ctx ds'"
proof -
  have e: "ds_last_commit ds' = ds_last_commit ds" "ds_blocks ds \<subseteq>\<^sub>m ds_blocks ds'" "committed_refs ds' \<subseteq> committed_refs ds"
    "\<And>r. r \<in> committed_refs ds \<Longrightarrow> gc_round ctx ds < ref_round r \<Longrightarrow> r \<in> committed_refs ds'"
    using ext by (auto simp: extends_quietly_def)
  have "a \<in> committed_refs ds'" if r: "r \<in> committed_refs ds'" and b: "ds_blocks ds' r = Some b" "gc_round ctx ds < ref_round r"
    and a: "a \<in> set (vb_ancestors b)" "gc_round ctx ds < ref_round a" for r b a
  proof -
    have "r \<in> committed_refs ds" using r e(3) by blast
    moreover have "ds_blocks ds r = Some b"
      using committed_present [OF inv \<open>r \<in> committed_refs ds\<close>] e(2) b(1) by (auto simp: map_le_def dom_def)
    ultimately show ?thesis using com a b(2) e(4) unfolding commit_inv_def ancestors_closed_def by blast
  qed
  moreover have "ref_round r \<le> last_commit_round ds" if "r \<in> committed_refs ds'" for r
    using com that e(3) by (auto simp: commit_inv_def)
  ultimately show ?thesis
    using gc_round_cong [OF e(1), of ctx] e(1) unfolding commit_inv_def ancestors_closed_def
    by (simp add: last_commit_round_def)
qed

definition delivered :: "committed_sub_dag list \<Rightarrow> block_ref list" where
  "delivered out = map vb_reference (concat (map csd_blocks out))"

definition run_inv :: "crypto \<Rightarrow> consensus_context \<Rightarrow> dag_state \<Rightarrow> verified_block list \<Rightarrow> committed_sub_dag list \<Rightarrow> bool" where
  "run_inv cr ctx ds ls out \<longleftrightarrow>
     dag_inv ctx (genesis_refs cr ctx) ds \<and> commit_inv ctx ds \<and>
     map csd_leader out = map vb_reference ls \<and> map (cref_index \<circ> csd_commit_ref) out = [1..<length out + 1] \<and>
     last_commit_index ds = length out \<and>
     sorted (map csd_timestamp_ms out) \<and> (\<forall>sub \<in> set out. csd_timestamp_ms sub \<le> last_commit_timestamp_ms ds) \<and>
     (\<forall>sub \<in> set out. \<forall>b \<in> set (csd_blocks sub). ds_blocks ds (vb_reference b) = Some b) \<and>
     distinct (delivered out) \<and>
     (\<forall>r. gc_round ctx ds < ref_round r \<longrightarrow> (r \<in> set (delivered out) \<longleftrightarrow> r \<in> committed_refs ds))"

lemma run_inv_start:
  assumes ctx: "ctx_ok ctx" and new: "dag_state_new cr ctx ms_new = Some ds"
  shows "run_inv cr ctx ds [] []"
proof -
  obtain bs where bs: "genesis_blocks cr ctx = Some bs" "ds = initial_state ctx bs" using new by (auto simp: dag_state_new_empty)
  have "committed_refs ds = {}" by (simp add: bs(2) committed_refs_def initial_state_def Let_def)
  moreover have "last_commit_index ds = 0" by (simp add: bs(2) initial_state_def Let_def last_commit_index_def)
  ultimately show ?thesis
    using initial_state_inv [OF ctx bs(1)] bs(2) by (simp add: run_inv_def commit_inv_def ancestors_closed_def delivered_def)
qed

lemma run_inv_quiet:
  assumes inv: "run_inv cr ctx ds ls out" and step: "quiet_step ctx ds ds'"
  shows "run_inv cr ctx ds' ls out"
proof -
  have i: "dag_inv ctx (genesis_refs cr ctx) ds" "commit_inv ctx ds" using inv by (auto simp: run_inv_def)
  have ext: "extends_quietly ctx ds ds'" by (rule quiet_step_extends [OF step i(1)])
  then have e: "ds_last_commit ds' = ds_last_commit ds" "ds_blocks ds \<subseteq>\<^sub>m ds_blocks ds'" "committed_refs ds' \<subseteq> committed_refs ds"
    "\<And>r. r \<in> committed_refs ds \<Longrightarrow> gc_round ctx ds < ref_round r \<Longrightarrow> r \<in> committed_refs ds'"
    by (auto simp: extends_quietly_def)
  have "last_commit_index ds' = last_commit_index ds" "last_commit_timestamp_ms ds' = last_commit_timestamp_ms ds"
    "gc_round ctx ds' = gc_round ctx ds"
    using e(1) gc_round_cong [OF e(1)] by (simp_all add: last_commit_index_def last_commit_timestamp_ms_def)
  moreover have "ds_blocks ds' r = Some b" if "ds_blocks ds r = Some b" for r b
    using e(2) that by (auto simp: map_le_def dom_def)
  ultimately show ?thesis
    using inv dag_step_inv [OF quiet_is_step [OF step] i(1)] quiet_commit_inv [OF i ext] e(3,4)
    unfolding run_inv_def by (simp only:) blast
qed

lemma run_inv_commit:
  assumes inv: "run_inv cr ctx ds ls out" and l: "next_leader ctx ds l" "last_commit_index ds < u32_max"
    and ser: "\<And>c. \<exists>bytes. cr_bcs_commit cr c = Inr bytes" and h: "handle_leader cr ctx l (out, ds) = Some (out', ds')"
  shows "run_inv cr ctx ds' (ls @ [l]) out'"
proof -
  let ?G = "genesis_refs cr ctx"
  have i: "dag_inv ctx ?G ds" "commit_inv ctx ds" and d: "distinct (delivered out)"
    "\<And>r. gc_round ctx ds < ref_round r \<Longrightarrow> r \<in> set (delivered out) \<longleftrightarrow> r \<in> committed_refs ds"
    using inv by (auto simp: run_inv_def)
  obtain sub where s: "out' = out @ [sub]" "sub_dag_ok ctx ds l sub" "dag_inv ctx ?G ds'" "commit_inv ctx ds'"
    "ds_blocks ds' = ds_blocks ds" "last_commit_index ds' = last_commit_index ds + 1" "last_commit_round ds' = vb_round l"
    "last_commit_timestamp_ms ds' = csd_timestamp_ms sub" "committed_refs ds' = committed_refs ds \<union> sub_dag ctx ds l"
    using handle_leader_spec [OF i l ser, of out] h by auto
  have sub: "csd_leader sub = vb_reference l" "vb_reference ` set (csd_blocks sub) = sub_dag ctx ds l"
    "distinct (map vb_reference (csd_blocks sub))" "\<forall>b \<in> set (csd_blocks sub). ds_blocks ds (vb_reference b) = Some b"
    "last_commit_timestamp_ms ds \<le> csd_timestamp_ms sub" "cref_index (csd_commit_ref sub) = last_commit_index ds + 1"
    using s(2) by (auto simp: sub_dag_ok_def)
  have del: "delivered out' = delivered out @ map vb_reference (csd_blocks sub)" "set (map vb_reference (csd_blocks sub)) = sub_dag ctx ds l"
    using sub(2) by (simp_all add: delivered_def s(1))
  have "r \<notin> set (delivered out)" if "r \<in> sub_dag ctx ds l" for r using that d(2) by (auto simp: sub_dag_def)
  then have dist: "distinct (delivered out')" unfolding del(1) using d(1) sub(3) del(2) by auto
  have "gc_round ctx ds \<le> gc_round ctx ds'"
    using s(7) l(1) by (simp add: gc_round_def calculate_gc_round_def next_leader_def diff_le_mono)
  then have "\<forall>r. gc_round ctx ds' < ref_round r \<longrightarrow> (r \<in> set (delivered out') \<longleftrightarrow> r \<in> committed_refs ds')"
    unfolding del(1) set_append del(2) s(9) using d(2) by auto
  moreover have "map csd_leader out' = map vb_reference (ls @ [l])" "last_commit_index ds' = length out'"
    "map (cref_index \<circ> csd_commit_ref) out' = [1..<length out' + 1]"
    using inv s(1,6) sub(1,6) by (simp_all add: run_inv_def)
  moreover have "sorted (map csd_timestamp_ms out')" "\<forall>x \<in> set out'. csd_timestamp_ms x \<le> last_commit_timestamp_ms ds'"
    using inv s(1,8) sub(5) by (auto simp: run_inv_def sorted_append intro: order.trans)
  moreover have "\<forall>x \<in> set out'. \<forall>b \<in> set (csd_blocks x). ds_blocks ds' (vb_reference b) = Some b"
    using inv s(1,5) sub(4) by (auto simp: run_inv_def)
  ultimately show ?thesis using s(3,4) dist unfolding run_inv_def by blast
qed

lemma node_run_inv:
  assumes "node_run cr ctx ds ls out" and "ctx_ok ctx" and "\<And>c. \<exists>bytes. cr_bcs_commit cr c = Inr bytes"
  shows "run_inv cr ctx ds ls out"
  using assms
proof (induction rule: node_run.induct)
  case (start ds)
  then show ?case by (intro run_inv_start)
next
  case (quiet ds ls out ds')
  then show ?case using run_inv_quiet by blast
next
  case (commit ds ls out l out' ds')
  then show ?case using run_inv_commit by blast
qed

section \<open>Decomposing a run\<close>

lemma extends_quietly_refl: "extends_quietly ctx ds ds"
  by (simp add: extends_quietly_def)

lemma extends_quietly_trans:
  assumes "extends_quietly ctx a b" and "extends_quietly ctx b c"
  shows "extends_quietly ctx a c"
proof -
  have "gc_round ctx b = gc_round ctx a" using assms(1) by (intro gc_round_cong) (simp add: extends_quietly_def)
  moreover have "ds_blocks a \<subseteq>\<^sub>m ds_blocks c" using assms map_le_trans by (fastforce simp: extends_quietly_def)
  ultimately show ?thesis using assms unfolding extends_quietly_def by auto
qed

lemma same_commits_quietly:
  assumes sc: "same_commits ctx1 ds1 ds2" and ep: "same_epoch ctx1 ctx2"
    and e1: "extends_quietly ctx1 ds1 ds1'" and e2: "extends_quietly ctx2 ds2 ds2'"
  shows "same_commits ctx1 ds1' ds2'"
proof -
  have gc: "gc_round ctx1 ds1' = gc_round ctx1 ds1" using e1 by (intro gc_round_cong) (simp add: extends_quietly_def)
  have "gc_round ctx2 ds2 = gc_round ctx1 ds1" using sc by (intro same_epoch_gc [OF ep]) (simp add: same_commits_def)
  then show ?thesis using sc e1 e2 unfolding same_commits_def extends_quietly_def gc by (auto dest: subsetD)
qed

lemma node_run_empty: "node_run cr ctx ds ls out \<Longrightarrow> ls = [] \<Longrightarrow> ctx_ok ctx \<Longrightarrow>
   (\<And>c. \<exists>bytes. cr_bcs_commit cr c = Inr bytes) \<Longrightarrow> out = [] \<and> ds_last_commit ds = None \<and> committed_refs ds = {}"
proof (induction rule: node_run.induct)
  case (start ds)
  then show ?case by (auto simp: dag_state_new_empty committed_refs_def initial_state_def Let_def)
next
  case (quiet ds ls out ds')
  have "dag_inv ctx (genesis_refs cr ctx) ds" using node_run_inv [OF quiet.hyps(1)] quiet.prems by (simp add: run_inv_def)
  from quiet_step_extends [OF quiet.hyps(2) this] quiet.IH quiet.prems show ?case by (auto simp: extends_quietly_def)
qed simp

lemma node_run_last:
  assumes "node_run cr ctx ds (ls @ [l]) out" and "ctx_ok ctx" and ser: "\<And>c. \<exists>bytes. cr_bcs_commit cr c = Inr bytes"
  shows "\<exists>ds0 out0 ds1. node_run cr ctx ds0 ls out0 \<and> next_leader ctx ds0 l \<and> last_commit_index ds0 < u32_max \<and>
     handle_leader cr ctx l (out0, ds0) = Some (out, ds1) \<and> extends_quietly ctx ds1 ds"
  using assms(1,2)
proof (induction ds "ls @ [l]" out rule: node_run.induct)
  case (quiet ds out ds')
  have "dag_inv ctx (genesis_refs cr ctx) ds"
    using node_run_inv [OF quiet.hyps(1) quiet.prems ser] by (simp add: run_inv_def)
  from quiet_step_extends [OF quiet.hyps(3) this] quiet.hyps(2) quiet.prems show ?case
    using extends_quietly_trans by blast
next
  case (commit ds ls' out l' out' ds')
  have eq: "ls' = ls" "l' = l" using commit.hyps(6) by simp_all
  show ?case
    using commit.hyps(1,3,4,5) extends_quietly_refl [of ctx ds'] unfolding eq by blast
qed simp

lemma commit_blocks_kept:
  assumes run: "node_run cr ctx ds0 ls out0" and ctx: "ctx_ok ctx" and ser: "\<And>c. \<exists>bytes. cr_bcs_commit cr c = Inr bytes"
    and l: "next_leader ctx ds0 l" "last_commit_index ds0 < u32_max" and h: "handle_leader cr ctx l (out0, ds0) = Some (out, ds1)"
  shows "ds_blocks ds1 = ds_blocks ds0" "prefix out0 out"
proof -
  have "dag_inv ctx (genesis_refs cr ctx) ds0" "commit_inv ctx ds0" using node_run_inv [OF run ctx ser] by (simp_all add: run_inv_def)
  from handle_leader_spec [OF this l ser, of out0] h show "ds_blocks ds1 = ds_blocks ds0" "prefix out0 out" by auto
qed

section \<open>Two runs\<close>

lemma same_blocks_mono:
  assumes "same_blocks ds1 ds2" and "ds_blocks a \<subseteq>\<^sub>m ds_blocks ds1" and "ds_blocks b \<subseteq>\<^sub>m ds_blocks ds2"
  shows "same_blocks a b"
  unfolding same_blocks_def
proof (intro allI impI)
  fix r x y assume "ds_blocks a r = Some x" "ds_blocks b r = Some y"
  then have "ds_blocks ds1 r = Some x" "ds_blocks ds2 r = Some y" using assms(2,3) by (auto simp: map_le_def dom_def)
  then show "x = y" using assms(1) unfolding same_blocks_def by blast
qed

lemma node_runs_agree:
  assumes "node_run cr ctx1 ds1 ls out1" and "node_run cr ctx2 ds2 ls out2" and ctx: "ctx_ok ctx1" "ctx_ok ctx2" "same_epoch ctx1 ctx2"
    and ser: "\<And>c. \<exists>bytes. cr_bcs_commit cr c = Inr bytes" and "same_blocks ds1 ds2"
  shows "out1 = out2 \<and> same_commits ctx1 ds1 ds2"
  using assms(1,2,7)
proof (induction arbitrary: ds2 out2 rule: node_run.induct)
  case (start ds)
  then show ?case
    using node_run_empty [OF start.prems(1) refl ctx(2) ser] node_run_empty [OF node_run.start [OF start.hyps] refl ctx(1) ser]
    by (simp add: same_commits_def)
next
  case (quiet ds ls out ds')
  have "dag_inv ctx1 (genesis_refs cr ctx1) ds" using node_run_inv [OF quiet.hyps(1) ctx(1) ser] by (simp add: run_inv_def)
  from quiet_step_extends [OF quiet.hyps(2) this] have e: "extends_quietly ctx1 ds ds'" .
  then have "same_blocks ds ds2" using same_blocks_mono [OF quiet.prems(2)] by (simp add: extends_quietly_def)
  from quiet.IH [OF quiet.prems(1) this] show ?case
    using same_commits_quietly [OF _ ctx(3) e extends_quietly_refl] by simp
next
  case (commit ds ls out l out' ds')
  obtain ds0 out0 dsm where r2: "node_run cr ctx2 ds0 ls out0" "next_leader ctx2 ds0 l" "last_commit_index ds0 < u32_max"
    "handle_leader cr ctx2 l (out0, ds0) = Some (out2, dsm)" "extends_quietly ctx2 dsm ds2"
    using node_run_last [OF commit.prems(1) ctx(2) ser] by blast
  note keep1 = commit_blocks_kept [OF commit.hyps(1) ctx(1) ser commit.hyps(2-4)] and keep2 = commit_blocks_kept [OF r2(1) ctx(2) ser r2(2-4)]
  have sb: "same_blocks ds ds0"
    by (rule same_blocks_mono [OF commit.prems(2)]) (use keep1(1) keep2(1) r2(5) in \<open>auto simp: extends_quietly_def\<close>)
  have ih: "out = out0" "same_commits ctx1 ds ds0" using commit.IH [OF r2(1) sb] by simp_all
  have i1: "dag_inv ctx1 (genesis_refs cr ctx1) ds" "commit_inv ctx1 ds" and i2: "dag_inv ctx2 (genesis_refs cr ctx2) ds0" "commit_inv ctx2 ds0"
    using node_run_inv [OF commit.hyps(1) ctx(1) ser] node_run_inv [OF r2(1) ctx(2) ser] by (simp_all add: run_inv_def)
  from handle_leader_agree [OF i1 commit.hyps(2) i2 r2(2) ctx(3) sb ih(2) commit.hyps(3) ser, of out]
  have "out' = out2 \<and> same_commits ctx1 ds' dsm" using commit.hyps(4) r2(4) ih(1) by auto
  then show ?case using same_commits_quietly [OF _ ctx(3) extends_quietly_refl r2(5)] by simp
qed

lemma node_run_prefix:
  assumes "node_run cr ctx ds (ls @ ls') out" and ctx: "ctx_ok ctx" and ser: "\<And>c. \<exists>bytes. cr_bcs_commit cr c = Inr bytes"
  shows "\<exists>ds0 out0. node_run cr ctx ds0 ls out0 \<and> prefix out0 out \<and> ds_blocks ds0 \<subseteq>\<^sub>m ds_blocks ds"
  using assms(1)
proof (induction ls' arbitrary: ds out rule: rev_induct)
  case (snoc l ls')
  then have "node_run cr ctx ds ((ls @ ls') @ [l]) out" by simp
  from node_run_last [OF this ctx ser] obtain ds1 out1 dsm where r: "node_run cr ctx ds1 (ls @ ls') out1" "next_leader ctx ds1 l"
    "last_commit_index ds1 < u32_max" "handle_leader cr ctx l (out1, ds1) = Some (out, dsm)" "extends_quietly ctx dsm ds" by blast
  note keep = commit_blocks_kept [OF r(1) ctx ser r(2-4)]
  obtain ds0 out0 where "node_run cr ctx ds0 ls out0" "prefix out0 out1" "ds_blocks ds0 \<subseteq>\<^sub>m ds_blocks ds1" using snoc.IH [OF r(1)] by blast
  moreover have "ds_blocks ds1 \<subseteq>\<^sub>m ds_blocks ds" using r(5) keep(1) by (simp add: extends_quietly_def)
  ultimately show ?case using keep(2) prefix_order.trans map_le_trans by blast
next
  case Nil
  then have "node_run cr ctx ds ls out" by simp
  then show ?case using map_le_refl [of "ds_blocks ds"] prefix_order.refl [of out] by blast
qed

lemma node_runs_prefix:
  assumes r: "node_run cr ctx1 ds1 ls1 out1" "node_run cr ctx2 ds2 ls2 out2" and ctx: "ctx_ok ctx1" "ctx_ok ctx2" "same_epoch ctx1 ctx2"
    and ser: "\<And>c. \<exists>bytes. cr_bcs_commit cr c = Inr bytes" and sb: "same_blocks ds1 ds2" and pre: "prefix ls1 ls2"
  shows "prefix out1 out2"
proof -
  obtain ls' where "ls2 = ls1 @ ls'" using pre by (auto simp: prefix_def)
  then obtain ds0 out0 where "node_run cr ctx2 ds0 ls1 out0" "prefix out0 out2" "ds_blocks ds0 \<subseteq>\<^sub>m ds_blocks ds2"
    using node_run_prefix [OF _ ctx(2) ser] r(2) by blast
  then show ?thesis
    using node_runs_agree [OF r(1) _ ctx ser same_blocks_mono [OF sb]] by fastforce
qed

end
