(* ===== verification/Leader_Schedule.thy ===== *)
theory Leader_Schedule
  imports Dag_State "HOL-Library.Multiset"
begin

text \<open>
  \<open>LeaderSchedule\<close> and \<open>LeaderSwapTable\<close> (\<^verbatim>\<open>consensus/core/src/leader_schedule.rs\<close>): the stake-weighted
  election of leaders and the table that replaces low-scoring leaders by high-scoring ones. The
  random generator of the \<^verbatim>\<open>rand\<close> crate is the parameter \<open>rng\<close>: every use seeds a fresh generator, so
  each operation is a function of the seed. \<open>rng_ok\<close> states what the crate documents.
\<close>

section \<open>Random choices\<close>

type_synonym swap_node = "authority_index \<times> string \<times> stake"

record rng =
  rng_shuffle :: "bytes \<Rightarrow> (authority_index \<times> nat) list \<Rightarrow> (authority_index \<times> nat) list"
  rng_choose :: "bytes \<Rightarrow> swap_node list \<Rightarrow> swap_node option"
  rng_choose_multiple_weighted ::
    "bytes \<Rightarrow> (authority_index \<times> stake) list \<Rightarrow> nat \<Rightarrow> (authority_index \<times> stake) list option"

text \<open>
  \<open>shuffle\<close> permutes, \<open>choose\<close> returns an element of a slice unless it is empty, and
  \<open>choose_multiple_weighted\<close>, asked for as many elements as there are, returns them all in some order.
\<close>

definition rng_ok :: "rng \<Rightarrow> bool" where
  "rng_ok g \<longleftrightarrow>
     (\<forall>seed xs. mset (rng_shuffle g seed xs) = mset xs) \<and>
     (\<forall>seed. rng_choose g seed [] = None) \<and>
     (\<forall>seed xs. xs \<noteq> [] \<longrightarrow> (\<exists>x \<in> set xs. rng_choose g seed xs = Some x)) \<and>
     (\<forall>seed xs. \<exists>ys. rng_choose_multiple_weighted g seed xs (length xs) = Some ys \<and> mset ys = mset xs)"

definition u32_to_le_bytes :: "nat \<Rightarrow> bytes" where
  "u32_to_le_bytes n = map (\<lambda>i. of_nat (n div 256 ^ i)) [0, 1, 2, 3]"

section \<open>The swap table\<close>

record leader_swap_table =
  good_nodes :: "swap_node list"
  bad_nodes :: "(authority_index, string \<times> stake) fmap"
  reputation_scores_desc :: "(authority_index \<times> nat) list"
  lst_reputation_scores :: reputation_scores

definition swap_table_default :: leader_swap_table where
  "swap_table_default = \<lparr> good_nodes = [], bad_nodes = fmempty, reputation_scores_desc = [],
     lst_reputation_scores = reputation_scores_default \<rparr>"

fun retrieve_loop ::
  "committee \<Rightarrow> nat \<Rightarrow> (authority_index \<times> nat) list \<Rightarrow> stake \<Rightarrow> swap_node list \<Rightarrow> swap_node list option" where
  "retrieve_loop c stake_threshold [] stake filtered = Some filtered"
| "retrieve_loop c stake_threshold ((idx, score) # rest) stake filtered = do {
     s \<leftarrow> committee_stake c idx;
     let stake' = add_u64 stake s;
     if mul_u64 stake_threshold (com_total_stake c) div 100 < stake' then Some filtered
     else do {
       a \<leftarrow> committee_authority c idx;
       retrieve_loop c stake_threshold rest stake' (filtered @ [(idx, auth_hostname a, auth_stake a)])
     }
   }"

definition retrieve_first_nodes ::
  "consensus_context \<Rightarrow> (authority_index \<times> nat) list \<Rightarrow> nat \<Rightarrow> swap_node list option" where
  "retrieve_first_nodes ctx authorities stake_threshold =
     retrieve_loop (ctx_committee ctx) stake_threshold authorities 0 []"

definition swap_table_new_inner ::
  "rng \<Rightarrow> consensus_context \<Rightarrow> nat \<Rightarrow> commit_index \<Rightarrow> reputation_scores \<Rightarrow> leader_swap_table option" where
  "swap_table_new_inner g ctx swap_stake_threshold index scores = do {
     assert_rs (swap_stake_threshold \<le> 33);
     if scores_per_authority scores = [] then Some swap_table_default
     else do {
       let seed = replicate 28 0 @ u32_to_le_bytes index;
       by_score \<leftarrow> authorities_by_score ctx scores;
       assert_rs (length by_score = committee_size (ctx_committee ctx));
       let desc = sort_key (\<lambda>(_, score). - int score) (rng_shuffle g seed by_score);
       good \<leftarrow> retrieve_first_nodes ctx desc swap_stake_threshold;
       bad \<leftarrow> retrieve_first_nodes ctx (rev desc) swap_stake_threshold;
       Some \<lparr> good_nodes = good,
              bad_nodes = fmap_of_list (rev bad),
              reputation_scores_desc = desc,
              lst_reputation_scores = scores \<rparr>
     }
   }"

definition swap_table_new ::
  "rng \<Rightarrow> consensus_context \<Rightarrow> commit_index \<Rightarrow> reputation_scores \<Rightarrow> leader_swap_table option" where
  "swap_table_new g ctx index scores =
     swap_table_new_inner g ctx (consensus_bad_nodes_stake_threshold ctx) index scores"

definition swap ::
  "rng \<Rightarrow> leader_swap_table \<Rightarrow> authority_index \<Rightarrow> round \<Rightarrow> nat \<Rightarrow> authority_index option option" where
  "swap g table leader leader_round leader_offset =
     (if leader |\<in>| fmdom (bad_nodes table)
      then do {
        assert_rs (leader_offset = 0);
        let seed = replicate 24 0 @ u32_to_le_bytes leader_round @ u32_to_le_bytes leader_offset;
        (idx, _, _) \<leftarrow> rng_choose g seed (good_nodes table);
        Some (Some idx)
      }
      else Some None)"

section \<open>The schedule\<close>

record leader_schedule =
  ls_leader_swap_table :: leader_swap_table
  num_commits_per_schedule :: nat

definition CONSENSUS_COMMITS_PER_SCHEDULE :: nat where "CONSENSUS_COMMITS_PER_SCHEDULE = 300"

definition leader_schedule_new :: "leader_swap_table \<Rightarrow> leader_schedule" where
  "leader_schedule_new table = \<lparr> ls_leader_swap_table = table,
     num_commits_per_schedule = CONSENSUS_COMMITS_PER_SCHEDULE \<rparr>"

definition leader_schedule_from_store ::
  "rng \<Rightarrow> consensus_context \<Rightarrow> dag_state \<Rightarrow> leader_schedule option" where
  "leader_schedule_from_store g ctx ds = do {
     table \<leftarrow> (case recover_last_commit_info ds of
         None \<Rightarrow> Some swap_table_default
       | Some (r, info) \<Rightarrow> swap_table_new g ctx (cref_index r) (ci_reputation_scores info));
     Some (leader_schedule_new table)
   }"

definition commits_until_leader_schedule_update :: "leader_schedule \<Rightarrow> dag_state \<Rightarrow> nat option" where
  "commits_until_leader_schedule_update ls ds = do {
     n \<leftarrow> scoring_subdags_count ds;
     assert_rs (n \<le> num_commits_per_schedule ls);
     Some (num_commits_per_schedule ls - n)
   }"

definition leader_schedule_updated :: "dag_state \<Rightarrow> bool" where
  "leader_schedule_updated ds = is_scoring_subdag_empty ds"

definition update_leader_swap_table :: "leader_schedule \<Rightarrow> leader_swap_table \<Rightarrow> leader_schedule option" where
  "update_leader_swap_table ls table = do {
     let old = rs_commit_range (lst_reputation_scores (ls_leader_swap_table ls));
     let new = rs_commit_range (lst_reputation_scores table);
     _ \<leftarrow> (if old \<noteq> range_default
           then do {
             assert_rs (range_is_next old new);
             equal_size \<leftarrow> range_is_equal_size old new;
             assert_rs equal_size
           }
           else Some ());
     Some (ls\<lparr> ls_leader_swap_table := table \<rparr>)
   }"

definition update_leader_schedule_v2 ::
  "rng \<Rightarrow> consensus_context \<Rightarrow> leader_schedule \<Rightarrow> dag_state \<Rightarrow> (leader_schedule \<times> dag_state) option" where
  "update_leader_schedule_v2 g ctx ls ds = do {
     scores \<leftarrow> calculate_scoring_subdag_scores ctx ds;
     last_commit_index \<leftarrow> scoring_subdag_commit_range ds;
     ds' \<leftarrow> add_commit_info (clear_scoring_subdag ds) scores;
     table \<leftarrow> swap_table_new g ctx last_commit_index scores;
     ls' \<leftarrow> update_leader_swap_table ls table;
     Some (ls', ds')
   }"

definition elect_leader_stake_based ::
  "rng \<Rightarrow> consensus_context \<Rightarrow> round \<Rightarrow> nat \<Rightarrow> authority_index option" where
  "elect_leader_stake_based g ctx r offset = do {
     let n = committee_size (ctx_committee ctx);
     assert_rs (offset < n);
     let seed = replicate 28 0 @ u32_to_le_bytes r;
     let choices = map (\<lambda>(i, a). (i, auth_stake a)) (committee_authorities (ctx_committee ctx));
     chosen \<leftarrow> rng_choose_multiple_weighted g seed choices n;
     (case drop offset chosen of [] \<Rightarrow> None | (idx, _) # _ \<Rightarrow> Some idx)
   }"

definition schedule_elect_leader ::
  "rng \<Rightarrow> consensus_context \<Rightarrow> leader_schedule \<Rightarrow> round \<Rightarrow> nat \<Rightarrow> authority_index option" where
  "schedule_elect_leader g ctx ls r offset = do {
     leader \<leftarrow> elect_leader_stake_based g ctx r offset;
     swapped \<leftarrow> swap g (ls_leader_swap_table ls) leader r offset;
     Some (case swapped of Some l \<Rightarrow> l | None \<Rightarrow> leader)
   }"

section \<open>Good and bad nodes\<close>

text \<open>The retrieved nodes are a prefix of the input whose stake stays within the threshold.\<close>

definition stake_of :: "committee \<Rightarrow> (authority_index \<times> nat) list \<Rightarrow> stake" where
  "stake_of c xs = (\<Sum>(i, _) \<leftarrow> xs. auth_stake (com_authorities c ! i))"

lemma stake_of_simps [simp]:
  "stake_of c [] = 0"
  "stake_of c ((i, s) # xs) = auth_stake (com_authorities c ! i) + stake_of c xs"
  "stake_of c (xs @ ys) = stake_of c xs + stake_of c ys"
  "stake_of c (rev xs) = stake_of c xs"
  by (simp_all add: stake_of_def rev_map [symmetric])

lemma stake_of_fst: "stake_of c xs = sum_list (map (\<lambda>i. auth_stake (com_authorities c ! i)) (map fst xs))"
  by (induction xs) auto

lemma stake_of_mset: "mset xs = mset ys \<Longrightarrow> stake_of c xs = stake_of c ys"
  by (simp add: stake_of_def sum_mset_sum_list [symmetric])

definition node_of :: "committee \<Rightarrow> authority_index \<times> nat \<Rightarrow> swap_node" where
  "node_of c x = (fst x, auth_hostname (com_authorities c ! fst x), auth_stake (com_authorities c ! fst x))"

lemma retrieve_loop_spec:
  assumes "\<forall>(i, _) \<in> set xs. i < committee_size c" and "stake + stake_of c xs \<le> u64_max"
  shows "\<exists>k \<le> length xs. retrieve_loop c th xs stake acc = Some (acc @ map (node_of c) (take k xs)) \<and>
     (k = 0 \<or> stake + stake_of c (take k xs) \<le> mul_u64 th (com_total_stake c) div 100)"
  using assms
proof (induction c th xs stake acc rule: retrieve_loop.induct)
  case (1 c th stake acc)
  then show ?case by simp
next
  case (2 c th i score rest stake acc)
  let ?s = "auth_stake (com_authorities c ! i)"
  have i: "i < committee_size c" "i < length (com_authorities c)" using "2.prems" by (auto simp: committee_size_def)
  have exact: "add_u64 stake ?s = stake + ?s" using "2.prems" by simp
  show ?case
  proof (cases "mul_u64 th (com_total_stake c) div 100 < stake + ?s")
    case True
    then show ?thesis using i exact by (auto intro!: exI [of _ 0])
  next
    case False
    from "2.IH" [of ?s "stake + ?s" "com_authorities c ! i"] False i exact "2.prems" obtain k where
      "k \<le> length rest" "retrieve_loop c th rest (stake + ?s) (acc @ [(i, auth_hostname (com_authorities c ! i), ?s)]) =
        Some ((acc @ [(i, auth_hostname (com_authorities c ! i), ?s)]) @ map (node_of c) (take k rest))"
      "k = 0 \<or> stake + ?s + stake_of c (take k rest) \<le> mul_u64 th (com_total_stake c) div 100"
      by (auto simp: committee_authority_def)
    then show ?thesis using i exact False
      by (intro exI [of _ "Suc k"]) (auto simp: committee_authority_def node_of_def)
  qed
qed

lemma retrieve_first_nodes_spec:
  assumes "\<forall>(i, _) \<in> set xs. i < committee_size (ctx_committee ctx)" and "stake_of (ctx_committee ctx) xs \<le> u64_max"
  shows "\<exists>k \<le> length xs. retrieve_first_nodes ctx xs th = Some (map (node_of (ctx_committee ctx)) (take k xs)) \<and>
     stake_of (ctx_committee ctx) (take k xs) \<le> mul_u64 th (com_total_stake (ctx_committee ctx)) div 100"
proof -
  from retrieve_loop_spec [of xs "ctx_committee ctx" 0 th "[]"] assms obtain k where
    "k \<le> length xs" "retrieve_loop (ctx_committee ctx) th xs 0 [] = Some (map (node_of (ctx_committee ctx)) (take k xs))"
    "k = 0 \<or> stake_of (ctx_committee ctx) (take k xs) \<le> mul_u64 th (com_total_stake (ctx_committee ctx)) div 100"
    by auto
  then show ?thesis by (auto simp: retrieve_first_nodes_def)
qed

text \<open>A prefix and a suffix that each hold at most a third of the stake do not meet.\<close>

lemma stake_of_drop: "i \<le> k \<Longrightarrow> stake_of c (drop k xs) \<le> stake_of c (drop i xs)"
proof -
  assume "i \<le> k"
  then have "drop i xs = take (k - i) (drop i xs) @ drop k xs"
    using append_take_drop_id [of "k - i" "drop i xs"] by simp
  then show ?thesis by (metis le_add2 stake_of_simps(3))
qed

lemma prefix_suffix_apart:
  assumes "k \<le> length xs" "m \<le> length xs" "3 * stake_of c (take k xs) \<le> stake_of c xs"
    "3 * stake_of c (take m (rev xs)) \<le> stake_of c xs" "0 < stake_of c xs"
  shows "k + m \<le> length xs"
proof (rule ccontr)
  assume "\<not> ?thesis"
  then have "stake_of c (drop k xs) \<le> stake_of c (drop (length xs - m) xs)"
    by (intro stake_of_drop) simp
  moreover have "stake_of c xs = stake_of c (take k xs) + stake_of c (drop k xs)"
    using stake_of_simps(3) [of c "take k xs" "drop k xs"] by simp
  moreover have "stake_of c (take m (rev xs)) = stake_of c (drop (length xs - m) xs)"
    by (simp add: take_rev)
  ultimately show False using assms(3-5) by linarith
qed

lemma take_drop_apart:
  assumes "k + m \<le> length xs"
  shows "\<exists>us vs ws. xs = us @ vs @ ws \<and> take k xs = us \<and> take m (rev xs) = rev ws"
proof (intro exI conjI)
  let ?n = "length xs - m"
  have "drop k xs = take (?n - k) (drop k xs) @ drop ?n xs"
    using assms append_take_drop_id [of "?n - k" "drop k xs"] by simp
  then show "xs = take k xs @ take (?n - k) (drop k xs) @ drop ?n xs" by (metis append_take_drop_id)
qed (simp_all add: take_rev)

lemma authorities_by_score_eq:
  assumes "length (scores_per_authority rs) = committee_size (ctx_committee ctx)"
  shows "authorities_by_score ctx rs = Some (List.enumerate 0 (scores_per_authority rs))"
proof -
  have "traverse (\<lambda>(i, score). do { a \<leftarrow> to_authority_index (ctx_committee ctx) i; Some (a, score) })
      (List.enumerate 0 (scores_per_authority rs)) =
    Some (map (\<lambda>x. x) (List.enumerate 0 (scores_per_authority rs)))"
    by (rule traverse_total) (use assms in \<open>auto simp: to_authority_index_def in_set_enumerate_eq\<close>)
  then show ?thesis by (simp add: authorities_by_score_def)
qed

text \<open>The order of the table: all authorities, by descending score.\<close>

definition score_order :: "rng \<Rightarrow> commit_index \<Rightarrow> reputation_scores \<Rightarrow> (authority_index \<times> nat) list" where
  "score_order g index scores = sort_key (\<lambda>(_, score). - int score)
     (rng_shuffle g (replicate 28 0 @ u32_to_le_bytes index) (List.enumerate 0 (scores_per_authority scores)))"

lemma score_order_mset:
  "rng_ok g \<Longrightarrow> mset (score_order g index scores) = mset (List.enumerate 0 (scores_per_authority scores))"
  by (simp add: score_order_def rng_ok_def)

lemma score_order_facts:
  assumes g: "rng_ok g" and len: "length (scores_per_authority scores) = committee_size c" and wf: "committee_wf c"
  shows "set (score_order g index scores) = set (List.enumerate 0 (scores_per_authority scores))"
    and "distinct (map fst (score_order g index scores))"
    and "stake_of c (score_order g index scores) = com_total_stake c"
    and "sorted_wrt (\<lambda>x y. snd y \<le> snd x) (score_order g index scores)"
proof -
  let ?xs = "score_order g index scores" and ?ys = "List.enumerate 0 (scores_per_authority scores)"
  have m: "mset ?xs = mset ?ys" using g by (rule score_order_mset)
  then show "set ?xs = set ?ys" by (metis set_mset_mset)
  have "mset (map fst ?xs) = mset (map fst ?ys)" using m by (metis mset_map)
  moreover have "distinct (map fst ?ys)" by simp
  ultimately show "distinct (map fst ?xs)" using mset_eq_imp_distinct_iff by metis
  have "stake_of c ?ys = sum_list (map (\<lambda>i. auth_stake (com_authorities c ! i)) (map fst ?ys))"
    by (rule stake_of_fst)
  also have "\<dots> = com_total_stake c"
    using wf len by (simp add: committee_wf_def committee_size_def sum_list_sum_nth interv_sum_list_conv_sum_set_nat)
  finally show "stake_of c ?xs = com_total_stake c" using stake_of_mset [OF m] by simp
  have "sorted (map (\<lambda>(_, score). - int score) ?xs)" by (simp add: score_order_def)
  then show "sorted_wrt (\<lambda>x y. snd y \<le> snd x) ?xs"
    by (auto simp: sorted_map case_prod_beta elim!: sorted_wrt_mono_rel [rotated])
qed

lemma swap_table_new_eq:
  assumes g: "rng_ok g" and wf: "committee_wf (ctx_committee ctx)"
    and th: "consensus_bad_nodes_stake_threshold ctx \<le> 33"
    and len: "length (scores_per_authority scores) = committee_size (ctx_committee ctx)"
    and fits: "33 * com_total_stake (ctx_committee ctx) \<le> u64_max"
  obtains us vs ws where "score_order g index scores = us @ vs @ ws"
    and "swap_table_new g ctx index scores = Some \<lparr> good_nodes = map (node_of (ctx_committee ctx)) us,
       bad_nodes = fmap_of_list (map (node_of (ctx_committee ctx)) ws),
       reputation_scores_desc = us @ vs @ ws, lst_reputation_scores = scores \<rparr>"
    and "100 * stake_of (ctx_committee ctx) us \<le> consensus_bad_nodes_stake_threshold ctx * com_total_stake (ctx_committee ctx)"
    and "100 * stake_of (ctx_committee ctx) ws \<le> consensus_bad_nodes_stake_threshold ctx * com_total_stake (ctx_committee ctx)"
proof -
  let ?c = "ctx_committee ctx" and ?th = "consensus_bad_nodes_stake_threshold ctx"
  let ?xs = "score_order g index scores"
  note f = score_order_facts [OF g len wf, of index]
  have T: "0 < com_total_stake ?c" "com_total_stake ?c \<le> u64_max" using wf by (auto simp: committee_wf_def)
  have le: "?th * com_total_stake ?c \<le> 33 * com_total_stake ?c" using th by (rule mult_le_mono1)
  have thr: "mul_u64 ?th (com_total_stake ?c) = ?th * com_total_stake ?c"
    by (rule mul_u64_exact) (use le fits in linarith)
  have idx: "\<forall>(i, _) \<in> set ?xs. i < committee_size ?c" using f(1) len by (auto simp: in_set_enumerate_eq)
  obtain k where k: "k \<le> length ?xs" "retrieve_first_nodes ctx ?xs ?th = Some (map (node_of ?c) (take k ?xs))"
    "stake_of ?c (take k ?xs) \<le> ?th * com_total_stake ?c div 100"
    using retrieve_first_nodes_spec [OF idx, of ?th] f(3) T(2) thr by auto
  obtain m where m: "m \<le> length (rev ?xs)" "retrieve_first_nodes ctx (rev ?xs) ?th = Some (map (node_of ?c) (take m (rev ?xs)))"
    "stake_of ?c (take m (rev ?xs)) \<le> ?th * com_total_stake ?c div 100"
    using retrieve_first_nodes_spec [of "rev ?xs" ctx ?th] idx f(3) T(2) thr by auto
  have "k + m \<le> length ?xs"
  proof (rule prefix_suffix_apart [where c = ?c])
    show "k \<le> length ?xs" "m \<le> length ?xs" using k(1) m(1) by simp_all
    show "0 < stake_of ?c ?xs" using f(3) T(1) by simp
    show "3 * stake_of ?c (take k ?xs) \<le> stake_of ?c ?xs" using k(3) f(3) le by linarith
    show "3 * stake_of ?c (take m (rev ?xs)) \<le> stake_of ?c ?xs" using m(3) f(3) le by linarith
  qed
  then obtain us vs ws where split: "?xs = us @ vs @ ws" "take k ?xs = us" "take m (rev ?xs) = rev ws"
    using take_drop_apart by blast
  have good: "retrieve_first_nodes ctx ?xs ?th = Some (map (node_of ?c) us)"
    and bad: "retrieve_first_nodes ctx (rev ?xs) ?th = Some (rev (map (node_of ?c) ws))"
    using k(2) m(2) split(2,3) by (simp_all add: rev_map)
  have "scores_per_authority scores \<noteq> []" using len wf_bounds(6) [OF wf] by auto
  then have "swap_table_new g ctx index scores = Some \<lparr> good_nodes = map (node_of ?c) us,
       bad_nodes = fmap_of_list (map (node_of ?c) ws),
       reputation_scores_desc = us @ vs @ ws, lst_reputation_scores = scores \<rparr>"
    using th len good [unfolded split(1)] bad [unfolded split(1)]
    unfolding swap_table_new_def swap_table_new_inner_def authorities_by_score_eq [OF len]
    by (simp add: Let_def split(1) [unfolded score_order_def])
  moreover have "100 * stake_of ?c us \<le> ?th * com_total_stake ?c" "100 * stake_of ?c ws \<le> ?th * com_total_stake ?c"
    using k(3) [unfolded split(2)] m(3) [unfolded split(3) stake_of_simps(4)] by linarith+
  ultimately show ?thesis using that split(1) by blast
qed

lemma stake_of_weight:
  "distinct (map fst xs) \<Longrightarrow> stake_of c xs = weight c (set (map fst xs))"
  unfolding stake_of_fst weight_def by (rule sum_list_distinct_conv_sum_set)

lemma node_of_fst [simp]: "map fst (map (node_of c) xs) = map fst xs" "fst (node_of c x) = fst x"
  by (simp_all add: node_of_def)

lemma bad_dom: "fset (fmdom (fmap_of_list (map (node_of c) ws))) = set (map fst ws)"
  by (simp add: image_image fset_of_list.rep_eq)

text \<open>A table that was built has scores of the right length, or is the default one.\<close>

lemma swap_table_new_cases:
  assumes "swap_table_new g ctx index scores = Some t"
  shows "t = swap_table_default \<or> length (scores_per_authority scores) = committee_size (ctx_committee ctx)"
    and "consensus_bad_nodes_stake_threshold ctx \<le> 33"
  using assms
  by (auto simp: swap_table_new_def swap_table_new_inner_def authorities_by_score_def traverse_Some_conv
      Option.bind_eq_Some_conv Let_def split: if_splits dest: map_eq_imp_length_eq)

section \<open>Elections\<close>

lemma elect_leader_stake_based_eq:
  assumes g: "rng_ok g"
  obtains perm where "distinct perm" "set perm = members (ctx_committee ctx)"
    "length perm = committee_size (ctx_committee ctx)"
    "\<And>k. k < committee_size (ctx_committee ctx) \<Longrightarrow> elect_leader_stake_based g ctx r k = Some (perm ! k)"
proof -
  let ?c = "ctx_committee ctx"
  let ?xs = "map (\<lambda>(i, a). (i, auth_stake a)) (committee_authorities ?c)"
  have len: "length ?xs = committee_size ?c" by (simp add: committee_authorities_def committee_size_def)
  obtain ys where ys: "rng_choose_multiple_weighted g (replicate 28 0 @ u32_to_le_bytes r) ?xs (committee_size ?c) = Some ys"
    "mset ys = mset ?xs"
    using g len unfolding rng_ok_def by metis
  have fst: "map fst ?xs = [0..<committee_size ?c]"
    by (simp add: committee_authorities_def committee_size_def case_prod_beta comp_def)
  have m: "mset (map fst ys) = mset [0..<committee_size ?c]" using ys(2) fst by (metis mset_map)
  show ?thesis
  proof (rule that [of "map fst ys"])
    show "distinct (map fst ys)" using m mset_eq_imp_distinct_iff distinct_upt by metis
    have "set (map fst ys) = set [0..<committee_size ?c]" using m mset_eq_setD by blast
    then show "set (map fst ys) = members ?c" by (auto simp: members_def)
    show l: "length (map fst ys) = committee_size ?c" using m mset_eq_length length_upt by (metis diff_zero)
    fix k assume k: "k < committee_size ?c"
    then have "drop k ys = ys ! k # drop (Suc k) ys" using l by (simp add: Cons_nth_drop_Suc)
    then show "elect_leader_stake_based g ctx r k = Some (map fst ys ! k)"
      using ys(1) l k by (simp add: elect_leader_stake_based_def Let_def case_prod_beta)
  qed
qed

lemma swap_result:
  assumes g: "rng_ok g" and good: "good_nodes t \<noteq> []" and bad: "l |\<in>| fmdom (bad_nodes t)"
  shows "\<exists>l' \<in> set (map fst (good_nodes t)). swap g t l r 0 = Some (Some l')"
proof -
  obtain x where "x \<in> set (good_nodes t)"
    "rng_choose g (replicate 24 0 @ u32_to_le_bytes r @ u32_to_le_bytes 0) (good_nodes t) = Some x"
    using g good unfolding rng_ok_def by blast
  then show ?thesis using bad
    by (intro bexI [of _ "fst x"]) (simp_all add: swap_def Let_def case_prod_beta)
qed

lemma swap_table_facts:
  assumes g: "rng_ok g" and wf: "committee_wf (ctx_committee ctx)"
    and th: "consensus_bad_nodes_stake_threshold ctx \<le> 33"
    and len: "length (scores_per_authority scores) = committee_size (ctx_committee ctx)"
    and fits: "33 * com_total_stake (ctx_committee ctx) \<le> u64_max"
  shows "\<exists>t good bad. swap_table_new g ctx index scores = Some t \<and>
     good = set (map fst (good_nodes t)) \<and> bad = fset (fmdom (bad_nodes t)) \<and>
     good \<union> bad \<subseteq> members (ctx_committee ctx) \<and> good \<inter> bad = {} \<and>
     100 * weight (ctx_committee ctx) good \<le> consensus_bad_nodes_stake_threshold ctx * com_total_stake (ctx_committee ctx) \<and>
     100 * weight (ctx_committee ctx) bad \<le> consensus_bad_nodes_stake_threshold ctx * com_total_stake (ctx_committee ctx) \<and>
     (\<forall>a b. a \<in> good \<and> b \<in> bad \<longrightarrow> scores_per_authority scores ! b \<le> scores_per_authority scores ! a)"
proof -
  let ?c = "ctx_committee ctx" and ?s = "scores_per_authority scores"
  obtain us vs ws where split: "score_order g index scores = us @ vs @ ws"
    and t: "swap_table_new g ctx index scores = Some \<lparr> good_nodes = map (node_of ?c) us,
       bad_nodes = fmap_of_list (map (node_of ?c) ws),
       reputation_scores_desc = us @ vs @ ws, lst_reputation_scores = scores \<rparr>" (is "_ = Some ?t")
    and w: "100 * stake_of ?c us \<le> consensus_bad_nodes_stake_threshold ctx * com_total_stake ?c"
      "100 * stake_of ?c ws \<le> consensus_bad_nodes_stake_threshold ctx * com_total_stake ?c"
    using swap_table_new_eq [OF g wf th len fits, of index] .
  note f = score_order_facts [OF g len wf, of index, unfolded split]
  have dist: "distinct (map fst us)" "distinct (map fst ws)" "set (map fst us) \<inter> set (map fst ws) = {}"
    using f(2) by auto
  have mem: "(i, s) \<in> set (us @ vs @ ws) \<Longrightarrow> i \<in> members ?c \<and> s = ?s ! i" for i s
    unfolding f(1) using len by (auto simp: in_set_enumerate_eq members_def)
  have "?s ! b \<le> ?s ! a" if "a \<in> set (map fst us)" "b \<in> set (map fst ws)" for a b
  proof -
    from that obtain x y where "(a, x) \<in> set us" "(b, y) \<in> set ws" by auto
    moreover from this have "snd (b, y) \<le> snd (a, x)" using f(4) unfolding sorted_wrt_append set_append by blast
    ultimately show ?thesis using mem [of a x] mem [of b y] by simp
  qed
  moreover have "set (map fst us) \<union> set (map fst ws) \<subseteq> members ?c" using mem by fastforce
  moreover have "set (map fst (good_nodes ?t)) = set (map fst us)" "fset (fmdom (bad_nodes ?t)) = set (map fst ws)"
    using bad_dom [of ?c ws] by (simp_all add: image_image)
  ultimately show ?thesis
    using t w dist(3) unfolding stake_of_weight [OF dist(1)] stake_of_weight [OF dist(2)]
    by (metis (no_types, lifting) le_sup_iff)
qed

lemma schedule_elects_good:
  assumes g: "rng_ok g" and wf: "committee_wf (ctx_committee ctx)"
    and fits: "33 * com_total_stake (ctx_committee ctx) \<le> u64_max"
    and table: "swap_table_new g ctx index scores = Some (ls_leader_swap_table ls)"
    and good: "bad_nodes (ls_leader_swap_table ls) \<noteq> fmempty \<Longrightarrow> good_nodes (ls_leader_swap_table ls) \<noteq> []"
  shows "\<exists>l. schedule_elect_leader g ctx ls r 0 = Some l \<and> l \<in> members (ctx_committee ctx) \<and>
     l |\<notin>| fmdom (bad_nodes (ls_leader_swap_table ls))"
proof -
  let ?t = "ls_leader_swap_table ls"
  obtain l where l: "elect_leader_stake_based g ctx r 0 = Some l" "l \<in> members (ctx_committee ctx)"
    using elect_leader_stake_based_eq [OF g, of ctx r] wf_bounds(6) [OF wf] by (metis nth_mem)
  show ?thesis
  proof (cases "l |\<in>| fmdom (bad_nodes ?t)")
    case False
    then show ?thesis using l by (simp add: schedule_elect_leader_def swap_def)
  next
    case True
    then have ne: "bad_nodes ?t \<noteq> fmempty" by auto
    obtain l' where l': "l' \<in> set (map fst (good_nodes ?t))" "swap g ?t l r 0 = Some (Some l')"
      using swap_result [OF g good [OF ne] True] by blast
    have "?t \<noteq> swap_table_default" using ne by (auto simp: swap_table_default_def)
    then have "length (scores_per_authority scores) = committee_size (ctx_committee ctx)"
      using swap_table_new_cases(1) [OF table] by blast
    from swap_table_facts [OF g wf swap_table_new_cases(2) [OF table] this fits, of index] table l'(1)
    have "l' \<in> members (ctx_committee ctx)" "l' |\<notin>| fmdom (bad_nodes ?t)" by auto
    then show ?thesis using l l'(2) by (simp add: schedule_elect_leader_def)
  qed
qed

section \<open>Concrete data\<close>

text \<open>A generator that never reorders, and scores in which authority 3 performs worst.\<close>

definition sample_rng :: rng where
  "sample_rng = \<lparr> rng_shuffle = (\<lambda>seed xs. xs),
     rng_choose = (\<lambda>seed xs. case xs of [] \<Rightarrow> None | x # _ \<Rightarrow> Some x),
     rng_choose_multiple_weighted = (\<lambda>seed xs n. Some (take n (rev xs))) \<rparr>"

lemma sample_rng_ok: "rng_ok sample_rng"
  by (auto simp: rng_ok_def sample_rng_def neq_Nil_conv)

definition sample_scores :: "nat list \<Rightarrow> reputation_scores" where
  "sample_scores xs = \<lparr> scores_per_authority = xs, rs_commit_range = range_new 1 300 \<rparr>"

definition weighted_context :: "stake list \<Rightarrow> consensus_context" where
  "weighted_context stakes = sample_context\<lparr> ctx_committee := \<lparr> com_epoch = 0, com_total_stake = sum_list stakes,
     com_quorum_threshold = 2 * sum_list stakes div 3 + 1, com_validity_threshold = (sum_list stakes + 2) div 3,
     com_authorities = map sample_authority stakes \<rparr> \<rparr>"

section \<open>Properties\<close>

text \<open>
  C23. The swap table built from the reputation scores of all authorities exists for every threshold
  up to 33, and it separates the committee: the good and the bad nodes are disjoint sets of members,
  each holds at most the configured percentage of the stake, and every good node scored at least as
  high as every bad node, whatever the random generator does with equal scores.
\<close>

theorem leader_swap_table_separates:
  assumes g: "rng_ok g" and wf: "committee_wf (ctx_committee ctx)"
    and th: "consensus_bad_nodes_stake_threshold ctx \<le> 33"
    and len: "length (scores_per_authority scores) = committee_size (ctx_committee ctx)"
    and fits: "33 * com_total_stake (ctx_committee ctx) \<le> u64_max"
  shows "\<exists>t good bad. swap_table_new g ctx index scores = Some t \<and>
     good = set (map fst (good_nodes t)) \<and> bad = fset (fmdom (bad_nodes t)) \<and>
     good \<union> bad \<subseteq> members (ctx_committee ctx) \<and> good \<inter> bad = {} \<and>
     100 * weight (ctx_committee ctx) good \<le> consensus_bad_nodes_stake_threshold ctx * com_total_stake (ctx_committee ctx) \<and>
     100 * weight (ctx_committee ctx) bad \<le> consensus_bad_nodes_stake_threshold ctx * com_total_stake (ctx_committee ctx) \<and>
     (\<forall>a b. a \<in> good \<and> b \<in> bad \<longrightarrow> scores_per_authority scores ! b \<le> scores_per_authority scores ! a)"
  by (rule swap_table_facts [OF assms])

theorem leader_swap_table_separates_witness:
  "\<exists>t. swap_table_new sample_rng (weighted_context [2, 2, 2, 2, 2]) 300 (sample_scores [9, 3, 5, 5, 1]) = Some t \<and>
     set (map fst (good_nodes t)) \<inter> fset (fmdom (bad_nodes t)) = {} \<and>
     map fst (good_nodes t) = [0] \<and> fmdom (bad_nodes t) = {|4|}"
proof -
  let ?ctx = "weighted_context [2, 2, 2, 2, 2]" and ?scores = "sample_scores [9, 3, 5, 5, 1]"
  have wf: "committee_wf (ctx_committee ?ctx)"
    by (simp add: committee_wf_def weighted_context_def sample_authority_def)
  have th: "consensus_bad_nodes_stake_threshold ?ctx \<le> 33" by code_simp
  have len: "length (scores_per_authority ?scores) = committee_size (ctx_committee ?ctx)" by code_simp
  have fits: "33 * com_total_stake (ctx_committee ?ctx) \<le> u64_max" by code_simp
  let ?t = "the (swap_table_new sample_rng ?ctx 300 ?scores)"
  have "map fst (good_nodes ?t) = [0]" "fmdom (bad_nodes ?t) = {|4|}" by code_simp+
  then show ?thesis using leader_swap_table_separates [OF sample_rng_ok wf th len fits, of 300] by auto
qed



text \<open>
  C25. The offsets of a round enumerate the committee: before swapping, the leaders elected for the
  offsets \<open>0, 1, \<dots>\<close> of a round are pairwise different and every authority is elected for exactly one
  offset, and an offset outside the committee panics.
\<close>

theorem elected_leaders_of_round_differ:
  assumes g: "rng_ok g"
  shows "bij_betw (\<lambda>k. the (elect_leader_stake_based g ctx r k)) {..<committee_size (ctx_committee ctx)}
           (members (ctx_committee ctx)) \<and>
     (\<forall>k. elect_leader_stake_based g ctx r k = None \<longleftrightarrow> committee_size (ctx_committee ctx) \<le> k)"
proof -
  let ?n = "committee_size (ctx_committee ctx)"
  obtain perm where p: "distinct perm" "set perm = members (ctx_committee ctx)" "length perm = ?n"
    "\<And>k. k < ?n \<Longrightarrow> elect_leader_stake_based g ctx r k = Some (perm ! k)"
    using elect_leader_stake_based_eq [OF g] by blast
  have "bij_betw ((!) perm) {..<?n} (set perm)" using bij_betw_nth [OF p(1)] p(3) by simp
  then have "bij_betw (\<lambda>k. the (elect_leader_stake_based g ctx r k)) {..<?n} (members (ctx_committee ctx))"
    using p(2,4) by (subst bij_betw_cong [where g = "(!) perm"]) auto
  moreover have "elect_leader_stake_based g ctx r k = None \<longleftrightarrow> ?n \<le> k" for k
    using p(4) [of k] by (cases "k < ?n") (auto simp: elect_leader_stake_based_def Let_def)
  ultimately show ?thesis by blast
qed

theorem elected_leaders_of_round_differ_witness:
  "bij_betw (\<lambda>k. the (elect_leader_stake_based sample_rng sample_context 7 k)) {..<4} {0, 1, 2, 3}"
  using elected_leaders_of_round_differ [OF sample_rng_ok, of sample_context 7]
  by (simp add: sample_members) (simp add: committee_size_def sample_committee_def)


end
