(* ===== verification/Base_Committer.thy ===== *)
theory Base_Committer
  imports Leader_Schedule Dag_Traversal
begin

text \<open>
  The commit rule of one leader slot (\<^verbatim>\<open>consensus/core/src/base_committer.rs\<close>). A committer reads the
  DAG state and the leader schedule; its own state is only its options. The votes, certificates and
  decisions below follow the source statement by statement.
\<close>

record base_committer_options =
  wave_length :: round
  leader_offset :: nat
  round_offset :: round

definition base_committer_options_default :: base_committer_options where
  "base_committer_options_default = \<lparr> wave_length = DEFAULT_WAVE_LENGTH, leader_offset = 0, round_offset = 0 \<rparr>"

section \<open>Waves\<close>

text \<open>Division by a wave length of 0 panics.\<close>

definition wave_number :: "base_committer_options \<Rightarrow> round \<Rightarrow> nat option" where
  "wave_number opts r = do {
     assert_rs (wave_length opts \<noteq> 0);
     Some ((r - round_offset opts) div wave_length opts)
   }"

definition leader_round :: "base_committer_options \<Rightarrow> nat \<Rightarrow> round" where
  "leader_round opts wave = add_u32 (mul_u32 wave (wave_length opts)) (round_offset opts)"

definition decision_round :: "base_committer_options \<Rightarrow> nat \<Rightarrow> round" where
  "decision_round opts wave =
     add_u32 (sub_u32 (add_u32 (mul_u32 wave (wave_length opts)) (wave_length opts)) 1) (round_offset opts)"

definition elect_leader ::
  "rng \<Rightarrow> consensus_context \<Rightarrow> leader_schedule \<Rightarrow> base_committer_options \<Rightarrow> round \<Rightarrow> slot option option" where
  "elect_leader g ctx ls opts r = do {
     wave \<leftarrow> wave_number opts r;
     if leader_round opts wave \<noteq> r then Some None
     else do {
       a \<leftarrow> schedule_elect_leader g ctx ls r (leader_offset opts);
       Some (Some (Slot r a))
     }
   }"

section \<open>Votes and certificates\<close>

text \<open>
  \<open>find_supported_in\<close> is the loop over the ancestors of a block; entering an ancestor block is a
  recursive call of \<open>find_supported_block\<close> with its test of the round. The recursion follows ancestors, whose
  rounds decrease in a DAG of verified blocks; a missing block is a panic.
\<close>

partial_function (option) find_supported_in ::
  "dag_state \<Rightarrow> slot \<Rightarrow> block_ref list \<Rightarrow> block_ref option option" where
  "find_supported_in ds leader_slot ancestors =
     (case ancestors of
        [] \<Rightarrow> Some None
      | ancestor # rest \<Rightarrow>
        if slot_of ancestor = leader_slot then Some (Some ancestor)
        else if ref_round ancestor \<le> slot_round leader_slot then find_supported_in ds leader_slot rest
        else do {
          b \<leftarrow> get_block ds ancestor;
          support \<leftarrow> (if vb_round b < slot_round leader_slot then Some None
                     else find_supported_in ds leader_slot (vb_ancestors b));
          (case support of
             Some s \<Rightarrow> Some (Some s)
           | None \<Rightarrow> find_supported_in ds leader_slot rest)
        })"

declare find_supported_in.simps [code]

definition find_supported_block :: "dag_state \<Rightarrow> slot \<Rightarrow> verified_block \<Rightarrow> block_ref option option" where
  "find_supported_block ds leader_slot from_block =
     (if vb_round from_block < slot_round leader_slot then Some None
      else find_supported_in ds leader_slot (vb_ancestors from_block))"

definition is_vote :: "dag_state \<Rightarrow> verified_block \<Rightarrow> verified_block \<Rightarrow> bool option" where
  "is_vote ds potential_vote leader_block = do {
     support \<leftarrow> find_supported_block ds (slot_of (vb_reference leader_block)) potential_vote;
     Some (support = Some (vb_reference leader_block))
   }"

text \<open>One reference of a potential certificate: its vote, read from the cache or computed and cached.\<close>

definition vote_of_reference ::
  "consensus_context \<Rightarrow> dag_state \<Rightarrow> verified_block \<Rightarrow> block_ref \<Rightarrow> (block_ref, bool) fmap \<Rightarrow>
     (bool \<times> (block_ref, bool) fmap) option" where
  "vote_of_reference ctx ds leader_block reference all_votes =
     (case fmlookup all_votes reference of
        Some v \<Rightarrow> Some (v, all_votes)
      | None \<Rightarrow> do {
          v \<leftarrow> (case get_block ds reference of
                 Some potential_vote \<Rightarrow> is_vote ds potential_vote leader_block
               | None \<Rightarrow> do { assert_rs (ref_round reference \<le> gc_round ctx ds); Some False });
          Some (v, fmupd reference v all_votes)
        })"

fun certificate_loop ::
  "consensus_context \<Rightarrow> dag_state \<Rightarrow> verified_block \<Rightarrow> block_ref list \<Rightarrow> stake_aggregator \<Rightarrow>
     (block_ref, bool) fmap \<Rightarrow> (bool \<times> (block_ref, bool) fmap) option" where
  "certificate_loop ctx ds leader_block [] agg all_votes = Some (False, all_votes)"
| "certificate_loop ctx ds leader_block (reference # rest) agg all_votes = do {
     (v, all_votes') \<leftarrow> vote_of_reference ctx ds leader_block reference all_votes;
     if v then do {
       (agg', reached) \<leftarrow> agg_add QuorumThreshold agg (ref_author reference) (ctx_committee ctx);
       if reached then Some (True, all_votes')
       else certificate_loop ctx ds leader_block rest agg' all_votes'
     }
     else certificate_loop ctx ds leader_block rest agg all_votes'
   }"

definition is_certificate ::
  "consensus_context \<Rightarrow> dag_state \<Rightarrow> verified_block \<Rightarrow> verified_block \<Rightarrow> (block_ref, bool) fmap \<Rightarrow>
     (bool \<times> (block_ref, bool) fmap) option" where
  "is_certificate ctx ds potential_certificate leader_block all_votes =
     certificate_loop ctx ds leader_block (vb_ancestors potential_certificate) agg_new all_votes"

section \<open>Decisions\<close>

text \<open>\<open>any\<close> over the potential certificates stops at the first certificate.\<close>

fun any_certificate ::
  "consensus_context \<Rightarrow> dag_state \<Rightarrow> verified_block \<Rightarrow> verified_block list \<Rightarrow> (block_ref, bool) fmap \<Rightarrow> bool option" where
  "any_certificate ctx ds leader_block [] all_votes = Some False"
| "any_certificate ctx ds leader_block (p # ps) all_votes = do {
     (c, all_votes') \<leftarrow> is_certificate ctx ds p leader_block all_votes;
     if c then Some True else any_certificate ctx ds leader_block ps all_votes'
   }"

definition decide_leader_from_anchor ::
  "consensus_context \<Rightarrow> dag_state \<Rightarrow> base_committer_options \<Rightarrow> verified_block \<Rightarrow> slot \<Rightarrow> leader_status option" where
  "decide_leader_from_anchor ctx ds opts anchor leader_slot = do {
     let leader_blocks = get_uncommitted_blocks_at_slot ds leader_slot;
     wave \<leftarrow> wave_number opts (slot_round leader_slot);
     potential_certificates \<leftarrow> ancestors_at_round ds anchor (decision_round opts wave);
     certified \<leftarrow> filter_rs (\<lambda>l. any_certificate ctx ds l potential_certificates fmempty) leader_blocks;
     assert_rs (length certified \<le> 1);
     Some (case rev certified of b # _ \<Rightarrow> Commit b | [] \<Rightarrow> Skip leader_slot)
   }"

definition blames :: "authority_index \<Rightarrow> verified_block \<Rightarrow> bool" where
  "blames leader voting_block \<longleftrightarrow> (\<forall>ancestor \<in> set (vb_ancestors voting_block). ref_author ancestor \<noteq> leader)"

definition enough_leader_blame ::
  "consensus_context \<Rightarrow> dag_state \<Rightarrow> round \<Rightarrow> authority_index \<Rightarrow> bool option" where
  "enough_leader_blame ctx ds voting_round leader = do {
     voting_blocks \<leftarrow> get_uncommitted_blocks_at_round ds voting_round;
     quorum_scan (ctx_committee ctx) (blames leader) (\<lambda>b. ref_author (vb_reference b)) voting_blocks agg_new
   }"

fun support_loop ::
  "consensus_context \<Rightarrow> dag_state \<Rightarrow> verified_block \<Rightarrow> verified_block list \<Rightarrow> stake_aggregator \<Rightarrow>
     (block_ref, bool) fmap \<Rightarrow> bool option" where
  "support_loop ctx ds leader_block [] agg all_votes = Some False"
| "support_loop ctx ds leader_block (b # bs) agg all_votes = do {
     (c, all_votes') \<leftarrow> is_certificate ctx ds b leader_block all_votes;
     if c then do {
       (agg', reached) \<leftarrow> agg_add QuorumThreshold agg (ref_author (vb_reference b)) (ctx_committee ctx);
       if reached then Some True else support_loop ctx ds leader_block bs agg' all_votes'
     }
     else support_loop ctx ds leader_block bs agg all_votes'
   }"

definition enough_leader_support ::
  "consensus_context \<Rightarrow> dag_state \<Rightarrow> round \<Rightarrow> verified_block \<Rightarrow> bool option" where
  "enough_leader_support ctx ds decision_rnd leader_block = do {
     decision_blocks \<leftarrow> get_uncommitted_blocks_at_round ds decision_rnd;
     stakes \<leftarrow> traverse (\<lambda>b. committee_stake (ctx_committee ctx) (vb_author b)) decision_blocks;
     if \<not> reached_quorum (ctx_committee ctx) (foldl add_u64 0 stakes) then Some False
     else support_loop ctx ds leader_block decision_blocks agg_new fmempty
   }"

definition try_direct_decide ::
  "consensus_context \<Rightarrow> dag_state \<Rightarrow> base_committer_options \<Rightarrow> slot \<Rightarrow> leader_status option" where
  "try_direct_decide ctx ds opts leader = do {
     let voting_round = add_u32 (slot_round leader) 1;
     blame \<leftarrow> enough_leader_blame ctx ds voting_round (slot_authority leader);
     if blame then Some (Skip leader)
     else do {
       wave \<leftarrow> wave_number opts (slot_round leader);
       let decision_rnd = decision_round opts wave;
       let leader_blocks = get_uncommitted_blocks_at_slot ds leader;
       supported \<leftarrow> filter_rs (enough_leader_support ctx ds decision_rnd) leader_blocks;
       assert_rs (length supported \<le> 1);
       Some (case rev supported of b # _ \<Rightarrow> Commit b | [] \<Rightarrow> Undecided leader)
     }
   }"

text \<open>The loop over the anchors, the statuses at least a wave above the leader slot.\<close>

fun anchor_loop ::
  "consensus_context \<Rightarrow> dag_state \<Rightarrow> base_committer_options \<Rightarrow> slot \<Rightarrow> leader_status list \<Rightarrow> leader_status option" where
  "anchor_loop ctx ds opts leader_slot [] = Some (Undecided leader_slot)"
| "anchor_loop ctx ds opts leader_slot (Commit anchor # rest) = decide_leader_from_anchor ctx ds opts anchor leader_slot"
| "anchor_loop ctx ds opts leader_slot (Skip s # rest) = anchor_loop ctx ds opts leader_slot rest"
| "anchor_loop ctx ds opts leader_slot (Undecided s # rest) = Some (Undecided leader_slot)"

definition try_indirect_decide ::
  "consensus_context \<Rightarrow> dag_state \<Rightarrow> base_committer_options \<Rightarrow> slot \<Rightarrow> leader_status list \<Rightarrow> leader_status option" where
  "try_indirect_decide ctx ds opts leader_slot leaders =
     anchor_loop ctx ds opts leader_slot
       (filter (\<lambda>x. add_u32 (slot_round leader_slot) (wave_length opts) \<le> status_round x) leaders)"

end
