(* ===== verification/Committer_Refinement.thy ===== *)
theory Committer_Refinement
  imports Base_Committer Dag_View
begin

text \<open>
  The committer implements the commit rule: on a well-formed view, for waves of three rounds, the
  traversals, caches and early exits of \<open>BaseCommitter\<close> compute exactly the votes, certificates,
  support and blame of \<open>Commit_Rule\<close>, and no step panics as long as the equivocating authorities stay
  below the validity threshold.
\<close>

section \<open>Waves of three rounds\<close>

definition wave3 :: "base_committer_options \<Rightarrow> bool" where
  "wave3 opts \<longleftrightarrow> wave_length opts = 3 \<and> round_offset opts < 3"

definition leads :: "base_committer_options \<Rightarrow> round \<Rightarrow> bool" where
  "leads opts r \<longleftrightarrow> round_offset opts \<le> r \<and> (r - round_offset opts) mod 3 = 0"

lemma wave3_rounds:
  assumes "wave3 opts" and "r + 3 \<le> u32_max"
  shows "wave_number opts r = Some ((r - round_offset opts) div 3)"
    and "leader_round opts ((r - round_offset opts) div 3) = r \<longleftrightarrow> leads opts r"
    and "leads opts r \<Longrightarrow> decision_round opts ((r - round_offset opts) div 3) = r + 2"
proof -
  let ?o = "round_offset opts"
  define w where "w = (r - ?o) div 3"
  have o: "wave_length opts = 3" "?o < 3" using assms(1) by (simp_all add: wave3_def)
  have w: "w * 3 \<le> r" by (simp add: w_def)
  show "wave_number opts r = Some ((r - ?o) div 3)" using o by (simp add: wave_number_def)
  have m: "mul_u32 w 3 = w * 3" "add_u32 (w * 3) ?o = w * 3 + ?o" "add_u32 (w * 3) 3 = w * 3 + 3"
    using w o assms(2) by simp_all
  show "leader_round opts ((r - ?o) div 3) = r \<longleftrightarrow> leads opts r"
    unfolding w_def [symmetric] leader_round_def o m leads_def using w_def by (cases "?o \<le> r") (auto, presburger+)
  show "decision_round opts ((r - ?o) div 3) = r + 2" if "leads opts r"
  proof -
    have eq: "w * 3 + ?o = r" using that unfolding leads_def w_def by presburger
    have "sub_u32 (w * 3 + 3) 1 = w * 3 + 2" using w assms(2) by simp
    moreover have "add_u32 (w * 3 + 2) ?o = w * 3 + 2 + ?o" by (rule add_u32_exact) (use eq assms(2) in linarith)
    ultimately show ?thesis unfolding w_def [symmetric] decision_round_def o m using eq by simp
  qed
qed

section \<open>Votes\<close>

lemma find_supported_flat:
  assumes "\<And>a. a \<in> set as \<Longrightarrow> ref_round a \<le> slot_round s"
  shows "find_supported_in ds s as = Some (List.find (\<lambda>a. slot_of a = s) as)"
  using assms by (induction as) (simp_all add: find_supported_in.simps)

lemma find_slot:
  assumes "distinct (map ref_author as)"
  shows "List.find (\<lambda>a. slot_of a = slot_of l) as = Some l \<longleftrightarrow> l \<in> set as"
proof
  assume "List.find (\<lambda>a. slot_of a = slot_of l) as = Some l"
  then show "l \<in> set as" by (auto simp: find_Some_iff)
next
  assume l: "l \<in> set as"
  obtain x where x: "List.find (\<lambda>a. slot_of a = slot_of l) as = Some x"
    using l by (cases "List.find (\<lambda>a. slot_of a = slot_of l) as") (auto simp: find_None_iff)
  then have "x \<in> set as" "slot_of x = slot_of l" by (auto simp: find_Some_iff)
  then have "x = l" using assms l by (auto simp: distinct_map inj_on_def slot_of_def)
  then show "List.find (\<lambda>a. slot_of a = slot_of l) as = Some l" using x by simp
qed

lemma is_vote_eq:
  assumes view: "dag_view c G gc B" and v: "B v = Some b" "ref_round v \<le> vb_round lb + 1"
  shows "is_vote ds b lb = Some (votes_for B v (vb_reference lb))"
proof -
  let ?l = "vb_reference lb"
  have r: "vb_round b = ref_round v" using view_reference [OF view v(1)] by auto
  note anc = view_ancestors [OF view v(1)]
  show ?thesis
  proof (cases "ref_round v < vb_round lb")
    case True
    then show ?thesis using r by (simp add: is_vote_def find_supported_block_def votes_for_def)
  next
    case False
    have "find_supported_in ds (slot_of ?l) (vb_ancestors b) = Some (List.find (\<lambda>a. slot_of a = slot_of ?l) (vb_ancestors b))"
      by (rule find_supported_flat) (use anc(2) v(2) in fastforce)
    moreover have "?l \<in> set (vb_ancestors b) \<longleftrightarrow> votes_for B v ?l"
      using anc(2) [of ?l] v by (auto simp: votes_for_def)
    ultimately show ?thesis
      using False r find_slot [OF anc(1), of ?l] by (simp add: is_vote_def find_supported_block_def)
  qed
qed

text \<open>The cache of votes is only ever right.\<close>

definition cache_ok :: "block_map \<Rightarrow> block_ref \<Rightarrow> (block_ref, bool) fmap \<Rightarrow> bool" where
  "cache_ok B l m \<longleftrightarrow> (\<forall>r v. fmlookup m r = Some v \<longrightarrow> v = votes_for B r l)"

lemma cache_ok_empty [simp]: "cache_ok B l fmempty"
  by (simp add: cache_ok_def)

text \<open>What the loops need of the references they visit: the round, and presence above garbage collection.\<close>

definition visitable :: "round \<Rightarrow> block_map \<Rightarrow> round \<Rightarrow> block_ref \<Rightarrow> bool" where
  "visitable gc B n r \<longleftrightarrow> ref_round r \<le> n \<and> (gc < ref_round r \<longrightarrow> B r \<noteq> None)"

lemma vote_of_reference_eq:
  assumes view: "view_ok ctx G ds" and r: "visitable (gc_round ctx ds) (ds_blocks ds) (vb_round lb + 1) r"
    and m: "cache_ok (ds_blocks ds) (vb_reference lb) m"
  shows "\<exists>m'. vote_of_reference ctx ds lb r m = Some (votes_for (ds_blocks ds) r (vb_reference lb), m') \<and>
     cache_ok (ds_blocks ds) (vb_reference lb) m'"
proof (cases "fmlookup m r")
  case (Some v)
  then show ?thesis using m by (auto simp: vote_of_reference_def cache_ok_def)
next
  case None
  have upd: "cache_ok (ds_blocks ds) (vb_reference lb) (fmupd r (votes_for (ds_blocks ds) r (vb_reference lb)) m)"
    using m by (auto simp: cache_ok_def)
  show ?thesis
  proof (cases "ds_blocks ds r")
    case B: None
    then have "votes_for (ds_blocks ds) r (vb_reference lb) = False" by (simp add: votes_for_def)
    then show ?thesis using None B r upd by (simp add: vote_of_reference_def get_block_eq visitable_def not_less)
  next
    case (Some b)
    then show ?thesis
      using None upd is_vote_eq [OF view_okD(3) [OF view] Some] r
      by (simp add: vote_of_reference_def get_block_eq visitable_def)
  qed
qed

section \<open>Certificates\<close>

lemma certificate_loop_eq:
  assumes view: "view_ok ctx G ds" and m: "cache_ok (ds_blocks ds) (vb_reference lb) m"
    and r: "\<And>r. r \<in> set rs \<Longrightarrow> visitable (gc_round ctx ds) (ds_blocks ds) (vb_round lb + 1) r"
  shows "\<exists>m'. cache_ok (ds_blocks ds) (vb_reference lb) m' \<and> certificate_loop ctx ds lb rs agg m =
     map_option (\<lambda>q. (q, m'))
       (quorum_scan (ctx_committee ctx) (\<lambda>r. votes_for (ds_blocks ds) r (vb_reference lb)) ref_author rs agg)"
  using m r
proof (induction rs arbitrary: agg m)
  case Nil
  then show ?case by auto
next
  case (Cons x rs)
  let ?B = "ds_blocks ds" and ?l = "vb_reference lb"
  obtain m' where m': "vote_of_reference ctx ds lb x m = Some (votes_for ?B x ?l, m')" "cache_ok ?B ?l m'"
    using vote_of_reference_eq [OF view _ Cons.prems(1), of x] Cons.prems(2) by auto
  note IH = Cons.IH [OF m'(2)]
  show ?case
  proof (cases "votes_for ?B x ?l")
    case True
    show ?thesis
    proof (cases "agg_add QuorumThreshold agg (ref_author x) (ctx_committee ctx)")
      case None
      then show ?thesis using m' True by auto
    next
      case (Some p)
      then show ?thesis using m' True IH [of "fst p"] Cons.prems(2) by (cases p; cases "snd p") auto
    qed
  next
    case False
    then show ?thesis using m' IH [of agg] Cons.prems(2) by auto
  qed
qed

lemma is_certificate_eq:
  assumes view: "view_ok ctx G ds" and m: "cache_ok (ds_blocks ds) (vb_reference lb) m"
    and x: "ds_blocks ds x = Some p" "ref_round x = vb_round lb + 2" "gc_round ctx ds < ref_round x"
  shows "\<exists>m'. cache_ok (ds_blocks ds) (vb_reference lb) m' \<and>
     is_certificate ctx ds p lb m = Some (certifies (ctx_committee ctx) (ds_blocks ds) x (vb_reference lb), m')"
proof -
  let ?B = "ds_blocks ds" and ?l = "vb_reference lb" and ?c = "ctx_committee ctx"
  note d = view_okD [OF view]
  have vis: "visitable (gc_round ctx ds) ?B (vb_round lb + 1) r" if "r \<in> set (vb_ancestors p)" for r
    using that view_ancestors(2) [OF d(3) x(1), of r] complete_aboveD [of "gc_round ctx ds" ?B x p r] x d(3)
    by (auto simp: visitable_def dag_view_def)
  have "quorum_scan ?c (\<lambda>r. votes_for ?B r ?l) ref_author (vb_ancestors p) agg_new = Some (is_quorum ?c (vote_authors ?B ?l p))"
    unfolding vote_authors_def by (rule quorum_scan_new [OF d(4)]) (use view_ancestors(2) [OF d(3) x(1)] in blast)
  moreover have "certifies ?c ?B x ?l \<longleftrightarrow> is_quorum ?c (vote_authors ?B ?l p)"
    using x(1) by (simp add: certifies_def)
  ultimately show ?thesis
    using certificate_loop_eq [OF view m vis, of "vb_ancestors p" agg_new] by (auto simp: is_certificate_def)
qed

text \<open>The blocks at the decision round, and the certificates among them.\<close>

definition decision_block :: "dag_state \<Rightarrow> round \<Rightarrow> verified_block \<Rightarrow> bool" where
  "decision_block ds r p \<longleftrightarrow> ds_blocks ds (vb_reference p) = Some p \<and> vb_round p = r"

lemma any_certificate_eq:
  assumes view: "view_ok ctx G ds" and m: "cache_ok (ds_blocks ds) (vb_reference lb) m"
    and gc: "gc_round ctx ds < vb_round lb" and ps: "\<And>p. p \<in> set ps \<Longrightarrow> decision_block ds (vb_round lb + 2) p"
  shows "any_certificate ctx ds lb ps m =
     Some (\<exists>p \<in> set ps. certifies (ctx_committee ctx) (ds_blocks ds) (vb_reference p) (vb_reference lb))"
  using m ps
proof (induction ps arbitrary: m)
  case Nil
  then show ?case by simp
next
  case (Cons p ps)
  have p: "ds_blocks ds (vb_reference p) = Some p" "ref_round (vb_reference p) = vb_round lb + 2"
    "gc_round ctx ds < ref_round (vb_reference p)"
    using Cons.prems(2) [of p] gc by (auto simp: decision_block_def)
  obtain m' where "cache_ok (ds_blocks ds) (vb_reference lb) m'" "is_certificate ctx ds p lb m =
      Some (certifies (ctx_committee ctx) (ds_blocks ds) (vb_reference p) (vb_reference lb), m')"
    using is_certificate_eq [OF view Cons.prems(1) p] by blast
  then show ?case using Cons.IH [of m'] Cons.prems(2) by simp
qed

lemma support_loop_eq:
  assumes view: "view_ok ctx G ds" and m: "cache_ok (ds_blocks ds) (vb_reference lb) m"
    and gc: "gc_round ctx ds < vb_round lb" and ps: "\<And>p. p \<in> set ps \<Longrightarrow> decision_block ds (vb_round lb + 2) p"
  shows "support_loop ctx ds lb ps agg m =
     quorum_scan (ctx_committee ctx) (\<lambda>p. certifies (ctx_committee ctx) (ds_blocks ds) (vb_reference p) (vb_reference lb))
       (\<lambda>p. ref_author (vb_reference p)) ps agg"
  using m ps
proof (induction ps arbitrary: agg m)
  case Nil
  then show ?case by simp
next
  case (Cons p ps)
  have p: "ds_blocks ds (vb_reference p) = Some p" "ref_round (vb_reference p) = vb_round lb + 2"
    "gc_round ctx ds < ref_round (vb_reference p)"
    using Cons.prems(2) [of p] gc by (auto simp: decision_block_def)
  obtain m' where "cache_ok (ds_blocks ds) (vb_reference lb) m'" "is_certificate ctx ds p lb m =
      Some (certifies (ctx_committee ctx) (ds_blocks ds) (vb_reference p) (vb_reference lb), m')"
    using is_certificate_eq [OF view Cons.prems(1) p] by blast
  then show ?case
    using Cons.IH [of m'] Cons.prems(2)
    by (auto intro!: Option.bind_cong split: prod.splits)
qed

section \<open>Support and blame\<close>

lemma stakes_sum:
  assumes "committee_wf c" and "\<And>b. b \<in> set bs \<Longrightarrow> vb_author b \<in> members c"
  shows "\<exists>stakes. traverse (\<lambda>b. committee_stake c (vb_author b)) bs = Some stakes \<and>
     weight c (vb_author ` set bs) \<le> sum_list stakes \<and> sum_list stakes \<le> length bs * com_total_stake c"
  using assms(2)
proof (induction bs)
  case Nil
  then show ?case by simp
next
  case (Cons b bs)
  let ?s = "auth_stake (com_authorities c ! vb_author b)"
  obtain stakes where st: "traverse (\<lambda>b. committee_stake c (vb_author b)) bs = Some stakes"
    "weight c (vb_author ` set bs) \<le> sum_list stakes" "sum_list stakes \<le> length bs * com_total_stake c"
    using Cons by auto
  have b: "vb_author b \<in> members c" using Cons.prems by simp
  then have "committee_stake c (vb_author b) = Some ?s" by (simp add: members_def)
  moreover have "weight c (insert (vb_author b) (vb_author ` set bs)) \<le> ?s + weight c (vb_author ` set bs)"
    by (cases "vb_author b \<in> vb_author ` set bs") (auto simp: insert_absorb weight_insert)
  moreover have "?s \<le> com_total_stake c"
    using weight_le_total [OF assms(1), of "{vb_author b}"] b by (simp add: weight_def)
  ultimately show ?case using st by auto
qed

lemma enough_leader_support_eq:
  assumes view: "view_ok ctx G ds" and lb: "last_commit_round ds < vb_round lb + 2" "gc_round ctx ds < vb_round lb"
    and fits: "vb_round lb + 2 < u32_max"
  shows "enough_leader_support ctx ds (vb_round lb + 2) lb = Some (supported (ctx_committee ctx) (ds_blocks ds) (vb_reference lb))"
proof -
  let ?c = "ctx_committee ctx" and ?B = "ds_blocks ds" and ?l = "vb_reference lb"
  note d = view_okD [OF view]
  obtain bs where bs: "get_uncommitted_blocks_at_round ds (vb_round lb + 2) = Some bs"
    "\<And>b. b \<in> set bs \<longleftrightarrow> decision_block ds (vb_round lb + 2) b" "length bs \<le> fcard (fmdom (ds_recent_blocks ds))"
    using blocks_at_round [OF view lb(1) fits] by (auto simp: decision_block_def)
  have mem: "vb_author b \<in> members ?c" if "b \<in> set bs" for b
    using that bs(2) view_author [OF d(3), of "vb_reference b" b] by (auto simp: decision_block_def)
  let ?S = "{ref_author (vb_reference b) |b. b \<in> set bs \<and> certifies ?c ?B (vb_reference b) ?l}"
  have "?S = {ref_author x |x. ref_round x = ref_round ?l + 2 \<and> certifies ?c ?B x ?l}" (is "_ = ?T")
  proof
    show "?T \<subseteq> ?S"
    proof
      fix a assume "a \<in> ?T"
      then obtain x p where x: "a = ref_author x" "ref_round x = ref_round ?l + 2" "certifies ?c ?B x ?l" "?B x = Some p"
        by (auto simp: certifies_def)
      have "vb_reference p = x" using view_reference [OF d(3) x(4)] .
      moreover from this have "p \<in> set bs" unfolding bs(2) decision_block_def using x by auto
      ultimately show "a \<in> ?S" using x by blast
    qed
  next
    show "?S \<subseteq> ?T"
    proof
      fix a assume "a \<in> ?S"
      then obtain b where b: "a = ref_author (vb_reference b)" "b \<in> set bs" "certifies ?c ?B (vb_reference b) ?l" by blast
      then have "ref_round (vb_reference b) = ref_round ?l + 2" by (simp add: bs(2) decision_block_def)
      then show "a \<in> ?T" using b by blast
    qed
  qed
  then have sup: "supported ?c ?B ?l \<longleftrightarrow> is_quorum ?c ?S" by (simp add: supported_def)
  obtain stakes where st: "traverse (\<lambda>b. committee_stake ?c (vb_author b)) bs = Some stakes"
    "weight ?c (vb_author ` set bs) \<le> sum_list stakes" "sum_list stakes \<le> length bs * com_total_stake ?c"
    using stakes_sum [OF d(4) mem] by blast
  have "length bs * com_total_stake ?c \<le> fcard (fmdom (ds_recent_blocks ds)) * com_total_stake ?c"
    using bs(3) by (rule mult_le_mono1)
  then have "0 + sum_list stakes \<le> u64_max" using st(3) d(6) by linarith
  then have sum: "foldl add_u64 0 stakes = sum_list stakes" using foldl_add_u64_exact [of 0 stakes] by simp
  show ?thesis
  proof (cases "reached_quorum ?c (sum_list stakes)")
    case True
    have "support_loop ctx ds lb bs agg_new fmempty = Some (is_quorum ?c ?S)"
      using support_loop_eq [OF view cache_ok_empty lb(2)] bs(2)
      by (subst quorum_scan_new [symmetric, OF d(4)]) (use mem in auto)
    then show ?thesis using bs(1) st(1) sum True sup by (simp add: enough_leader_support_def)
  next
    case False
    have "?S \<subseteq> vb_author ` set bs" by auto
    then have "weight ?c ?S \<le> weight ?c (vb_author ` set bs)" by (rule weight_mono) simp
    then have "\<not> is_quorum ?c ?S" using False st(2) by (simp add: is_quorum_def reached_quorum_def)
    then show ?thesis using bs(1) st(1) sum False sup by (simp add: enough_leader_support_def)
  qed
qed

lemma enough_leader_blame_eq:
  assumes view: "view_ok ctx G ds" and s: "last_commit_round ds \<le> slot_round s" "slot_round s + 1 < u32_max"
  shows "enough_leader_blame ctx ds (slot_round s + 1) (slot_authority s) = Some (blamed (ctx_committee ctx) (ds_blocks ds) s)"
proof -
  let ?c = "ctx_committee ctx" and ?B = "ds_blocks ds"
  note d = view_okD [OF view]
  obtain bs where bs: "get_uncommitted_blocks_at_round ds (slot_round s + 1) = Some bs"
    "\<And>b. b \<in> set bs \<longleftrightarrow> ref_round (vb_reference b) = slot_round s + 1 \<and> ?B (vb_reference b) = Some b"
    using blocks_at_round [OF view _ s(2)] s(1) by auto
  have mem: "ref_author (vb_reference b) \<in> members ?c" if "b \<in> set bs" for b
    using that bs(2) view_author [OF d(3), of "vb_reference b" b] by auto
  have "{ref_author (vb_reference b) |b. b \<in> set bs \<and> blames (slot_authority s) b} =
      {ref_author v |v b. ref_round v = slot_round s + 1 \<and> ?B v = Some b \<and>
        (\<forall>a \<in> set (vb_ancestors b). ref_author a \<noteq> slot_authority s)}" (is "?L = ?R")
  proof
    show "?R \<subseteq> ?L" using bs(2) view_reference [OF d(3)] unfolding blames_def by blast
  qed (use bs(2) in \<open>unfold blames_def, blast\<close>)
  then show ?thesis
    using bs(1) quorum_scan_new [OF d(4), of bs "blames (slot_authority s)" "\<lambda>b. ref_author (vb_reference b)"] mem
    by (simp add: enough_leader_blame_def blamed_def)
qed

section \<open>Decisions\<close>

lemma at_most_one:
  assumes "distinct (map f xs)" and "\<And>x y. x \<in> set xs \<Longrightarrow> y \<in> set xs \<Longrightarrow> Q x \<Longrightarrow> Q y \<Longrightarrow> f x = f y"
  shows "filter Q xs = [] \<or> (\<exists>x. filter Q xs = [x])"
proof (cases "filter Q xs")
  case (Cons x ys)
  have dist: "distinct (map f (filter Q xs))" using assms(1) distinct_map_filter by blast
  have "ys = []"
  proof (rule ccontr)
    assume "ys \<noteq> []"
    then obtain y zs where ys: "ys = y # zs" by (cases ys) auto
    have "x \<in> set (filter Q xs)" "y \<in> set (filter Q xs)" unfolding Cons ys by simp_all
    then have "f x = f y" using assms(2) by simp
    then show False using dist unfolding Cons ys by simp
  qed
  then show ?thesis using Cons by blast
qed blast

definition safe_state :: "consensus_context \<Rightarrow> block_ref fset \<Rightarrow> authority_index set \<Rightarrow> dag_state \<Rightarrow> bool" where
  "safe_state ctx G F ds \<longleftrightarrow>
     view_ok ctx G ds \<and> F \<subseteq> members (ctx_committee ctx) \<and> below_validity (ctx_committee ctx) F \<and>
     no_equivocation F (ds_blocks ds)"

lemma safe_stateD:
  assumes "safe_state ctx G F ds"
  shows "view_ok ctx G ds"
    "safe_views (ctx_committee ctx) G F (gc_round ctx ds) (ds_blocks ds) (gc_round ctx ds) (ds_blocks ds)"
  using assms view_okD [of ctx G ds] by (auto simp: safe_state_def intro: safe_view_self)

text \<open>The slots a committer is asked about: not below the last commit, led by it, within the rounds of \<open>u32\<close>.\<close>

definition decidable :: "consensus_context \<Rightarrow> dag_state \<Rightarrow> base_committer_options \<Rightarrow> slot \<Rightarrow> bool" where
  "decidable ctx ds opts s \<longleftrightarrow>
     wave3 opts \<and> leads opts (slot_round s) \<and> last_commit_round ds \<le> slot_round s \<and>
     gc_round ctx ds < slot_round s \<and> slot_round s + 3 \<le> u32_max"

text \<open>The candidates of a slot that satisfy a property at most one block can have.\<close>

lemma unique_candidate:
  assumes view: "view_ok ctx G ds" and s: "gc_round ctx ds < slot_round s"
    and uniq: "\<And>l l'. slot_of l = s \<Longrightarrow> slot_of l' = s \<Longrightarrow> Q l \<Longrightarrow> Q l' \<Longrightarrow> l = l'"
  obtains "filter (\<lambda>b. Q (vb_reference b)) (get_uncommitted_blocks_at_slot ds s) = []"
      "\<forall>l. ds_blocks ds l \<noteq> None \<longrightarrow> slot_of l = s \<longrightarrow> \<not> Q l"
  | b where "filter (\<lambda>b. Q (vb_reference b)) (get_uncommitted_blocks_at_slot ds s) = [b]"
      "ds_blocks ds (vb_reference b) = Some b" "slot_of (vb_reference b) = s" "Q (vb_reference b)"
proof -
  let ?bs = "get_uncommitted_blocks_at_slot ds s"
  note slot = blocks_at_slot [OF view s]
  have "filter (\<lambda>b. Q (vb_reference b)) ?bs = [] \<or> (\<exists>b. filter (\<lambda>b. Q (vb_reference b)) ?bs = [b])"
    by (rule at_most_one [OF slot(2)]) (use slot(1) uniq in blast)
  then show thesis
  proof
    assume nil: "filter (\<lambda>b. Q (vb_reference b)) ?bs = []"
    have "\<not> Q l" if l: "ds_blocks ds l \<noteq> None" "slot_of l = s" for l
    proof -
      obtain b where b: "ds_blocks ds l = Some b" using l(1) by auto
      then have "vb_reference b = l" using view_reference [OF view_okD(3) [OF view]] by blast
      then show ?thesis using slot(1) [of b] b l(2) nil by (auto simp: filter_empty_conv)
    qed
    then show thesis using that(1) nil by blast
  next
    assume "\<exists>b. filter (\<lambda>b. Q (vb_reference b)) ?bs = [b]"
    then obtain b where one: "filter (\<lambda>b. Q (vb_reference b)) ?bs = [b]" by blast
    then have "b \<in> set (filter (\<lambda>b. Q (vb_reference b)) ?bs)" by simp
    then show thesis using that(2) [OF one] slot(1) [of b] by simp
  qed
qed

lemma try_direct_decide_outcome:
  assumes safe: "safe_state ctx G F ds" and s: "decidable ctx ds opts s"
  shows "\<exists>st. try_direct_decide ctx ds opts s = Some st \<and> direct_outcome (ctx_committee ctx) (ds_blocks ds) s st"
proof -
  let ?c = "ctx_committee ctx" and ?B = "ds_blocks ds" and ?bs = "get_uncommitted_blocks_at_slot ds s"
  note view = safe_stateD(1) [OF safe]
  note d = view_okD [OF view]
  have s': "wave3 opts" "leads opts (slot_round s)" "last_commit_round ds \<le> slot_round s"
    "gc_round ctx ds < slot_round s" "slot_round s + 3 \<le> u32_max" using s by (auto simp: decidable_def)
  note w = wave3_rounds [OF s'(1,5)]
  have blame: "enough_leader_blame ctx ds (add_u32 (slot_round s) 1) (slot_authority s) = Some (blamed ?c ?B s)"
    using enough_leader_blame_eq [OF view s'(3)] s'(5) by simp
  show ?thesis
  proof (cases "blamed ?c ?B s")
    case True
    then show ?thesis using blame by (simp add: try_direct_decide_def)
  next
    case False
    have "filter_rs (enough_leader_support ctx ds (slot_round s + 2)) ?bs =
        Some (filter (\<lambda>b. supported ?c ?B (vb_reference b)) ?bs)"
    proof (rule filter_rs_eq)
      fix b assume "b \<in> set ?bs"
      then have "vb_round b = slot_round s" using blocks_at_slot(1) [OF view s'(4)] by auto
      then show "enough_leader_support ctx ds (slot_round s + 2) b = Some (supported ?c ?B (vb_reference b))"
        using enough_leader_support_eq [OF view, of b] s' by simp
    qed
    then have eq: "try_direct_decide ctx ds opts s = (do {
        assert_rs (length (filter (\<lambda>b. supported ?c ?B (vb_reference b)) ?bs) \<le> 1);
        Some (case rev (filter (\<lambda>b. supported ?c ?B (vb_reference b)) ?bs) of b # _ \<Rightarrow> Commit b | [] \<Rightarrow> Undecided s) })"
      using blame False w(1) w(3) [OF s'(2)] by (simp add: try_direct_decide_def Let_def)
    show ?thesis
    proof (rule unique_candidate [OF view s'(4), of "supported ?c ?B"])
      fix l l' assume "slot_of l = s" "slot_of l' = s" "supported ?c ?B l" "supported ?c ?B l'"
      then show "l = l'"
        using certified_unique [OF safe_stateD(2) [OF safe]] supported_certified [OF d(4,3)] by metis
    qed (use eq False in auto)
  qed
qed

lemma decide_leader_from_anchor_outcome:
  assumes safe: "safe_state ctx G F ds" and s: "decidable ctx ds opts s"
    and A: "ds_blocks ds (vb_reference anchor) = Some anchor" "slot_round s + 3 \<le> vb_round anchor"
  shows "\<exists>st. decide_leader_from_anchor ctx ds opts anchor s = Some st \<and>
     anchor_outcome (ctx_committee ctx) (ds_blocks ds) (vb_reference anchor) s st"
proof -
  let ?c = "ctx_committee ctx" and ?B = "ds_blocks ds" and ?bs = "get_uncommitted_blocks_at_slot ds s"
  let ?link = "certified_link ?c ?B (vb_reference anchor)"
  note view = safe_stateD(1) [OF safe]
  have s': "wave3 opts" "leads opts (slot_round s)" "gc_round ctx ds < slot_round s" "slot_round s + 3 \<le> u32_max"
    using s by (auto simp: decidable_def)
  note w = wave3_rounds [OF s'(1,4)]
  obtain ps where ps: "ancestors_at_round ds anchor (slot_round s + 2) = Some ps"
    "\<And>x. x \<in> set ps \<longleftrightarrow> ?B (vb_reference x) = Some x \<and> ref_round (vb_reference x) = slot_round s + 2 \<and>
        causal ?B (slot_round s + 2) {vb_reference anchor} (vb_reference x)"
    using ancestors_at_round_view [OF view _ A(1), of "slot_round s + 2"] A(2) s'(3) by auto
  have "filter_rs (\<lambda>l. any_certificate ctx ds l ps fmempty) ?bs = Some (filter (\<lambda>b. ?link (vb_reference b)) ?bs)"
  proof (rule filter_rs_eq)
    fix b assume "b \<in> set ?bs"
    then have b: "vb_round b = slot_round s" using blocks_at_slot(1) [OF view s'(3)] by auto
    have "(\<exists>p \<in> set ps. certifies ?c ?B (vb_reference p) (vb_reference b)) \<longleftrightarrow> ?link (vb_reference b)"
      unfolding certified_link_def certifies_def using ps(2) b view_reference [OF view_okD(3) [OF view]]
      by (metis vb_reference_sel(1))
    then show "any_certificate ctx ds b ps fmempty = Some (?link (vb_reference b))"
      using any_certificate_eq [OF view cache_ok_empty, of b ps] b s'(3) ps(2) by (simp add: decision_block_def)
  qed
  then have eq: "decide_leader_from_anchor ctx ds opts anchor s = (do {
      assert_rs (length (filter (\<lambda>b. ?link (vb_reference b)) ?bs) \<le> 1);
      Some (case rev (filter (\<lambda>b. ?link (vb_reference b)) ?bs) of b # _ \<Rightarrow> Commit b | [] \<Rightarrow> Skip s) })"
    using w(1) w(3) [OF s'(2)] ps(1) by (simp add: decide_leader_from_anchor_def Let_def)
  show ?thesis
  proof (rule unique_candidate [OF view s'(3), of ?link])
    fix l l' assume "slot_of l = s" "slot_of l' = s" "?link l" "?link l'"
    then show "l = l'" using certified_unique [OF safe_stateD(2) [OF safe]] by (auto simp: certified_link_def)
  qed (use eq in auto)
qed

end
