(* ===== verification/Universal_Committer.thy ===== *)
theory Universal_Committer
  imports Committer_Refinement "HOL-Library.Sublist"
begin

text \<open>
  \<open>UniversalCommitter\<close> (\<^verbatim>\<open>consensus/core/src/universal_committer.rs\<close>): the sequence of leader decisions. It is
  refined to the commit rule, and two validators that run it on different views of the DAG decide
  prefixes of the same sequence.
\<close>

section \<open>The committer\<close>

text \<open>The context, the leader schedule and the DAG state are shared, so a committer is its options.\<close>

record universal_committer =
  uc_committers :: "base_committer_options list"

record universal_committer_builder =
  ucb_wave_length :: round
  ucb_number_of_leaders :: nat
  ucb_pipeline :: bool

definition universal_committer_builder_new :: universal_committer_builder where
  "universal_committer_builder_new =
     \<lparr> ucb_wave_length = DEFAULT_WAVE_LENGTH, ucb_number_of_leaders = 1, ucb_pipeline = False \<rparr>"

definition with_wave_length :: "round \<Rightarrow> universal_committer_builder \<Rightarrow> universal_committer_builder" where
  "with_wave_length n u = u\<lparr> ucb_wave_length := n \<rparr>"

definition with_number_of_leaders :: "nat \<Rightarrow> universal_committer_builder \<Rightarrow> universal_committer_builder" where
  "with_number_of_leaders n u = u\<lparr> ucb_number_of_leaders := n \<rparr>"

definition with_pipeline :: "bool \<Rightarrow> universal_committer_builder \<Rightarrow> universal_committer_builder" where
  "with_pipeline p u = u\<lparr> ucb_pipeline := p \<rparr>"

definition universal_committer_build :: "universal_committer_builder \<Rightarrow> universal_committer" where
  "universal_committer_build u =
     (let pipeline_stages = (if ucb_pipeline u then ucb_wave_length u else 1) in
      \<lparr> uc_committers =
          concat (map (\<lambda>ro. map (\<lambda>lo. \<lparr> wave_length = ucb_wave_length u, leader_offset = lo, round_offset = ro \<rparr>)
            [0..<ucb_number_of_leaders u]) [0..<pipeline_stages]) \<rparr>)"

section \<open>Deciding\<close>

text \<open>
  The two nested loops visit the rounds downwards and, in each round, the committers backwards;
  \<open>break 'outer\<close> ends both. They are one loop over the pairs in that order, with the leaders decided
  so far as its state.
\<close>

fun decide_loop ::
  "rng \<Rightarrow> consensus_context \<Rightarrow> leader_schedule \<Rightarrow> dag_state \<Rightarrow> slot \<Rightarrow> (round \<times> base_committer_options) list \<Rightarrow>
     (leader_status \<times> decision) list \<Rightarrow> (leader_status \<times> decision) list option" where
  "decide_loop g ctx ls ds last_decided [] leaders = Some leaders"
| "decide_loop g ctx ls ds last_decided ((r, committer) # rest) leaders = do {
     elected \<leftarrow> elect_leader g ctx ls committer r;
     (case elected of
        None \<Rightarrow> decide_loop g ctx ls ds last_decided rest leaders
      | Some s \<Rightarrow>
        if s = last_decided then Some leaders
        else do {
          status \<leftarrow> try_direct_decide ctx ds committer s;
          if is_decided status
          then decide_loop g ctx ls ds last_decided rest ((status, Direct) # leaders)
          else do {
            status' \<leftarrow> try_indirect_decide ctx ds committer s (map fst leaders);
            decide_loop g ctx ls ds last_decided rest ((status', Indirect) # leaders)
          }
        })
   }"

text \<open>The longest prefix of decided leaders; the metrics read the authority of each of them.\<close>

fun decided_sequence ::
  "consensus_context \<Rightarrow> (leader_status \<times> decision) list \<Rightarrow> decided_leader list option" where
  "decided_sequence ctx [] = Some []"
| "decided_sequence ctx ((leader, decision) # rest) =
     (if status_round leader = GENESIS_ROUND then decided_sequence ctx rest
      else case into_decided_leader leader (decision = Direct) of
        None \<Rightarrow> Some []
      | Some decided \<Rightarrow> do {
          _ \<leftarrow> committee_authority (ctx_committee ctx) (slot_authority (decided_slot decided));
          ds \<leftarrow> decided_sequence ctx rest;
          Some (decided # ds)
        })"

definition try_decide ::
  "rng \<Rightarrow> consensus_context \<Rightarrow> leader_schedule \<Rightarrow> dag_state \<Rightarrow> universal_committer \<Rightarrow> slot \<Rightarrow> decided_leader list option" where
  "try_decide g ctx ls ds uc last_decided = do {
     let last_round = (if mysticeti_num_leaders_per_round ctx = Some 1 then add_u32 (slot_round last_decided) 1
                       else slot_round last_decided);
     let rounds = rev [last_round..<ds_highest_accepted_round ds - 2 + 1];
     leaders \<leftarrow> decide_loop g ctx ls ds last_decided
       (concat (map (\<lambda>r. map (Pair r) (rev (uc_committers uc))) rounds)) [];
     decided_sequence ctx leaders
   }"

definition get_leaders ::
  "rng \<Rightarrow> consensus_context \<Rightarrow> leader_schedule \<Rightarrow> universal_committer \<Rightarrow> round \<Rightarrow> authority_index list option" where
  "get_leaders g ctx ls uc r = do {
     elected \<leftarrow> traverse (\<lambda>committer. elect_leader g ctx ls committer r) (uc_committers uc);
     Some (map slot_authority (List.map_filter (\<lambda>s. s) elected))
   }"

text \<open>\<open>filter_map\<close> of iterators.\<close>

lemma map_filter_facts:
  "List.map_filter f [] = []"
  "List.map_filter f (x # xs) = (case f x of None \<Rightarrow> List.map_filter f xs | Some y \<Rightarrow> y # List.map_filter f xs)"
  "List.map_filter f (xs @ ys) = List.map_filter f xs @ List.map_filter f ys"
  by (auto simp: List.map_filter_def filter_map comp_def split: option.splits)

lemma map_filter_map: "List.map_filter f (map h xs) = List.map_filter (\<lambda>x. f (h x)) xs"
  by (simp add: List.map_filter_def filter_map comp_def)

lemma map_filter_concat: "List.map_filter f (concat xss) = concat (map (List.map_filter f) xss)"
  by (induction xss) (simp_all only: concat.simps list.map map_filter_facts)

lemma set_map_filter: "y \<in> set (List.map_filter f xs) \<longleftrightarrow> (\<exists>x \<in> set xs. f x = Some y)"
  by (induction xs) (auto simp: map_filter_facts split: option.splits)

section \<open>Leader slots\<close>

text \<open>
  With one leader per round and elections that never fail, the slots of a round are a function of the
  schedule.
\<close>

definition elections_ok :: "rng \<Rightarrow> consensus_context \<Rightarrow> leader_schedule \<Rightarrow> universal_committer \<Rightarrow> bool" where
  "elections_ok g ctx ls uc \<longleftrightarrow>
     (\<forall>opts \<in> set (uc_committers uc). wave3 opts \<and>
        (\<forall>r. \<exists>a \<in> members (ctx_committee ctx). schedule_elect_leader g ctx ls r (leader_offset opts) = Some a))"

definition committer_slot :: "rng \<Rightarrow> consensus_context \<Rightarrow> leader_schedule \<Rightarrow> round \<Rightarrow> base_committer_options \<Rightarrow> slot option" where
  "committer_slot g ctx ls r opts =
     (if leads opts r then Some (Slot r (the (schedule_elect_leader g ctx ls r (leader_offset opts)))) else None)"

definition leader_slots :: "rng \<Rightarrow> consensus_context \<Rightarrow> leader_schedule \<Rightarrow> universal_committer \<Rightarrow> round \<Rightarrow> slot list" where
  "leader_slots g ctx ls uc r = List.map_filter (committer_slot g ctx ls r) (uc_committers uc)"

lemma elect_leader_eq:
  assumes "elections_ok g ctx ls uc" and "opts \<in> set (uc_committers uc)" and "r + 3 \<le> u32_max"
  shows "elect_leader g ctx ls opts r = Some (committer_slot g ctx ls r opts)"
proof -
  have w: "wave3 opts" using assms by (auto simp: elections_ok_def)
  obtain a where "schedule_elect_leader g ctx ls r (leader_offset opts) = Some a"
    using assms(1,2) by (auto simp: elections_ok_def)
  then show ?thesis
    using wave3_rounds [OF w assms(3)] by (auto simp: elect_leader_def committer_slot_def)
qed

lemma committer_slot_Some:
  "committer_slot g ctx ls r opts = Some s \<Longrightarrow> leads opts r \<and> slot_round s = r"
  by (auto simp: committer_slot_def split: if_splits)

lemma leader_slots_round: "s \<in> set (leader_slots g ctx ls uc r) \<Longrightarrow> slot_round s = r"
  by (auto simp: leader_slots_def set_map_filter dest: committer_slot_Some)

lemma leader_slots_upto_round:
  "s \<in> set (slots_upto (leader_slots g ctx ls uc) k h) \<Longrightarrow> k \<le> slot_round s \<and> slot_round s < h"
  by (rule slots_upto_round [where slots = "leader_slots g ctx ls uc"]) (auto dest: leader_slots_round)

lemma leader_slots_member:
  assumes "elections_ok g ctx ls uc" and "s \<in> set (leader_slots g ctx ls uc r)"
  shows "slot_authority s \<in> members (ctx_committee ctx)"
proof -
  obtain opts where "opts \<in> set (uc_committers uc)" "s = Slot r (the (schedule_elect_leader g ctx ls r (leader_offset opts)))"
    using assms(2) by (auto simp: leader_slots_def set_map_filter committer_slot_def split: if_splits)
  then show ?thesis using assms(1) by (auto simp: elections_ok_def dest!: bspec spec [of _ r])
qed

section \<open>Refinement\<close>

text \<open>
  A status computed for a slot is sound when, if decided, the commit rule allows it, and the outcome
  of the direct rule is used whenever it decides.
\<close>

definition sound_status ::
  "consensus_context \<Rightarrow> (round \<Rightarrow> slot list) \<Rightarrow> dag_state \<Rightarrow> slot \<Rightarrow> leader_status \<Rightarrow> bool" where
  "sound_status ctx slots ds s st \<longleftrightarrow>
     (if is_decided st then decides (ctx_committee ctx) slots (ds_blocks ds) s st else st = Undecided s) \<and>
     (direct_outcome (ctx_committee ctx) (ds_blocks ds) s st \<or> direct_outcome (ctx_committee ctx) (ds_blocks ds) s (Undecided s))"

lemma sound_status_round: "sound_status ctx slots ds s st \<Longrightarrow> status_round st = slot_round s"
  using decides_decided [of "ctx_committee ctx" slots "ds_blocks ds" s st]
  by (auto simp: sound_status_def split: if_splits dest!: decides_commit_block)

text \<open>The loop over the anchors finds the first committed slot after skipped ones.\<close>

definition anchored ::
  "consensus_context \<Rightarrow> (round \<Rightarrow> slot list) \<Rightarrow> dag_state \<Rightarrow> slot \<Rightarrow> slot list \<Rightarrow> leader_status \<Rightarrow> bool" where
  "anchored ctx slots ds s ss st \<longleftrightarrow>
     (\<exists>pre a post anchor. ss = pre @ a # post \<and>
        (\<forall>p \<in> set pre. decides (ctx_committee ctx) slots (ds_blocks ds) p (Skip p)) \<and>
        decides (ctx_committee ctx) slots (ds_blocks ds) a (Commit anchor) \<and> slot_round s + 3 \<le> slot_round a \<and>
        anchor_outcome (ctx_committee ctx) (ds_blocks ds) (vb_reference anchor) s st)"

lemma anchored_first:
  "decides (ctx_committee ctx) slots (ds_blocks ds) a (Commit anchor) \<Longrightarrow> slot_round s + 3 \<le> slot_round a \<Longrightarrow>
     anchor_outcome (ctx_committee ctx) (ds_blocks ds) (vb_reference anchor) s st \<Longrightarrow> anchored ctx slots ds s (a # ss) st"
  unfolding anchored_def by (metis append_Nil empty_iff list.set(1))

lemma anchored_skip:
  assumes "decides (ctx_committee ctx) slots (ds_blocks ds) x (Skip x)" and "anchored ctx slots ds s ss st"
  shows "anchored ctx slots ds s (x # ss) st"
proof -
  from assms(2) obtain pre a post anchor where *: "ss = pre @ a # post"
    "\<forall>p \<in> set pre. decides (ctx_committee ctx) slots (ds_blocks ds) p (Skip p)"
    "decides (ctx_committee ctx) slots (ds_blocks ds) a (Commit anchor)" "slot_round s + 3 \<le> slot_round a"
    "anchor_outcome (ctx_committee ctx) (ds_blocks ds) (vb_reference anchor) s st" by (auto simp: anchored_def)
  then have "x # ss = (x # pre) @ a # post"
    "\<forall>p \<in> set (x # pre). decides (ctx_committee ctx) slots (ds_blocks ds) p (Skip p)" using assms(1) by auto
  with * show ?thesis unfolding anchored_def by blast
qed

lemma anchor_loop_sound:
  assumes safe: "safe_state ctx G F ds" and s: "decidable ctx ds opts s"
    and sound: "list_all2 (sound_status ctx slots ds) ss sts" and up: "\<forall>x \<in> set ss. slot_round s + 3 \<le> slot_round x"
  shows "\<exists>st. anchor_loop ctx ds opts s sts = Some st \<and> (st = Undecided s \<or> anchored ctx slots ds s ss st)"
  using sound up
proof (induction ss sts rule: list_all2_induct)
  case Nil
  then show ?case by simp
next
  case (Cons x ss st sts)
  show ?case
  proof (cases st)
    case (Commit anchor)
    then have d: "decides (ctx_committee ctx) slots (ds_blocks ds) x (Commit anchor)"
      using Cons.hyps(1) by (simp add: sound_status_def)
    then have "ds_blocks ds (vb_reference anchor) = Some anchor" "slot_round s + 3 \<le> vb_round anchor"
      using decides_commit_block [OF d] Cons.prems by auto
    from decide_leader_from_anchor_outcome [OF safe s this] anchored_first [OF d] Commit Cons.prems show ?thesis
      by auto
  next
    case (Skip y)
    then have d: "decides (ctx_committee ctx) slots (ds_blocks ds) x (Skip y)"
      using Cons.hyps(1) by (simp add: sound_status_def)
    then have "y = x" using decides_decided [OF d] by simp
    then show ?thesis using Skip d anchored_skip [of ctx slots ds x s ss] Cons.IH Cons.prems by auto
  next
    case (Undecided y)
    then show ?thesis by simp
  qed
qed

text \<open>The pairs of the loop in ascending order, and their slots.\<close>

definition decision_pairs :: "universal_committer \<Rightarrow> round \<Rightarrow> round \<Rightarrow> (round \<times> base_committer_options) list" where
  "decision_pairs uc lo hi = concat (map (\<lambda>r. map (Pair r) (uc_committers uc)) [lo..<hi])"

definition slots_of ::
  "rng \<Rightarrow> consensus_context \<Rightarrow> leader_schedule \<Rightarrow> (round \<times> base_committer_options) list \<Rightarrow> slot list" where
  "slots_of g ctx ls ps = List.map_filter (\<lambda>(r, opts). committer_slot g ctx ls r opts) ps"

lemma slots_of_simps [simp]:
  "slots_of g ctx ls [] = []"
  "slots_of g ctx ls (ps @ qs) = slots_of g ctx ls ps @ slots_of g ctx ls qs"
  "slots_of g ctx ls ((r, opts) # ps) =
     (case committer_slot g ctx ls r opts of None \<Rightarrow> slots_of g ctx ls ps | Some s \<Rightarrow> s # slots_of g ctx ls ps)"
  by (auto simp: slots_of_def map_filter_facts split: option.splits)

lemma decision_pairs_rev:
  "concat (map (\<lambda>r. map (Pair r) (rev (uc_committers uc))) (rev [lo..<hi])) = rev (decision_pairs uc lo hi)"
  by (simp add: decision_pairs_def rev_concat rev_map [symmetric] comp_def)

lemma slots_of_pairs: "slots_of g ctx ls (decision_pairs uc lo hi) = slots_upto (leader_slots g ctx ls uc) lo hi"
proof -
  have "leader_slots g ctx ls uc =
      (\<lambda>r. List.map_filter (\<lambda>(r, opts). committer_slot g ctx ls r opts) (map (Pair r) (uc_committers uc)))"
    unfolding leader_slots_def map_filter_map by simp
  then show ?thesis
    by (simp add: slots_of_def decision_pairs_def slots_upto_def map_filter_concat comp_def)
qed

lemma decision_pairs_mem: "(r, opts) \<in> set (decision_pairs uc lo hi) \<longleftrightarrow> lo \<le> r \<and> r < hi \<and> opts \<in> set (uc_committers uc)"
  by (auto simp: decision_pairs_def)

lemma decision_pairs_sorted: "sorted (map fst (decision_pairs uc lo hi))"
proof (induction "hi - lo" arbitrary: lo)
  case 0
  then show ?case by (simp add: decision_pairs_def)
next
  case (Suc n)
  then have "decision_pairs uc lo hi = map (Pair lo) (uc_committers uc) @ decision_pairs uc (Suc lo) hi"
    by (simp add: decision_pairs_def upt_conv_Cons)
  moreover have "sorted (map fst (decision_pairs uc (Suc lo) hi))" using Suc by simp
  moreover have "lo \<le> r" if "(r, opts) \<in> set (decision_pairs uc (Suc lo) hi)" for r opts
    using that by (simp add: decision_pairs_mem)
  ultimately show ?case by (auto simp: sorted_append comp_def map_replicate_const)
qed

lemma slots_of_round: "s \<in> set (slots_of g ctx ls ps) \<Longrightarrow> \<exists>opts. (slot_round s, opts) \<in> set ps"
  by (auto simp: slots_of_def set_map_filter dest!: committer_slot_Some)

lemma slots_upto_filter:
  assumes slots: "\<And>r s. s \<in> set (slots r) \<Longrightarrow> slot_round s = r" and "lo \<le> k"
  shows "filter (\<lambda>s. k \<le> slot_round s) (slots_upto slots lo hi) = slots_upto slots k hi"
proof -
  have rnd: "a \<le> slot_round s \<and> slot_round s < b" if "s \<in> set (slots_upto slots a b)" for s a b
    using slots_upto_round [of slots s a b] slots that by blast
  show ?thesis
  proof (cases "k \<le> hi")
    case True
    have "filter (\<lambda>s. k \<le> slot_round s) (slots_upto slots lo k) = []"
      by (fastforce simp: filter_empty_conv dest: rnd)
    moreover have "filter (\<lambda>s. k \<le> slot_round s) (slots_upto slots k hi) = slots_upto slots k hi"
      by (fastforce simp: filter_id_conv dest: rnd)
    ultimately show ?thesis using slots_upto_append [OF assms(2) True, of slots] by simp
  next
    case False
    then show ?thesis by (fastforce simp: filter_empty_conv dest: rnd)
  qed
qed

lemma list_all2_filter:
  "list_all2 P xs ys \<Longrightarrow> (\<And>x y. P x y \<Longrightarrow> Q x \<longleftrightarrow> R y) \<Longrightarrow> list_all2 P (filter Q xs) (filter R ys)"
  by (induction rule: list_all2_induct) auto

text \<open>The later slots, a wave above the current one, are those of the full sequence.\<close>

lemma later_slots:
  assumes "decision_pairs uc lo hi = pre @ (r, opts) # suf"
  shows "filter (\<lambda>s. r + 3 \<le> slot_round s) (slots_of g ctx ls suf) = slots_upto (leader_slots g ctx ls uc) (r + 3) hi"
proof -
  let ?f = "filter (\<lambda>s. r + 3 \<le> slot_round s)"
  have "sorted (map fst (pre @ [(r, opts)]) @ map fst suf)"
    using decision_pairs_sorted [of uc lo hi] assms by simp
  then have "fst p \<le> r" if "p \<in> set (pre @ [(r, opts)])" for p
    using that by (auto simp: sorted_append)
  then have "?f (slots_of g ctx ls (pre @ [(r, opts)])) = []"
    using slots_of_round [of _ g ctx ls "pre @ [(r, opts)]"] unfolding filter_empty_conv by fastforce
  then have "?f (slots_of g ctx ls suf) = ?f (slots_of g ctx ls ((pre @ [(r, opts)]) @ suf))"
    unfolding slots_of_simps(2) [of g ctx ls "pre @ [(r, opts)]" suf] filter_append by simp
  also have "\<dots> = ?f (slots_upto (leader_slots g ctx ls uc) lo hi)"
    using slots_of_pairs [of g ctx ls uc lo hi] assms by simp
  also have "\<dots> = slots_upto (leader_slots g ctx ls uc) (r + 3) hi"
  proof (rule slots_upto_filter)
    show "lo \<le> r + 3" using decision_pairs_mem [of r opts uc lo hi] assms by auto
  qed (rule leader_slots_round)
  finally show ?thesis .
qed

lemma decide_loop_sound:
  assumes safe: "safe_state ctx G F ds" and el: "elections_ok g ctx ls uc"
    and lo: "slot_round last_decided < lo" "last_commit_round ds < lo" and hi: "hi + 2 \<le> u32_max"
    and pairs: "decision_pairs uc lo hi = pre @ suf"
    and sound: "list_all2 (sound_status ctx (leader_slots g ctx ls uc) ds) (slots_of g ctx ls suf) (map fst leaders)"
  shows "\<exists>leaders'. decide_loop g ctx ls ds last_decided (rev pre) leaders = Some leaders' \<and>
     list_all2 (sound_status ctx (leader_slots g ctx ls uc) ds) (slots_of g ctx ls (pre @ suf)) (map fst leaders')"
  using pairs sound
proof (induction pre arbitrary: suf leaders rule: rev_induct)
  case Nil
  then show ?case by simp
next
  case (snoc p pre)
  let ?slots = "leader_slots g ctx ls uc" and ?sound = "sound_status ctx (leader_slots g ctx ls uc) ds"
  obtain r opts where p: "p = (r, opts)" by (cases p)
  have mem: "lo \<le> r" "r < hi" "opts \<in> set (uc_committers uc)"
    using decision_pairs_mem [of r opts uc lo hi] snoc.prems(1) p by auto
  have fits: "r + 3 \<le> u32_max" using mem(2) hi by linarith
  have el': "elect_leader g ctx ls opts r = Some (committer_slot g ctx ls r opts)"
    by (rule elect_leader_eq [OF el mem(3) fits])
  have IH: "decision_pairs uc lo hi = pre @ p # suf" using snoc.prems(1) by simp
  show ?case
  proof (cases "committer_slot g ctx ls r opts")
    case None
    then have "slots_of g ctx ls (p # suf) = slots_of g ctx ls suf" using p by simp
    then show ?thesis using snoc.IH [OF IH] snoc.prems(2) el' None p by auto
  next
    case (Some s)
    then have s: "leads opts r" "slot_round s = r" using committer_slot_Some by auto
    have slots: "slots_of g ctx ls (p # suf) = s # slots_of g ctx ls suf" using Some p by simp
    have dec: "decidable ctx ds opts s"
      using s mem el lo fits gc_round_le [of ctx ds] by (auto simp: decidable_def elections_ok_def)
    obtain st where st: "try_direct_decide ctx ds opts s = Some st"
      "direct_outcome (ctx_committee ctx) (ds_blocks ds) s st"
      using try_direct_decide_outcome [OF safe dec] by blast
    have ne: "s \<noteq> last_decided" using s(2) mem(1) lo(1) by auto
    show ?thesis
    proof (cases "is_decided st")
      case True
      then have "?sound s st" using st(2) by (simp add: sound_status_def decides.direct)
      then have "\<exists>leaders'. decide_loop g ctx ls ds last_decided (rev pre) ((st, Direct) # leaders) = Some leaders' \<and>
          list_all2 ?sound (slots_of g ctx ls (pre @ p # suf)) (map fst leaders')"
        using snoc.IH [OF IH, of "(st, Direct) # leaders"] snoc.prems(2) slots by simp
      then show ?thesis using el' Some p ne st(1) True by simp
    next
      case False
      then have und: "direct_outcome (ctx_committee ctx) (ds_blocks ds) s (Undecided s)"
        using st(2) by (cases st) auto
      let ?later = "slots_upto ?slots (r + 3) hi"
      have later: "list_all2 ?sound ?later (filter (\<lambda>x. r + 3 \<le> status_round x) (map fst leaders))"
        using list_all2_filter [OF snoc.prems(2), of "\<lambda>s. r + 3 \<le> slot_round s" "\<lambda>x. r + 3 \<le> status_round x"]
          later_slots [OF IH [unfolded p], of g ctx ls] sound_status_round by metis
      have up: "\<forall>x \<in> set ?later. slot_round s + 3 \<le> slot_round x"
        using leader_slots_upto_round s(2) by blast
      have w: "add_u32 (slot_round s) (wave_length opts) = r + 3"
        using s(2) fits el mem(3) by (auto simp: elections_ok_def wave3_def)
      obtain st' where st': "try_indirect_decide ctx ds opts s (map fst leaders) = Some st'"
        "st' = Undecided s \<or> anchored ctx ?slots ds s ?later st'"
        using anchor_loop_sound [OF safe dec later up] by (auto simp: try_indirect_decide_def w)
      have "?sound s st'"
        using st'(2) und s(2) unfolding anchored_def sound_status_def
        by (cases "is_decided st'") (auto intro: decides.indirect elim!: anchor_outcome.elims)
      then have "\<exists>leaders'. decide_loop g ctx ls ds last_decided (rev pre) ((st', Indirect) # leaders) = Some leaders' \<and>
          list_all2 ?sound (slots_of g ctx ls (pre @ p # suf)) (map fst leaders')"
        using snoc.IH [OF IH, of "(st', Indirect) # leaders"] snoc.prems(2) slots by simp
      then show ?thesis using el' Some p ne st(1) False st'(1) by simp
    qed
  qed
qed

section \<open>The decided sequence\<close>

fun status_of :: "decided_leader \<Rightarrow> leader_status" where
  "status_of (DecidedCommit b direct) = Commit b"
| "status_of (DecidedSkip s) = Skip s"

lemma into_decided_leader_Some:
  "into_decided_leader st direct = Some d \<Longrightarrow> status_of d = st \<and> is_decided st"
  by (cases st) auto

lemma decided_sequence_sound:
  assumes "list_all2 (sound_status ctx slots ds) ss (map fst leaders)"
    and "\<forall>s \<in> set ss. 0 < slot_round s \<and> slot_authority s \<in> members (ctx_committee ctx)"
  shows "\<exists>D. decided_sequence ctx leaders = Some D \<and> prefix (map decided_slot D) ss \<and>
     (\<forall>d \<in> set D. decides (ctx_committee ctx) slots (ds_blocks ds) (decided_slot d) (status_of d)) \<and>
     (length D < length ss \<longrightarrow>
        direct_outcome (ctx_committee ctx) (ds_blocks ds) (ss ! length D) (Undecided (ss ! length D)))"
  using assms
proof (induction leaders arbitrary: ss)
  case Nil
  then show ?case by simp
next
  case (Cons l leaders)
  obtain st dec where l: "l = (st, dec)" by (cases l)
  from Cons.prems(1) l obtain s ss' where ss: "ss = s # ss'" "sound_status ctx slots ds s st"
    "list_all2 (sound_status ctx slots ds) ss' (map fst leaders)" by (auto simp: list_all2_Cons2)
  have rnd: "status_round st \<noteq> GENESIS_ROUND"
    using sound_status_round [OF ss(2)] Cons.prems(2) ss(1) by (auto simp: GENESIS_ROUND_def)
  show ?case
  proof (cases "into_decided_leader st (dec = Direct)")
    case None
    then have "st = Undecided s" using ss(2) by (auto simp: into_decided_leader_None_iff sound_status_def)
    then show ?thesis using None l rnd ss by (auto simp: sound_status_def)
  next
    case (Some d)
    have st: "status_of d = st" "is_decided st" using into_decided_leader_Some [OF Some] by auto
    then have dec: "decides (ctx_committee ctx) slots (ds_blocks ds) s st" using ss(2) by (simp add: sound_status_def)
    then have slot: "decided_slot d = s"
      using decides_decided [OF dec] decides_commit_block st(1) by (cases d) auto
    obtain D where D: "decided_sequence ctx leaders = Some D" "prefix (map decided_slot D) ss'"
      "\<forall>d \<in> set D. decides (ctx_committee ctx) slots (ds_blocks ds) (decided_slot d) (status_of d)"
      "length D < length ss' \<longrightarrow>
        direct_outcome (ctx_committee ctx) (ds_blocks ds) (ss' ! length D) (Undecided (ss' ! length D))"
      using Cons.IH [OF ss(3)] Cons.prems(2) ss(1) by auto
    obtain x where "committee_authority (ctx_committee ctx) (slot_authority s) = Some x"
      using Cons.prems(2) ss(1) by (auto simp: committee_authority_def members_def committee_size_def)
    then show ?thesis using l rnd Some slot D dec st ss(1) by auto
  qed
qed

lemma try_decide_sound:
  assumes safe: "safe_state ctx G F ds" and el: "elections_ok g ctx ls uc"
    and one: "mysticeti_num_leaders_per_round ctx = Some 1"
    and last: "last_commit_round ds \<le> slot_round last_decided" "slot_round last_decided < u32_max"
  defines "slots \<equiv> leader_slots g ctx ls uc"
  shows "\<exists>D. try_decide g ctx ls ds uc last_decided = Some D \<and>
     prefix (map decided_slot D)
       (slots_upto slots (slot_round last_decided + 1) (ds_highest_accepted_round ds - 2 + 1)) \<and>
     (\<forall>d \<in> set D. decides (ctx_committee ctx) slots (ds_blocks ds) (decided_slot d) (status_of d)) \<and>
     (\<forall>s. length D < length (slots_upto slots (slot_round last_decided + 1) (ds_highest_accepted_round ds - 2 + 1)) \<longrightarrow>
        s = slots_upto slots (slot_round last_decided + 1) (ds_highest_accepted_round ds - 2 + 1) ! length D \<longrightarrow>
        direct_outcome (ctx_committee ctx) (ds_blocks ds) s (Undecided s))"
proof -
  let ?lo = "slot_round last_decided + 1" and ?hi = "ds_highest_accepted_round ds - 2 + 1"
  have hi: "?hi + 2 \<le> u32_max" using view_okD(5) [OF safe_stateD(1) [OF safe]] by linarith
  obtain leaders where leaders: "decide_loop g ctx ls ds last_decided (rev (decision_pairs uc ?lo ?hi)) [] = Some leaders"
    "list_all2 (sound_status ctx slots ds) (slots_of g ctx ls (decision_pairs uc ?lo ?hi)) (map fst leaders)"
    using decide_loop_sound [OF safe el _ _ hi, of last_decided ?lo "decision_pairs uc ?lo ?hi" "[]" "[]"] last(1)
    by (auto simp: slots_def)
  note snd = leaders(2) [unfolded slots_of_pairs, folded slots_def]
  have "\<forall>s \<in> set (slots_upto slots ?lo ?hi). 0 < slot_round s \<and> slot_authority s \<in> members (ctx_committee ctx)"
    using leader_slots_upto_round [of _ g ctx ls uc ?lo ?hi] leader_slots_member [OF el]
    unfolding slots_def slots_upto_def by fastforce
  from decided_sequence_sound [OF snd this] obtain D where "decided_sequence ctx leaders = Some D"
    "prefix (map decided_slot D) (slots_upto slots ?lo ?hi)"
    "\<forall>d \<in> set D. decides (ctx_committee ctx) slots (ds_blocks ds) (decided_slot d) (status_of d)"
    "length D < length (slots_upto slots ?lo ?hi) \<longrightarrow> direct_outcome (ctx_committee ctx) (ds_blocks ds)
       (slots_upto slots ?lo ?hi ! length D) (Undecided (slots_upto slots ?lo ?hi ! length D))" by blast
  moreover have "try_decide g ctx ls ds uc last_decided = decided_sequence ctx leaders"
    using leaders(1) one last(2) unfolding try_decide_def Let_def
    by (simp add: decision_pairs_rev del: upt_Suc Suc_eq_plus1 add_Suc_right One_nat_def add_2_eq_Suc')
  ultimately show ?thesis by auto
qed

section \<open>Agreement of two validators\<close>

text \<open>Two sequences over prefixes of one slot sequence that agree slot by slot are comparable.\<close>

lemma comparable_sequences:
  assumes "prefix (map f xs) zs" and "prefix (map f ys) zs"
    and "\<And>x y. x \<in> set xs \<Longrightarrow> y \<in> set ys \<Longrightarrow> f x = f y \<Longrightarrow> h x = h y"
  shows "prefix (map h xs) (map h ys) \<or> prefix (map h ys) (map h xs)"
  using assms
proof (induction xs arbitrary: ys zs)
  case Nil
  then show ?case by simp
next
  case (Cons x xs)
  show ?case
  proof (cases ys)
    case (Cons y ys')
    with Cons.prems(1,2) obtain zs' where zs: "f x = f y" "prefix (map f xs) zs'" "prefix (map f ys') zs'"
      by (cases zs) auto
    have "h x = h y" using Cons.prems(3) [of x y] Cons zs(1) by simp
    moreover have "prefix (map h xs) (map h ys') \<or> prefix (map h ys') (map h xs)"
      by (rule Cons.IH [OF zs(2,3)]) (use Cons.prems(3) Cons in auto)
    ultimately show ?thesis using Cons by (metis Cons_prefix_Cons list.simps(9))
  qed simp
qed

lemma slots_upto_prefix: "prefix (slots_upto slots k h) (slots_upto slots k (max h h'))"
  using slots_upto_append [of k h "max h h'" slots] by (cases "k \<le> h") auto

lemma try_decide_prefixes:
  assumes safe1: "safe_state ctx1 G F ds1" and safe2: "safe_state ctx2 G F ds2"
    and views: "safe_views (ctx_committee ctx1) G F (gc_round ctx1 ds1) (ds_blocks ds1) (gc_round ctx2 ds2) (ds_blocks ds2)"
    and com: "ctx_committee ctx2 = ctx_committee ctx1"
    and el: "elections_ok g ctx1 ls1 uc" "elections_ok g ctx2 ls2 uc"
    and slots: "leader_slots g ctx1 ls1 uc = leader_slots g ctx2 ls2 uc"
    and one: "mysticeti_num_leaders_per_round ctx1 = Some 1" "mysticeti_num_leaders_per_round ctx2 = Some 1"
    and last: "last_commit_round ds1 \<le> slot_round s" "last_commit_round ds2 \<le> slot_round s" "slot_round s < u32_max"
  shows "\<exists>D1 D2. try_decide g ctx1 ls1 ds1 uc s = Some D1 \<and> try_decide g ctx2 ls2 ds2 uc s = Some D2 \<and>
     (prefix (map status_of D1) (map status_of D2) \<or> prefix (map status_of D2) (map status_of D1))"
proof -
  let ?slots = "leader_slots g ctx2 ls2 uc"
  let ?up = "slots_upto ?slots (slot_round s + 1)"
  obtain D1 where D1: "try_decide g ctx1 ls1 ds1 uc s = Some D1"
    "prefix (map decided_slot D1) (?up (ds_highest_accepted_round ds1 - 2 + 1))"
    "\<forall>d \<in> set D1. decides (ctx_committee ctx1) ?slots (ds_blocks ds1) (decided_slot d) (status_of d)"
    using try_decide_sound [OF safe1 el(1) one(1) last(1,3)] slots by auto
  obtain D2 where D2: "try_decide g ctx2 ls2 ds2 uc s = Some D2"
    "prefix (map decided_slot D2) (?up (ds_highest_accepted_round ds2 - 2 + 1))"
    "\<forall>d \<in> set D2. decides (ctx_committee ctx1) ?slots (ds_blocks ds2) (decided_slot d) (status_of d)"
    using try_decide_sound [OF safe2 el(2) one(2) last(2,3)] com by auto
  let ?h = "max (ds_highest_accepted_round ds1 - 2 + 1) (ds_highest_accepted_round ds2 - 2 + 1)"
  have pre: "prefix (map decided_slot D1) (?up ?h)" "prefix (map decided_slot D2) (?up ?h)"
    using D1(2) D2(2) slots_upto_prefix prefix_order.trans max.commute by metis+
  have "status_of x = status_of y" if "x \<in> set D1" "y \<in> set D2" "decided_slot x = decided_slot y" for x y
  proof -
    have "decided_slot x \<in> set (?up ?h)" using that(1) set_mono_prefix [OF pre(1)] by auto
    then have "slot_round s < slot_round (decided_slot x)" using leader_slots_upto_round by fastforce
    then have gc: "gc_round ctx1 ds1 < slot_round (decided_slot x)" "gc_round ctx2 ds2 < slot_round (decided_slot x)"
      using last gc_round_le [of ctx1 ds1] gc_round_le [of ctx2 ds2] by linarith+
    show ?thesis
      by (rule decides_agree [OF views _ _ _ gc, of ?slots])
        (use D1(3) D2(3) that leader_slots_round in \<open>auto\<close>)
  qed
  then have "prefix (map status_of D1) (map status_of D2) \<or> prefix (map status_of D2) (map status_of D1)"
    using comparable_sequences [OF pre] by blast
  then show ?thesis using D1(1) D2(1) by blast
qed

end
