(* ===== verification/Consensus_Safety.thy ===== *)
theory Consensus_Safety
  imports Universal_Committer Sample_States
begin

text \<open>
  Safety of the commit rule on the states validators can reach. The faulty authorities \<open>F\<close> hold less
  than the validity threshold of stake and may do anything; the others do not sign two blocks for one
  slot, and a reference determines its block because the digest of a block does.
\<close>

section \<open>Assumptions on the network\<close>

definition honest_authors :: "authority_index set \<Rightarrow> dag_state \<Rightarrow> dag_state \<Rightarrow> bool" where
  "honest_authors F ds1 ds2 \<longleftrightarrow>
     (\<forall>r s. ds_blocks ds1 r \<noteq> None \<or> ds_blocks ds2 r \<noteq> None \<longrightarrow> ds_blocks ds1 s \<noteq> None \<or> ds_blocks ds2 s \<noteq> None \<longrightarrow>
        slot_of r = slot_of s \<longrightarrow> ref_author r \<notin> F \<longrightarrow> r = s)"

definition stake_sums_fit :: "consensus_context \<Rightarrow> dag_state \<Rightarrow> bool" where
  "stake_sums_fit ctx ds \<longleftrightarrow> fcard (fmdom (ds_recent_blocks ds)) * com_total_stake (ctx_committee ctx) \<le> u64_max"

definition faulty_set :: "consensus_context \<Rightarrow> authority_index set \<Rightarrow> bool" where
  "faulty_set ctx F \<longleftrightarrow> F \<subseteq> members (ctx_committee ctx) \<and> below_validity (ctx_committee ctx) F"

lemma reachable_view:
  assumes "dag_reachable cr ctx ds" "ctx_ok ctx" "stake_sums_fit ctx ds"
  shows "view_ok ctx (genesis_refs cr ctx) ds"
  using dag_inv_view [OF dag_reachable_inv [OF assms(1,2)]] assms(3) by (simp add: stake_sums_fit_def)

lemma reachable_safe_state:
  assumes "dag_reachable cr ctx ds" "ctx_ok ctx" "stake_sums_fit ctx ds" "faulty_set ctx F" "honest_authors F ds ds"
  shows "safe_state ctx (genesis_refs cr ctx) F ds"
  using reachable_view [OF assms(1-3)] assms(4,5)
  by (auto simp: safe_state_def faulty_set_def honest_authors_def no_equivocation_def)

lemma reachable_safe_views:
  assumes r1: "dag_reachable cr ctx1 ds1" "ctx_ok ctx1" "stake_sums_fit ctx1 ds1"
    and r2: "dag_reachable cr ctx2 ds2" "ctx_ok ctx2" "stake_sums_fit ctx2 ds2"
    and com: "ctx_committee ctx2 = ctx_committee ctx1" "genesis_refs cr ctx2 = genesis_refs cr ctx1"
    and F: "faulty_set ctx1 F" "same_blocks ds1 ds2" "honest_authors F ds1 ds2"
  shows "safe_views (ctx_committee ctx1) (genesis_refs cr ctx1) F
     (gc_round ctx1 ds1) (ds_blocks ds1) (gc_round ctx2 ds2) (ds_blocks ds2)"
proof -
  note v1 = view_okD [OF reachable_view [OF r1]] and v2 = view_okD [OF reachable_view [OF r2], unfolded com]
  show ?thesis
    using v1(3,4) v2(3) F unfolding safe_views_def faulty_set_def same_blocks_def honest_authors_def by blast
qed

lemma honest_authors_each:
  "honest_authors F ds1 ds2 \<Longrightarrow> honest_authors F ds1 ds1" "honest_authors F ds1 ds2 \<Longrightarrow> honest_authors F ds2 ds2"
  by (auto simp: honest_authors_def)

section \<open>Elections\<close>

text \<open>Elections depend on the committee and the swap table only.\<close>

lemma schedule_elect_leader_cong:
  assumes "ctx_committee ctx1 = ctx_committee ctx2" "ls_leader_swap_table ls1 = ls_leader_swap_table ls2"
  shows "schedule_elect_leader g ctx1 ls1 r k = schedule_elect_leader g ctx2 ls2 r k"
  using assms by (simp add: schedule_elect_leader_def elect_leader_stake_based_def)

lemma elections_cong:
  assumes "ctx_committee ctx1 = ctx_committee ctx2" "ls_leader_swap_table ls1 = ls_leader_swap_table ls2"
  shows "elections_ok g ctx1 ls1 uc = elections_ok g ctx2 ls2 uc"
    and "leader_slots g ctx1 ls1 uc = leader_slots g ctx2 ls2 uc"
proof -
  show "elections_ok g ctx1 ls1 uc = elections_ok g ctx2 ls2 uc"
    using assms(1) schedule_elect_leader_cong [OF assms] by (simp add: elections_ok_def)
  have "committer_slot g ctx1 ls1 = committer_slot g ctx2 ls2"
    using schedule_elect_leader_cong [OF assms] by (intro ext) (simp add: committer_slot_def)
  then show "leader_slots g ctx1 ls1 uc = leader_slots g ctx2 ls2 uc" by (intro ext) (simp add: leader_slots_def)
qed

text \<open>The committer of the node: one leader per round, pipelined over the three rounds of a wave.\<close>

definition node_committer :: universal_committer where
  "node_committer = universal_committer_build (with_pipeline True (with_number_of_leaders 1 universal_committer_builder_new))"

lemma node_committers:
  "uc_committers node_committer = map (\<lambda>ro. \<lparr> wave_length = 3, leader_offset = 0, round_offset = ro \<rparr>) [0, 1, 2]"
  by code_simp

lemma node_committer_elections:
  assumes "\<And>r. \<exists>a \<in> members (ctx_committee ctx). schedule_elect_leader g ctx ls r 0 = Some a"
  shows "elections_ok g ctx ls node_committer"
  using assms by (auto simp: elections_ok_def node_committers wave3_def)

text \<open>Every round has exactly one slot.\<close>

lemma offset_iff: "k < 3 \<Longrightarrow> (k \<le> r \<and> (r - k) mod 3 = 0) \<longleftrightarrow> r mod 3 = (k :: nat)"
  using mod_eq_dvd_iff_nat [of k r 3] by (auto simp: mod_eq_0_iff_dvd)

lemma node_committer_slots:
  "leader_slots g ctx ls node_committer r = [Slot r (the (schedule_elect_leader g ctx ls r 0))]"
proof -
  have "r mod 3 = 0 \<or> r mod 3 = 1 \<or> r mod 3 = 2" by linarith
  then show ?thesis
    by (auto simp: leader_slots_def node_committers committer_slot_def leads_def offset_iff map_filter_facts)
qed

text \<open>A schedule whose swap table was built by the code and can replace its bad nodes.\<close>

definition schedule_ok :: "rng \<Rightarrow> consensus_context \<Rightarrow> leader_schedule \<Rightarrow> bool" where
  "schedule_ok g ctx ls \<longleftrightarrow>
     rng_ok g \<and> 33 * com_total_stake (ctx_committee ctx) \<le> u64_max \<and>
     (\<exists>index scores. swap_table_new g ctx index scores = Some (ls_leader_swap_table ls)) \<and>
     (bad_nodes (ls_leader_swap_table ls) \<noteq> fmempty \<longrightarrow> good_nodes (ls_leader_swap_table ls) \<noteq> [])"

lemma schedule_ok_elections:
  assumes "schedule_ok g ctx ls" and "ctx_ok ctx"
  shows "elections_ok g ctx ls node_committer"
proof (rule node_committer_elections)
  fix r
  obtain index scores where "rng_ok g" "33 * com_total_stake (ctx_committee ctx) \<le> u64_max"
    "swap_table_new g ctx index scores = Some (ls_leader_swap_table ls)"
    "bad_nodes (ls_leader_swap_table ls) \<noteq> fmempty \<Longrightarrow> good_nodes (ls_leader_swap_table ls) \<noteq> []"
    using assms(1) unfolding schedule_ok_def by blast
  from schedule_elects_good [OF this(1) _ this(2-4), of r] assms(2)
  show "\<exists>a \<in> members (ctx_committee ctx). schedule_elect_leader g ctx ls r 0 = Some a"
    unfolding ctx_ok_def by blast
qed

section \<open>Sample states\<close>

definition agree_on_known :: "dag_state \<Rightarrow> dag_state \<Rightarrow> bool" where
  "agree_on_known ds1 ds2 \<longleftrightarrow> (\<forall>r \<in> set (known_refs ds1). ds_blocks ds2 r = None \<or> ds_blocks ds2 r = ds_blocks ds1 r)"

lemma same_blocks_check:
  assumes "agree_on_known ds1 ds2"
  shows "same_blocks ds1 ds2"
  unfolding same_blocks_def
proof (intro allI impI)
  fix r b b' assume "ds_blocks ds1 r = Some b" "ds_blocks ds2 r = Some b'"
  moreover from this have "r \<in> set (known_refs ds1)" by (intro known_refs_complete) simp
  ultimately show "b = b'" using assms unfolding agree_on_known_def by fastforce
qed

lemma honest_authors_check:
  assumes "list_all (\<lambda>r. ref_digest r = d) (known_refs ds1)" "list_all (\<lambda>r. ref_digest r = d) (known_refs ds2)"
  shows "honest_authors F ds1 ds2"
proof -
  have "ref_digest r = d" if "ds_blocks ds1 r \<noteq> None \<or> ds_blocks ds2 r \<noteq> None" for r
    using that known_refs_complete assms by (auto simp: list_all_iff)
  then show ?thesis unfolding honest_authors_def by (auto simp: slot_of_def intro: block_ref.expand)
qed

definition sample_schedule :: leader_schedule where
  "sample_schedule = leader_schedule_new swap_table_default"

lemma sample_schedule_ok: "schedule_ok sample_rng sample_context sample_schedule"
proof -
  have "swap_table_new sample_rng sample_context 0 reputation_scores_default = Some swap_table_default" by code_simp
  then show ?thesis
    unfolding schedule_ok_def sample_schedule_def leader_schedule_new_def
    using sample_rng_ok by (auto simp: swap_table_default_def sample_committee_def)
qed

lemma sample_views:
  "stake_sums_fit sample_context sample_view0" "stake_sums_fit sample_context1 sample_view1"
  "same_blocks sample_view0 sample_view1" "honest_authors {3} sample_view0 sample_view1" "faulty_set sample_context {3}"
  "last_commit_round sample_view0 = 0" "last_commit_round sample_view1 = 0"
proof -
  show "stake_sums_fit sample_context sample_view0" by code_simp
  show "stake_sums_fit sample_context1 sample_view1" by code_simp
  show "same_blocks sample_view0 sample_view1" by (rule same_blocks_check) code_simp
  show "honest_authors {3} sample_view0 sample_view1" by (rule honest_authors_check [where d = 0]) code_simp+
  show "last_commit_round sample_view0 = 0" by code_simp
  show "last_commit_round sample_view1 = 0" by code_simp
  have "below_validity sample_committee {3}" by code_simp
  then show "faulty_set sample_context {3}" by (simp add: faulty_set_def sample_members)
qed

section \<open>Properties\<close>

text \<open>
  C1. Validators agree on leaders. Two validators of one epoch reach any two states of their DAGs by
  accepting verified blocks, flushing, linking and committing in any order; the equivocating
  authorities hold less than the validity threshold of stake. From the same last decided slot and
  the same swap table, \<open>try_decide\<close> of the node's committer panics for neither, and the two sequences of
  decisions (commit of one particular block, or skip, per slot) are prefixes one of the other.
\<close>

theorem validators_agree_on_leaders:
  assumes r1: "dag_reachable cr ctx1 ds1" "ctx_ok ctx1" "stake_sums_fit ctx1 ds1"
    and r2: "dag_reachable cr ctx2 ds2" "ctx_ok ctx2" "stake_sums_fit ctx2 ds2"
    and com: "ctx_committee ctx2 = ctx_committee ctx1" "genesis_refs cr ctx2 = genesis_refs cr ctx1"
    and F: "faulty_set ctx1 F" "same_blocks ds1 ds2" "honest_authors F ds1 ds2"
    and sched: "schedule_ok g ctx1 ls1" "ls_leader_swap_table ls2 = ls_leader_swap_table ls1"
    and one: "mysticeti_num_leaders_per_round ctx1 = Some 1" "mysticeti_num_leaders_per_round ctx2 = Some 1"
    and last: "last_commit_round ds1 \<le> slot_round s" "last_commit_round ds2 \<le> slot_round s" "slot_round s < u32_max"
  shows "\<exists>D1 D2. try_decide g ctx1 ls1 ds1 node_committer s = Some D1 \<and>
     try_decide g ctx2 ls2 ds2 node_committer s = Some D2 \<and>
     (prefix (map status_of D1) (map status_of D2) \<or> prefix (map status_of D2) (map status_of D1))"
proof -
  have "faulty_set ctx2 F" using F(1) com(1) by (simp add: faulty_set_def)
  then have s2: "safe_state ctx2 (genesis_refs cr ctx1) F ds2"
    using reachable_safe_state [OF r2 _ honest_authors_each(2) [OF F(3)]] com(2) by simp
  have el: "elections_ok g ctx1 ls1 node_committer" by (rule schedule_ok_elections [OF sched(1) r1(2)])
  note cong = elections_cong [OF com(1) [symmetric] sched(2) [symmetric]]
  show ?thesis
    by (rule try_decide_prefixes [OF reachable_safe_state [OF r1 F(1) honest_authors_each(1) [OF F(3)]] s2
          reachable_safe_views [OF r1 r2 com F] com(1) el _ cong(2) one last])
      (use el cong(1) in simp)
qed

theorem validators_agree_on_leaders_witness:
  "\<exists>D1 D2. try_decide sample_rng sample_context sample_schedule sample_view0 node_committer (Slot 0 0) = Some D1 \<and>
     try_decide sample_rng sample_context1 sample_schedule sample_view1 node_committer (Slot 0 0) = Some D2 \<and>
     (prefix (map status_of D1) (map status_of D2) \<or> prefix (map status_of D2) (map status_of D1)) \<and>
     length D1 = 2 \<and> length D2 = 2"
proof -
  have com: "ctx_committee sample_context1 = ctx_committee sample_context"
    "mysticeti_num_leaders_per_round sample_context = Some 1" "mysticeti_num_leaders_per_round sample_context1 = Some 1"
    by (simp_all add: sample_context1_def sample_context_def)
  have gen: "genesis_refs sample_crypto sample_context1 = genesis_refs sample_crypto sample_context" by code_simp
  have len: "map_option length (try_decide sample_rng sample_context sample_schedule sample_view0 node_committer (Slot 0 0)) = Some 2"
    "map_option length (try_decide sample_rng sample_context1 sample_schedule sample_view1 node_committer (Slot 0 0)) = Some 2"
    by code_simp+
  show ?thesis
    using validators_agree_on_leaders [OF sample_view0_reachable sample_contexts_ok(1) sample_views(1)
        sample_view1_reachable sample_contexts_ok(2) sample_views(2) com(1) gen sample_views(5,3,4)
        sample_schedule_ok refl com(2,3), of "Slot 0 0"] sample_views(6,7) len by auto
qed

text \<open>
  C2. \<open>try_decide\<close> implements the commit rule. On every reachable state it returns without panic, the
  decided slots are consecutive leader slots after the last decided one, and each decision is one
  the rule derives: directly from a quorum of certificates or of blames, or from the first
  committed leader a wave above. It decides as far as the direct rule allows: the first slot it
  leaves undecided has neither a quorum of blames nor a supported leader.
\<close>

theorem try_decide_refines_commit_rule:
  assumes r: "dag_reachable cr ctx ds" "ctx_ok ctx" "stake_sums_fit ctx ds" and F: "faulty_set ctx F" "honest_authors F ds ds"
    and sched: "schedule_ok g ctx ls" and one: "mysticeti_num_leaders_per_round ctx = Some 1"
    and last: "last_commit_round ds \<le> slot_round s" "slot_round s < u32_max"
  defines "slots \<equiv> leader_slots g ctx ls node_committer"
  shows "\<exists>D. try_decide g ctx ls ds node_committer s = Some D \<and>
     prefix (map decided_slot D) (slots_upto slots (slot_round s + 1) (ds_highest_accepted_round ds - 2 + 1)) \<and>
     (\<forall>d \<in> set D. decides (ctx_committee ctx) slots (ds_blocks ds) (decided_slot d) (status_of d)) \<and>
     (\<forall>t. length D < length (slots_upto slots (slot_round s + 1) (ds_highest_accepted_round ds - 2 + 1)) \<longrightarrow>
        t = slots_upto slots (slot_round s + 1) (ds_highest_accepted_round ds - 2 + 1) ! length D \<longrightarrow>
        direct_outcome (ctx_committee ctx) (ds_blocks ds) t (Undecided t))"
  unfolding slots_def
  by (rule try_decide_sound [OF reachable_safe_state [OF r F] schedule_ok_elections [OF sched r(2)] one last])

theorem try_decide_refines_commit_rule_witness:
  "\<exists>D. try_decide sample_rng sample_context sample_schedule sample_view0 node_committer (Slot 0 0) = Some D \<and>
     (\<forall>d \<in> set D. decides sample_committee (leader_slots sample_rng sample_context sample_schedule node_committer)
        (ds_blocks sample_view0) (decided_slot d) (status_of d))"
proof -
  have "mysticeti_num_leaders_per_round sample_context = Some 1" by (simp add: sample_context_def)
  from try_decide_refines_commit_rule [OF sample_view0_reachable sample_contexts_ok(1) sample_views(1,5)
      honest_authors_each(1) [OF sample_views(4)] sample_schedule_ok this, of "Slot 0 0"] sample_views(6)
  show ?thesis by auto
qed

text \<open>
  C21. Progress of the committer: if every leader slot of the rounds after the last decided one, up to a
  round \<open>r\<close> that is at least two rounds below the highest accepted round, has a quorum of blames or a
  leader block supported by a quorum of certificates, then one call of \<open>try_decide\<close> decides all of them.
\<close>

theorem try_decide_progress:
  assumes r: "dag_reachable cr ctx ds" "ctx_ok ctx" "stake_sums_fit ctx ds" and F: "faulty_set ctx F" "honest_authors F ds ds"
    and sched: "schedule_ok g ctx ls" and one: "mysticeti_num_leaders_per_round ctx = Some 1"
    and last: "last_commit_round ds \<le> slot_round s" "slot_round s < u32_max"
    and up: "n + 2 \<le> ds_highest_accepted_round ds"
    and dec: "\<And>t. t \<in> set (slots_upto (leader_slots g ctx ls node_committer) (slot_round s + 1) (n + 1)) \<Longrightarrow>
       blamed (ctx_committee ctx) (ds_blocks ds) t \<or>
       (\<exists>l. ds_blocks ds l \<noteq> None \<and> slot_of l = t \<and> supported (ctx_committee ctx) (ds_blocks ds) l)"
  shows "\<exists>D. try_decide g ctx ls ds node_committer s = Some D \<and>
     prefix (slots_upto (leader_slots g ctx ls node_committer) (slot_round s + 1) (n + 1)) (map decided_slot D)"
proof -
  let ?up = "slots_upto (leader_slots g ctx ls node_committer) (slot_round s + 1)"
  let ?hi = "ds_highest_accepted_round ds - 2 + 1"
  obtain D where D: "try_decide g ctx ls ds node_committer s = Some D" "prefix (map decided_slot D) (?up ?hi)"
    "length D < length (?up ?hi) \<Longrightarrow> direct_outcome (ctx_committee ctx) (ds_blocks ds) (?up ?hi ! length D) (Undecided (?up ?hi ! length D))"
    using try_decide_sound [OF reachable_safe_state [OF r F] schedule_ok_elections [OF sched r(2)] one last] by blast
  have m: "max (n + 1) ?hi = ?hi" using up by linarith
  have pre: "prefix (?up (n + 1)) (?up ?hi)"
    using slots_upto_prefix [of "leader_slots g ctx ls node_committer" "slot_round s + 1" "n + 1" ?hi] unfolding m .
  have "length (?up (n + 1)) \<le> length D"
  proof (rule ccontr)
    assume less: "\<not> ?thesis"
    then have nth: "?up ?hi ! length D = ?up (n + 1) ! length D" "?up (n + 1) ! length D \<in> set (?up (n + 1))"
      using pre by (auto simp: prefix_def nth_append)
    moreover have "length D < length (?up ?hi)" using less prefix_length_le [OF pre] by linarith
    ultimately show False using D(3) dec [OF nth(2)] by (simp only:) fastforce
  qed
  then have "prefix (?up (n + 1)) (map decided_slot D)"
    using prefix_length_prefix [OF pre D(2)] by simp
  then show ?thesis using D(1) by blast
qed

lemma sample_leader_supported:
  "supported sample_committee (ds_blocks sample_view0) (sample_ref 1 3) \<and> ds_blocks sample_view0 (sample_ref 1 3) \<noteq> None"
proof -
  let ?lb = "the (ds_blocks sample_view0 (sample_ref 1 3))"
  have view: "view_ok sample_context (genesis_refs sample_crypto sample_context) sample_view0"
    by (rule reachable_view [OF sample_view0_reachable sample_contexts_ok(1) sample_views(1)])
  have ref: "vb_reference ?lb = sample_ref 1 3" and none: "ds_blocks sample_view0 (sample_ref 1 3) \<noteq> None" by code_simp+
  have rnd: "vb_round ?lb = 1" by code_simp
  have gc: "gc_round sample_context sample_view0 = 0" by code_simp
  have "enough_leader_support sample_context sample_view0 (vb_round ?lb + 2) ?lb = Some True" by code_simp
  then have "supported sample_committee (ds_blocks sample_view0) (vb_reference ?lb)"
    using enough_leader_support_eq [OF view, of ?lb] sample_views(6) gc rnd by simp
  then show ?thesis using ref none by simp
qed

theorem try_decide_progress_witness:
  "\<exists>D. try_decide sample_rng sample_context sample_schedule sample_view0 node_committer (Slot 0 0) = Some D \<and>
     prefix [Slot 1 3] (map decided_slot D)"
proof -
  have one: "mysticeti_num_leaders_per_round sample_context = Some 1" by (simp add: sample_context_def)
  have up: "1 + 2 \<le> ds_highest_accepted_round sample_view0" by code_simp
  have "schedule_elect_leader sample_rng sample_context sample_schedule 1 0 = Some 3" by code_simp
  then have slots: "slots_upto (leader_slots sample_rng sample_context sample_schedule node_committer)
      (slot_round (Slot 0 0) + 1) (1 + 1) = [Slot 1 3]"
    by (simp add: slots_upto_def node_committer_slots)
  have "\<exists>l. ds_blocks sample_view0 l \<noteq> None \<and> slot_of l = Slot 1 3 \<and>
      supported (ctx_committee sample_context) (ds_blocks sample_view0) l"
    using sample_leader_supported by (intro exI [of _ "sample_ref 1 3"]) (simp add: sample_ref_def slot_of_def)
  then show ?thesis
    using try_decide_progress [OF sample_view0_reachable sample_contexts_ok(1) sample_views(1,5)
        honest_authors_each(1) [OF sample_views(4)] sample_schedule_ok one, of "Slot 0 0" 1] up sample_views(6)
    unfolding slots by auto
qed

end
