(* ===== verification/Total_Order.thy ===== *)
theory Total_Order
  imports Node_Runs Consensus_Safety
begin

text \<open>
  The guarantees of the commit sequence: validators deliver the same sub-DAGs in the same order, no
  block twice, with causal histories complete above the garbage collection round, and with timestamps
  that correct authorities bound.
\<close>

section \<open>Handling a list of leaders\<close>

lemma handle_leader_acc:
  "handle_leader cr ctx l (out, ds) = map_option (\<lambda>(subs, d). (out @ subs, d)) (handle_leader cr ctx l ([], ds))"
  by (auto simp: handle_leader_def Option.bind_eq_Some_conv split: option.splits Option.bind_splits)

lemma handle_leaders_acc:
  "for_each (handle_leader cr ctx) ls (out @ subs, ds) =
     map_option (\<lambda>(subs', d). (out @ subs', d)) (for_each (handle_leader cr ctx) ls (subs, ds))"
proof (induction ls arbitrary: subs ds)
  case (Cons l ls)
  have eq: "handle_leader cr ctx l (out @ subs, ds) = map_option (\<lambda>(s, d). (out @ s, d)) (handle_leader cr ctx l (subs, ds))"
    using handle_leader_acc [of cr ctx l "out @ subs" ds] handle_leader_acc [of cr ctx l subs ds]
    by (cases "handle_leader cr ctx l ([], ds)") auto
  show ?case
  proof (cases "handle_leader cr ctx l (subs, ds)")
    case (Some p)
    then show ?thesis using eq Cons.IH by (cases p) simp
  qed (use eq in simp)
qed simp

definition serializes :: "crypto \<Rightarrow> bool" where
  "serializes cr \<longleftrightarrow> (\<forall>c. \<exists>bytes. cr_bcs_commit cr c = Inr bytes)"

lemma serializesD: "serializes cr \<Longrightarrow> \<exists>bytes. cr_bcs_commit cr c = Inr bytes"
  by (simp add: serializes_def)

definition committable :: "consensus_context \<Rightarrow> dag_state \<Rightarrow> verified_block list \<Rightarrow> bool" where
  "committable ctx ds ls \<longleftrightarrow> 0 < gc_depth ctx \<and> (\<forall>l \<in> set ls. ds_blocks ds (vb_reference l) = Some l) \<and>
     sorted_wrt (<) (last_commit_round ds # map vb_round ls) \<and> last_commit_index ds + length ls \<le> u32_max"

lemma handle_leaders_run:
  assumes "node_run cr ctx ds ls0 out" and "ctx_ok ctx" and "serializes cr" and "committable ctx ds ls"
  shows "\<exists>subs ds'. for_each (handle_leader cr ctx) ls (out, ds) = Some (out @ subs, ds') \<and>
     node_run cr ctx ds' (ls0 @ ls) (out @ subs) \<and> length subs = length ls \<and> ds_blocks ds' = ds_blocks ds"
  using assms(1,4)
proof (induction ls arbitrary: ds ls0 out)
  case (Cons l ls)
  note ser = serializesD [OF assms(3)]
  have inv: "dag_inv ctx (genesis_refs cr ctx) ds" "commit_inv ctx ds"
    using node_run_inv [OF Cons.prems(1) assms(2) ser] by (simp_all add: run_inv_def)
  have l: "next_leader ctx ds l" "last_commit_index ds < u32_max" using Cons.prems(2) by (auto simp: committable_def next_leader_def)
  obtain sub ds1 where h: "handle_leader cr ctx l (out, ds) = Some (out @ [sub], ds1)" "ds_blocks ds1 = ds_blocks ds"
    "last_commit_index ds1 = last_commit_index ds + 1" "last_commit_round ds1 = vb_round l"
    using handle_leader_spec [OF inv l ser, of out] by (elim exE conjE) (rule that; assumption)
  have "committable ctx ds1 ls" using Cons.prems(2) h(2-4) by (auto simp: committable_def)
  from Cons.IH [OF node_run.commit [OF Cons.prems(1) l h(1)] this] h(1,2)
  show ?case by (auto intro: exI [of _ "sub # _"])
qed simp

lemma handle_commit_run:
  assumes "node_run cr ctx ds ls0 out" and "ctx_ok ctx" and "serializes cr" and "committable ctx ds ls"
  shows "\<exists>subs ds'. handle_commit cr ctx ls ds = Some (subs, ds') \<and> node_run cr ctx ds' (ls0 @ ls) (out @ subs) \<and>
     length subs = length ls \<and> ds_blocks ds' = ds_blocks ds"
proof -
  obtain subs ds' where "for_each (handle_leader cr ctx) ls (out @ [], ds) = Some (out @ subs, ds')" and
    rest: "node_run cr ctx ds' (ls0 @ ls) (out @ subs)" "length subs = length ls" "ds_blocks ds' = ds_blocks ds"
    using handle_leaders_run [OF assms] by auto
  then have "for_each (handle_leader cr ctx) ls ([], ds) = Some (subs, ds')"
    unfolding handle_leaders_acc by auto
  then show ?thesis using rest by (auto simp: handle_commit_def)
qed

section \<open>Causal order\<close>

text \<open>No block is delivered after a block it is an ancestor of.\<close>

definition causal_order :: "committed_sub_dag list \<Rightarrow> bool" where
  "causal_order out \<longleftrightarrow> sorted_wrt (\<lambda>x y. vb_reference y \<notin> set (vb_ancestors x)) (concat (map csd_blocks out))"

lemma sub_dag_causal:
  assumes dec: "rounds_decrease B" and bs: "\<forall>b \<in> set bs. B (vb_reference b) = Some b"
    and sorted: "sorted (map (\<lambda>b. (vb_round b, vb_author b)) bs)"
  shows "sorted_wrt (\<lambda>x y. vb_reference y \<notin> set (vb_ancestors x)) bs"
proof (rule sorted_wrt_mono_rel [of bs "\<lambda>x y. (vb_round x, vb_author x) \<le> (vb_round y, vb_author y)"])
  fix x y assume x: "x \<in> set bs" and y: "(vb_round x, vb_author x) \<le> (vb_round y, vb_author y)"
  show "vb_reference y \<notin> set (vb_ancestors x)"
  proof
    assume "vb_reference y \<in> set (vb_ancestors x)"
    then have "vb_round y < vb_round x" using rounds_decreaseD [OF dec] bs x by fastforce
    then show False using y by auto
  qed
qed (use sorted in \<open>simp add: sorted_wrt_map\<close>)

text \<open>The leader is the only block of its round in its sub-DAG, and the last one.\<close>

lemma sub_dag_top:
  assumes inv: "dag_inv ctx G ds" and lb: "ds_blocks ds (vb_reference l) = Some l" and x: "x \<in> sub_dag ctx ds l" "x \<noteq> vb_reference l"
  shows "ref_round x < vb_round l"
proof -
  have dec: "rounds_decrease (ds_blocks ds)" by (rule view_rounds_decrease [OF dag_inv_facts(1) [OF inv]])
  have "causal (ds_blocks ds) (gc_round ctx ds) {vb_reference l} x" using x(1) by (simp add: sub_dag_def)
  then show ?thesis using x(2)
  proof (induction rule: causal.induct)
    case (step r b a)
    then show ?case using rounds_decreaseD [OF dec step.hyps(3,4)] by (cases "r = vb_reference l") auto
  qed simp
qed

lemma leader_is_last:
  assumes inv: "dag_inv ctx G ds" "commit_inv ctx ds" and l: "next_leader ctx ds l" and ok: "sub_dag_ok ctx ds l sub"
  shows "vb_reference (last (csd_blocks sub)) = vb_reference l"
proof (rule ccontr)
  assume ne: "\<not> ?thesis"
  let ?bs = "csd_blocks sub"
  have refs: "vb_reference ` set ?bs = sub_dag ctx ds l" and sorted: "sorted (map (\<lambda>b. (vb_round b, vb_author b)) ?bs)"
    using ok by (simp_all add: sub_dag_ok_def)
  have "vb_reference l \<notin> committed_refs ds" using inv(2) l by (fastforce simp: commit_inv_def next_leader_def)
  then have "vb_reference l \<in> sub_dag ctx ds l" using next_leader_above_gc [OF l] by (simp add: sub_dag_def causal.root)
  then obtain b where b: "b \<in> set ?bs" "vb_reference b = vb_reference l" using refs by (metis imageE)
  then have last: "last ?bs \<in> set ?bs" by (metis last_in_set length_pos_if_in_set list.size(3) not_less_zero)
  then have "vb_reference (last ?bs) \<in> sub_dag ctx ds l" using refs by blast
  then have less: "vb_round (last ?bs) < vb_round l" using sub_dag_top [OF inv(1) _ _ ne] l by (simp add: next_leader_def)
  obtain i where i: "i < length ?bs" "?bs ! i = b" using b(1) by (metis in_set_conv_nth)
  have "(vb_round b, vb_author b) \<le> (vb_round (last ?bs), vb_author (last ?bs))"
  proof -
    have "i \<le> length ?bs - 1" "length ?bs - 1 < length ?bs" "?bs \<noteq> []" using i by auto
    then show ?thesis using sorted_nth_mono [OF sorted, of i "length ?bs - 1"] i by (simp add: last_conv_nth)
  qed
  moreover have "vb_round b = vb_round l" using b(2) by (metis vb_reference_sel(1))
  ultimately show False using less by auto
qed

lemma node_run_causal:
  assumes "node_run cr ctx ds ls out" and "ctx_ok ctx" and ser: "\<And>c. \<exists>bytes. cr_bcs_commit cr c = Inr bytes"
  shows "causal_order out"
  using assms(1,2)
proof (induction rule: node_run.induct)
  case (commit ds ls out l out' ds')
  have inv: "dag_inv ctx (genesis_refs cr ctx) ds" "commit_inv ctx ds" and run: "run_inv cr ctx ds ls out"
    using node_run_inv [OF commit.hyps(1) commit.prems ser] by (simp_all add: run_inv_def)
  obtain sub where sub: "out' = out @ [sub]" "sub_dag_ok ctx ds l sub"
    using handle_leader_spec [OF inv commit.hyps(2,3) ser, of out] commit.hyps(4) by auto
  have dec: "rounds_decrease (ds_blocks ds)" by (rule view_rounds_decrease [OF dag_inv_facts(1) [OF inv(1)]])
  have "sorted_wrt (\<lambda>x y. vb_reference y \<notin> set (vb_ancestors x)) (csd_blocks sub)"
    by (rule sub_dag_causal [OF dec]) (use sub(2) in \<open>simp_all add: sub_dag_ok_def\<close>)
  moreover have "vb_reference y \<notin> set (vb_ancestors x)"
    if x: "s \<in> set out" "x \<in> set (csd_blocks s)" and y: "y \<in> set (csd_blocks sub)" for s x y
  proof
    assume a: "vb_reference y \<in> set (vb_ancestors x)"
    have "vb_reference y \<in> vb_reference ` set (csd_blocks sub)" using y by simp
    then have y': "gc_round ctx ds < ref_round (vb_reference y)" "vb_reference y \<notin> committed_refs ds"
      using sub(2) unfolding sub_dag_ok_def sub_dag_def by auto
    have bx: "ds_blocks ds (vb_reference x) = Some x" and "vb_reference x \<in> set (delivered out)"
      using run x by (auto simp: run_inv_def delivered_def)
    moreover have gx: "gc_round ctx ds < ref_round (vb_reference x)" using rounds_decreaseD [OF dec bx a] y'(1) by simp
    ultimately have "vb_reference x \<in> committed_refs ds" using run by (auto simp: run_inv_def)
    then show False using inv(2) bx gx a y' unfolding commit_inv_def ancestors_closed_def by blast
  qed
  ultimately show ?case using commit.IH [OF commit.prems] sub(1) by (auto simp: causal_order_def sorted_wrt_append)
qed (simp_all add: causal_order_def)

section \<open>Sample runs\<close>

lemma accept_ready_run:
  assumes "node_run cr ctx ds ls out" and "for_each (accept_ready ctx) bs ds = Some ds'"
  shows "node_run cr ctx ds' ls out"
  by (rule for_each_invariant [where P = "\<lambda>d. node_run cr ctx d ls out", OF assms(2,1)])
    (auto simp: accept_ready_def split: if_splits intro: node_run.quiet quiet_step.accept)

lemma sample_state_run:
  assumes "genesis_blocks sample_crypto ctx \<noteq> None"
    and "for_each (accept_ready ctx) bs (initial_state ctx (the (genesis_blocks sample_crypto ctx))) \<noteq> None"
  shows "node_run sample_crypto ctx (sample_state ctx bs) [] []"
proof -
  have "node_run sample_crypto ctx (initial_state ctx (the (genesis_blocks sample_crypto ctx))) [] []"
    using assms(1) by (intro node_run.start) (auto simp: dag_state_new_empty)
  then show ?thesis
    using accept_ready_run assms(2) unfolding sample_state_def by (metis option.collapse)
qed

lemma sample_runs:
  "node_run sample_crypto sample_context sample_view0 [] []" "node_run sample_crypto sample_context1 sample_view1 [] []"
  unfolding sample_view0_def sample_view1_def by (rule sample_state_run; code_simp)+

lemma sample_serializes: "serializes sample_crypto"
  by (simp add: serializes_def sample_crypto_def)

definition sample_leader :: "dag_state \<Rightarrow> round \<Rightarrow> authority_index \<Rightarrow> verified_block" where
  "sample_leader ds r a = the (ds_blocks ds (sample_ref r a))"

lemma sample_committable:
  "committable sample_context sample_view0 [sample_leader sample_view0 1 3, sample_leader sample_view0 2 0]"
  "committable sample_context1 sample_view1 [sample_leader sample_view1 1 3]"
  "sample_leader sample_view0 1 3 = sample_leader sample_view1 1 3"
  by code_simp+

section \<open>Properties\<close>

lemma same_epoch_sym: "same_epoch a b \<Longrightarrow> same_epoch b a"
  by (simp add: same_epoch_def)

lemma same_blocks_sym: "same_blocks a b \<Longrightarrow> same_blocks b a"
  unfolding same_blocks_def by metis

text \<open>
  C3. Validators agree on the commit sequence. Two validators of one epoch accept blocks, flush and
  commit in any interleaving, starting from empty stores; their DAGs hold the same block under every
  reference both know. If the sequences of leaders they committed are prefixes one of the other, then so
  are the sequences of sub-DAGs they delivered: the same blocks in the same order, with the same
  commit index, digest, leader and timestamp.
\<close>

theorem commit_sequences_agree:
  assumes runs: "node_run cr ctx1 ds1 ls1 out1" "node_run cr ctx2 ds2 ls2 out2"
    and ctx: "ctx_ok ctx1" "ctx_ok ctx2" "same_epoch ctx1 ctx2" and ser: "serializes cr"
    and blocks: "same_blocks ds1 ds2" and leaders: "prefix ls1 ls2 \<or> prefix ls2 ls1"
  shows "prefix out1 out2 \<or> prefix out2 out1"
  using leaders
proof
  assume "prefix ls1 ls2"
  then show ?thesis using node_runs_prefix [OF runs ctx serializesD [OF ser] blocks] by blast
next
  assume "prefix ls2 ls1"
  then show ?thesis
    using node_runs_prefix [OF runs(2,1) ctx(2,1) same_epoch_sym [OF ctx(3)] serializesD [OF ser] same_blocks_sym [OF blocks]] by blast
qed

theorem commit_sequences_agree_witness:
  "\<exists>ds1 ds2 ls1 ls2 out1 out2. node_run sample_crypto sample_context ds1 ls1 out1 \<and> node_run sample_crypto sample_context1 ds2 ls2 out2 \<and>
     length out1 = 2 \<and> length out2 = 1 \<and> (prefix out1 out2 \<or> prefix out2 out1)"
proof -
  let ?l1 = "[sample_leader sample_view0 1 3, sample_leader sample_view0 2 0]" and ?l2 = "[sample_leader sample_view1 1 3]"
  obtain o1 d1 where r1: "node_run sample_crypto sample_context d1 ([] @ ?l1) ([] @ o1)" "length o1 = length ?l1" "ds_blocks d1 = ds_blocks sample_view0"
    using handle_commit_run [OF sample_runs(1) sample_contexts_ok(1) sample_serializes sample_committable(1)] by blast
  obtain o2 d2 where r2: "node_run sample_crypto sample_context1 d2 ([] @ ?l2) ([] @ o2)" "length o2 = length ?l2" "ds_blocks d2 = ds_blocks sample_view1"
    using handle_commit_run [OF sample_runs(2) sample_contexts_ok(2) sample_serializes sample_committable(2)] by blast
  have ep: "same_epoch sample_context sample_context1" by (simp add: same_epoch_def sample_context1_def sample_context_def)
  have sb: "same_blocks d1 d2" using sample_views(3) r1(3) r2(3) by (simp add: same_blocks_def)
  have pre: "prefix ([] @ ?l2) ([] @ ?l1)" using sample_committable(3) by simp
  from commit_sequences_agree [OF r1(1) r2(1) sample_contexts_ok ep sample_serializes sb disjI2 [OF pre]]
  have "prefix o1 o2 \<or> prefix o2 o1" by simp
  moreover have "length o1 = 2" "length o2 = 1" using r1(2) r2(2) by simp_all
  ultimately show ?thesis using r1(1) r2(1) by (metis append_Nil)
qed

lemma delivered_ancestors:
  assumes inv: "run_inv cr ctx ds ls out" and b: "sub \<in> set out" "b \<in> set (csd_blocks sub)"
    and a: "a \<in> set (vb_ancestors b)" "gc_round ctx ds < ref_round a"
  shows "a \<in> set (delivered out)"
proof -
  have i: "dag_inv ctx (genesis_refs cr ctx) ds" "commit_inv ctx ds" and bb: "ds_blocks ds (vb_reference b) = Some b"
    using inv b by (simp_all add: run_inv_def)
  have gb: "gc_round ctx ds < ref_round (vb_reference b)"
    using rounds_decreaseD [OF view_rounds_decrease [OF dag_inv_facts(1) [OF i(1)]] bb a(1)] a(2) by simp
  have "vb_reference b \<in> set (delivered out)" using b by (auto simp: delivered_def)
  then have "vb_reference b \<in> committed_refs ds" using inv gb by (simp add: run_inv_def)
  then have "a \<in> committed_refs ds" using i(2) bb gb a unfolding commit_inv_def ancestors_closed_def by blast
  then show ?thesis using inv a(2) by (simp add: run_inv_def)
qed

text \<open>
  C4. Integrity of the commit sequence. Over a whole run, commits are numbered 1, 2, \<dots>, carry the
  leaders in order, and have non-decreasing timestamps; no block is delivered twice; every delivered
  block is a block of the DAG; no block is delivered before one of its ancestors that is ever
  delivered; and every ancestor of a delivered block that is above the garbage collection round has
  been delivered.
\<close>

theorem delivery_integrity:
  assumes run: "node_run cr ctx ds ls out" and ctx: "ctx_ok ctx" and ser: "serializes cr"
  shows "map csd_leader out = map vb_reference ls \<and> map (cref_index \<circ> csd_commit_ref) out = [1..<length out + 1] \<and>
     sorted (map csd_timestamp_ms out) \<and> distinct (delivered out) \<and> causal_order out \<and>
     (\<forall>sub \<in> set out. \<forall>b \<in> set (csd_blocks sub). ds_blocks ds (vb_reference b) = Some b \<and>
        (\<forall>a \<in> set (vb_ancestors b). gc_round ctx ds < ref_round a \<longrightarrow> a \<in> set (delivered out)))"
proof -
  have inv: "run_inv cr ctx ds ls out" by (rule node_run_inv [OF run ctx serializesD [OF ser]])
  then have "map csd_leader out = map vb_reference ls" "map (cref_index \<circ> csd_commit_ref) out = [1..<length out + 1]"
    "sorted (map csd_timestamp_ms out)" "distinct (delivered out)"
    "\<forall>sub \<in> set out. \<forall>b \<in> set (csd_blocks sub). ds_blocks ds (vb_reference b) = Some b"
    unfolding run_inv_def by blast+
  then show ?thesis
    using delivered_ancestors [OF inv] node_run_causal [OF run ctx serializesD [OF ser]] by blast
qed

lemma sample_committed_run:
  "\<exists>ds subs. node_run sample_crypto sample_context ds [sample_leader sample_view0 1 3, sample_leader sample_view0 2 0] subs \<and> length subs = 2"
proof -
  let ?ls = "[sample_leader sample_view0 1 3, sample_leader sample_view0 2 0]"
  obtain subs ds where "node_run sample_crypto sample_context ds ([] @ ?ls) ([] @ subs)" "length subs = length ?ls"
    using handle_commit_run [OF sample_runs(1) sample_contexts_ok(1) sample_serializes sample_committable(1)] by blast
  then have "node_run sample_crypto sample_context ds ?ls subs" "length subs = 2" by simp_all
  then show ?thesis by blast
qed

theorem delivery_integrity_witness:
  "\<exists>ds out. node_run sample_crypto sample_context ds [sample_leader sample_view0 1 3, sample_leader sample_view0 2 0] out \<and>
     length out = 2 \<and> distinct (delivered out) \<and> causal_order out"
proof -
  obtain ds out where run: "node_run sample_crypto sample_context ds [sample_leader sample_view0 1 3, sample_leader sample_view0 2 0] out"
    "length out = 2" using sample_committed_run by blast
  then show ?thesis using delivery_integrity [OF run(1) sample_contexts_ok(1) sample_serializes] by blast
qed

text \<open>
  C5. A committed leader yields exactly its new causal history. In a run, \<open>handle_commit\<close> of a leader
  above the last committed round returns one sub-DAG: its blocks are the blocks reachable from the leader
  above the garbage collection round that were not delivered before, each once, sorted by round and
  author, with the leader last among the rounds.
\<close>

theorem handle_commit_exact:
  assumes run: "node_run cr ctx ds ls out" and ctx: "ctx_ok ctx" and ser: "serializes cr"
    and l: "next_leader ctx ds l" "last_commit_index ds < u32_max"
  shows "\<exists>sub ds'. handle_commit cr ctx [l] ds = Some ([sub], ds') \<and>
     vb_reference ` set (csd_blocks sub) = {x. causal (ds_blocks ds) (gc_round ctx ds) {vb_reference l} x \<and>
        gc_round ctx ds < ref_round x \<and> x \<notin> set (delivered out)} \<and>
     distinct (map vb_reference (csd_blocks sub)) \<and> sorted (map (\<lambda>b. (vb_round b, vb_author b)) (csd_blocks sub)) \<and>
     csd_leader sub = vb_reference l \<and> vb_reference (last (csd_blocks sub)) = vb_reference l \<and>
     ds_blocks ds' = ds_blocks ds \<and> last_commit_round ds' = vb_round l"
proof -
  have inv: "run_inv cr ctx ds ls out" by (rule node_run_inv [OF run ctx serializesD [OF ser]])
  then have i: "dag_inv ctx (genesis_refs cr ctx) ds" "commit_inv ctx ds" by (simp_all add: run_inv_def)
  obtain sub ds' where h: "handle_leader cr ctx l ([], ds) = Some ([] @ [sub], ds')" "sub_dag_ok ctx ds l sub"
    "ds_blocks ds' = ds_blocks ds" "last_commit_round ds' = vb_round l"
    using handle_leader_spec [OF i l serializesD [OF ser], of "[]"] by (elim exE conjE) (rule that; assumption)
  have "x \<notin> committed_refs ds \<longleftrightarrow> x \<notin> set (delivered out)" if "gc_round ctx ds < ref_round x" for x
    using inv that by (simp add: run_inv_def)
  then have "sub_dag ctx ds l = {x. causal (ds_blocks ds) (gc_round ctx ds) {vb_reference l} x \<and>
      gc_round ctx ds < ref_round x \<and> x \<notin> set (delivered out)}" unfolding sub_dag_def by blast
  moreover have "vb_reference (last (csd_blocks sub)) = vb_reference l" by (rule leader_is_last [OF i l(1) h(2)])
  moreover have "handle_commit cr ctx [l] ds = Some ([sub], ds')" using h(1) by (simp add: handle_commit_def)
  ultimately show ?thesis using h(2-4) unfolding sub_dag_ok_def by blast
qed

lemma sample_next_leader:
  "next_leader sample_context sample_view0 (sample_leader sample_view0 2 0)" "last_commit_index sample_view0 < u32_max"
  by code_simp+

theorem handle_commit_exact_witness:
  "\<exists>sub ds'. handle_commit sample_crypto sample_context [sample_leader sample_view0 2 0] sample_view0 = Some ([sub], ds') \<and>
     csd_leader sub = vb_reference (sample_leader sample_view0 2 0) \<and> distinct (map vb_reference (csd_blocks sub)) \<and>
     last_commit_round ds' = vb_round (sample_leader sample_view0 2 0)"
  using handle_commit_exact [OF sample_runs(1) sample_contexts_ok(1) sample_serializes sample_next_leader] by blast

text \<open>
  C6. The linearizer returns. In every run, \<open>handle_commit\<close> of leaders of the DAG with increasing
  rounds above the last committed one terminates without panic: every traversal ends, no block is
  marked twice, the parents' timestamps are available, and the new commits pass the checks of
  \<open>add_commit\<close>. The result is again a run, with one sub-DAG per leader, and no block of the DAG is lost.
\<close>

theorem handle_commit_returns:
  assumes "node_run cr ctx ds ls0 out" and "ctx_ok ctx" and "serializes cr" and "committable ctx ds ls"
  shows "\<exists>subs ds'. handle_commit cr ctx ls ds = Some (subs, ds') \<and> node_run cr ctx ds' (ls0 @ ls) (out @ subs) \<and>
     length subs = length ls \<and> ds_blocks ds' = ds_blocks ds"
  by (rule handle_commit_run [OF assms])

theorem handle_commit_returns_witness:
  "\<exists>subs ds'. handle_commit sample_crypto sample_context [sample_leader sample_view0 1 3, sample_leader sample_view0 2 0] sample_view0 =
     Some (subs, ds') \<and> length subs = 2"
  using handle_commit_returns [OF sample_runs(1) sample_contexts_ok(1) sample_serializes sample_committable(1)] by auto



end
