(* ===== verification/Block_Manager.thy ===== *)
theory Block_Manager
  imports Dag_Steps
begin

text \<open>
  The block manager (\<^verbatim>\<open>consensus/core/src/block_manager.rs\<close>): it suspends blocks until their ancestors
  are accepted, remembers which references are missing, and accepts into \<open>DagState\<close> in causal order.
  The manager shares the DAG state with the rest of the node, so the operations take both. The time
  a block spent suspended and the counters of the metrics are left out.
\<close>

section \<open>State\<close>

record suspended_block =
  sus_block :: verified_block
  sus_missing_ancestors :: "block_ref fset"

type_synonym suspended_map = "(block_ref, suspended_block) fmap"
type_synonym missing_map = "(block_ref, block_ref fset) fmap"

record block_manager =
  bm_suspended_blocks :: suspended_map
  bm_missing_ancestors :: missing_map
  bm_missing_blocks :: "block_ref fset"
  bm_received_block_rounds :: "(round \<times> round) option list"

definition block_manager_new :: "consensus_context \<Rightarrow> block_manager" where
  "block_manager_new ctx = \<lparr> bm_suspended_blocks = fmempty, bm_missing_ancestors = fmempty,
     bm_missing_blocks = {||}, bm_received_block_rounds = replicate (committee_size (ctx_committee ctx)) None \<rparr>"

datatype try_accept_result = Accepted verified_block | Suspended "block_ref fset" | Processed | Skipped

definition update_block_received_metrics ::
  "consensus_context \<Rightarrow> verified_block \<Rightarrow> block_manager \<Rightarrow> block_manager option" where
  "update_block_received_metrics ctx b bm = do {
     current \<leftarrow> vec_get (bm_received_block_rounds bm) (vb_author b);
     let rounds = (case current of
         Some (lo, hi) \<Rightarrow> (min lo (vb_round b), max hi (vb_round b))
       | None \<Rightarrow> (vb_round b, vb_round b));
     received \<leftarrow> vec_set (bm_received_block_rounds bm) (vb_author b) (Some rounds);
     _ \<leftarrow> committee_authority (ctx_committee ctx) (vb_author b);
     Some (bm\<lparr> bm_received_block_rounds := received \<rparr>)
   }"

section \<open>Suspending\<close>

text \<open>\<open>entry(k).or_default()\<close> of a map of sets.\<close>

definition entry_set :: "missing_map \<Rightarrow> block_ref \<Rightarrow> block_ref fset" where
  "entry_set m k = (case fmlookup m k of Some s \<Rightarrow> s | None \<Rightarrow> {||})"

text \<open>The loop over the ancestors with the answers of the DAG state; it collects the missing and the ones to fetch.\<close>

definition note_ancestor ::
  "consensus_context \<Rightarrow> block_ref \<Rightarrow> bool \<times> block_ref \<Rightarrow> block_manager \<times> block_ref fset \<times> block_ref fset \<Rightarrow>
     (block_manager \<times> block_ref fset \<times> block_ref fset) option" where
  "note_ancestor ctx block_ref = (\<lambda>(found, ancestor) (bm, missing, to_fetch).
     if found then Some (bm, missing, to_fetch)
     else do {
       let bm1 = bm\<lparr> bm_missing_ancestors :=
         fmupd ancestor (finsert block_ref (entry_set (bm_missing_ancestors bm) ancestor)) (bm_missing_ancestors bm) \<rparr>;
       _ \<leftarrow> committee_authority (ctx_committee ctx) (ref_author ancestor);
       if ancestor |\<notin>| fmdom (bm_suspended_blocks bm1)
       then Some (bm1\<lparr> bm_missing_blocks := finsert ancestor (bm_missing_blocks bm1) \<rparr>,
                  finsert ancestor missing, finsert ancestor to_fetch)
       else Some (bm1, finsert ancestor missing, to_fetch)
     })"

definition try_accept_one_block ::
  "consensus_context \<Rightarrow> dag_state \<Rightarrow> verified_block \<Rightarrow> block_manager \<Rightarrow> (try_accept_result \<times> block_manager) option" where
  "try_accept_one_block ctx ds b bm = do {
     let r = vb_reference b;
     processed \<leftarrow> (if r |\<in>| fmdom (bm_suspended_blocks bm) then Some True else contains_block ds r);
     if processed then Some (Processed, bm)
     else if vb_round b \<le> gc_round ctx ds then do {
       _ \<leftarrow> committee_authority (ctx_committee ctx) (vb_author b);
       Some (Skipped, bm)
     }
     else do {
       let ancestors = filter (\<lambda>a. ref_round a = GENESIS_ROUND \<or> gc_round ctx ds < ref_round a) (vb_ancestors b);
       found \<leftarrow> contains_blocks ds ancestors;
       (bm1, missing, to_fetch) \<leftarrow> for_each (note_ancestor ctx r) (zip found ancestors) (bm, {||}, {||});
       let bm2 = bm1\<lparr> bm_missing_blocks := bm_missing_blocks bm1 |-| {|r|} \<rparr>;
       if missing \<noteq> {||} then do {
         _ \<leftarrow> committee_authority (ctx_committee ctx) (vb_author b);
         Some (Suspended to_fetch, bm2\<lparr> bm_suspended_blocks :=
           fmupd r \<lparr> sus_block = b, sus_missing_ancestors = missing \<rparr> (bm_suspended_blocks bm2) \<rparr>)
       }
       else Some (Accepted b, bm2)
     }
   }"

text \<open>Removing a committed block from the suspended ones, with its entries at the ancestors it waited for.\<close>

definition forget_child :: "block_ref \<Rightarrow> block_ref \<Rightarrow> missing_map \<Rightarrow> missing_map" where
  "forget_child child ancestor m =
     (case fmlookup m ancestor of
        None \<Rightarrow> m
      | Some references \<Rightarrow> fmupd ancestor (references |-| {|child|}) m)"

definition try_accept_one_committed_block ::
  "consensus_context \<Rightarrow> verified_block \<Rightarrow> block_manager \<times> dag_state \<Rightarrow>
     (try_accept_result \<times> block_manager \<times> dag_state) option" where
  "try_accept_one_committed_block ctx b = (\<lambda>(bm, ds). do {
     let r = vb_reference b;
     present \<leftarrow> contains_block ds r;
     if present then Some (Processed, bm, ds)
     else do {
       let bm1 = bm\<lparr> bm_missing_blocks := bm_missing_blocks bm |-| {|r|} \<rparr>;
       let bm2 = (case fmlookup (bm_suspended_blocks bm1) r of
           None \<Rightarrow> bm1
         | Some s \<Rightarrow> bm1\<lparr> bm_suspended_blocks := fmdrop r (bm_suspended_blocks bm1),
             bm_missing_ancestors := fold (forget_child r) (btree_iter (sus_missing_ancestors s)) (bm_missing_ancestors bm1) \<rparr>);
       ds' \<leftarrow> accept_blocks ctx [b] ds;
       Some (Accepted b, bm2, ds')
     }
   })"

section \<open>Unsuspending\<close>

definition try_unsuspend_block ::
  "suspended_map \<Rightarrow> block_ref \<Rightarrow> block_ref \<Rightarrow> (suspended_block option \<times> suspended_map) option" where
  "try_unsuspend_block suspended r dependency = do {
     s \<leftarrow> fmlookup suspended r;
     assert_rs (dependency |\<in>| sus_missing_ancestors s);
     let s' = s\<lparr> sus_missing_ancestors := sus_missing_ancestors s |-| {|dependency|} \<rparr>;
     Some (if sus_missing_ancestors s' = {||} then (Some s', fmdrop r suspended) else (None, fmupd r s' suspended))
   }"

definition unsuspend_child ::
  "block_ref \<Rightarrow> block_ref \<Rightarrow> suspended_map \<times> block_ref list \<times> suspended_block list \<Rightarrow>
     (suspended_map \<times> block_ref list \<times> suspended_block list) option" where
  "unsuspend_child dependency r = (\<lambda>(suspended, to_process, unsuspended). do {
     (freed, suspended') \<leftarrow> try_unsuspend_block suspended r dependency;
     Some (case freed of
         Some s \<Rightarrow> (suspended', vb_reference (sus_block s) # to_process, unsuspended @ [s])
       | None \<Rightarrow> (suspended', to_process, unsuspended))
   })"

lemma fmdrop_smaller: "fmlookup m r = Some x \<Longrightarrow> fcard (fmdom (fmdrop r m)) < fcard (fmdom m)"
  by (metis fcard_fminus1_less fmdom_drop fmdomI)

text \<open>
  \<open>to_process\<close> is a stack whose top is the head of the list. Every processed key leaves the map of
  missing ancestors, which is why the loop ends.
\<close>

function unsuspend_loop ::
  "missing_map \<Rightarrow> suspended_map \<Rightarrow> block_ref list \<Rightarrow> suspended_block list \<Rightarrow>
     (missing_map \<times> suspended_map \<times> suspended_block list) option" where
  "unsuspend_loop missing suspended [] unsuspended = Some (missing, suspended, unsuspended)"
| "unsuspend_loop missing suspended (r # to_process) unsuspended =
     (case fmlookup missing r of
        None \<Rightarrow> unsuspend_loop missing suspended to_process unsuspended
      | Some children \<Rightarrow>
          (case for_each (unsuspend_child r) (btree_iter children) (suspended, to_process, unsuspended) of
             None \<Rightarrow> None
           | Some (suspended', to_process', unsuspended') \<Rightarrow>
               unsuspend_loop (fmdrop r missing) suspended' to_process' unsuspended'))"
  by pat_completeness auto
termination
  by (relation "inv_image (less_than <*lex*> less_than) (\<lambda>(m, s, ts, u). (fcard (fmdom m), length ts))")
    (auto simp: fmdrop_smaller simp del: fmdom_drop)

definition try_unsuspend_children_blocks ::
  "consensus_context \<Rightarrow> block_ref \<Rightarrow> block_manager \<Rightarrow> (verified_block list \<times> block_manager) option" where
  "try_unsuspend_children_blocks ctx accepted_block bm = do {
     (missing, suspended, unsuspended) \<leftarrow>
       unsuspend_loop (bm_missing_ancestors bm) (bm_suspended_blocks bm) [accepted_block] [];
     _ \<leftarrow> traverse (\<lambda>s. committee_authority (ctx_committee ctx) (vb_author (sus_block s))) unsuspended;
     Some (map sus_block unsuspended,
       bm\<lparr> bm_missing_ancestors := missing, bm_suspended_blocks := suspended \<rparr>)
   }"

section \<open>Accepting\<close>

definition accept_one ::
  "consensus_context \<Rightarrow> bool \<Rightarrow> verified_block \<Rightarrow>
     verified_block list \<times> block_ref fset \<times> block_manager \<times> dag_state \<Rightarrow>
     (verified_block list \<times> block_ref fset \<times> block_manager \<times> dag_state) option" where
  "accept_one ctx committed b = (\<lambda>(accepted, missing, bm, ds). do {
     bm \<leftarrow> update_block_received_metrics ctx b bm;
     let finish = (\<lambda>accepted to_accept bm ds. do {
           (unsuspended, bm') \<leftarrow> try_unsuspend_children_blocks ctx (vb_reference b) bm;
           ds' \<leftarrow> accept_blocks ctx (to_accept @ unsuspended) ds;
           Some (accepted @ to_accept @ unsuspended, missing, bm', ds')
         });
     if committed then do {
       (result, bm, ds) \<leftarrow> try_accept_one_committed_block ctx b (bm, ds);
       (case result of
          Accepted block \<Rightarrow> finish (accepted @ [block]) [] bm ds
        | Processed \<Rightarrow> Some (accepted, missing, bm, ds)
        | Suspended _ \<Rightarrow> None
        | Skipped \<Rightarrow> None)
     }
     else do {
       (result, bm) \<leftarrow> try_accept_one_block ctx ds b bm;
       (case result of
          Accepted block \<Rightarrow> finish accepted [block] bm ds
        | Suspended ancestors_to_fetch \<Rightarrow> Some (accepted, missing |\<union>| ancestors_to_fetch, bm, ds)
        | Processed \<Rightarrow> Some (accepted, missing, bm, ds)
        | Skipped \<Rightarrow> Some (accepted, missing, bm, ds))
     }
   })"

definition try_accept_blocks_internal ::
  "consensus_context \<Rightarrow> verified_block list \<Rightarrow> bool \<Rightarrow> block_manager \<times> dag_state \<Rightarrow>
     (verified_block list \<times> block_ref fset \<times> block_manager \<times> dag_state) option" where
  "try_accept_blocks_internal ctx blocks committed = (\<lambda>(bm, ds).
     for_each (accept_one ctx committed) (sort_key vb_round blocks) ([], {||}, bm, ds))"

definition try_accept_blocks ::
  "consensus_context \<Rightarrow> verified_block list \<Rightarrow> block_manager \<times> dag_state \<Rightarrow>
     (verified_block list \<times> block_ref fset \<times> block_manager \<times> dag_state) option" where
  "try_accept_blocks ctx blocks s = try_accept_blocks_internal ctx blocks False s"

definition try_accept_committed_blocks ::
  "consensus_context \<Rightarrow> verified_block list \<Rightarrow> block_manager \<times> dag_state \<Rightarrow>
     (verified_block list \<times> block_manager \<times> dag_state) option" where
  "try_accept_committed_blocks ctx blocks s = do {
     (accepted, missing, bm, ds) \<leftarrow> try_accept_blocks_internal ctx blocks True s;
     assert_rs (missing = {||});
     Some (accepted, bm, ds)
   }"

section \<open>Looking for blocks and garbage collection\<close>

definition find_one ::
  "consensus_context \<Rightarrow> bool \<times> block_ref \<Rightarrow> block_ref fset \<times> block_manager \<Rightarrow> (block_ref fset \<times> block_manager) option" where
  "find_one ctx = (\<lambda>(found, r) (missing, bm).
     if found \<or> r |\<in>| fmdom (bm_suspended_blocks bm) then Some (missing, bm)
     else if r |\<in>| bm_missing_blocks bm then Some (finsert r missing, bm)
     else do {
       _ \<leftarrow> committee_authority (ctx_committee ctx) (ref_author r);
       Some (finsert r missing,
         bm\<lparr> bm_missing_blocks := finsert r (bm_missing_blocks bm),
             bm_missing_ancestors := fmupd r (entry_set (bm_missing_ancestors bm) r) (bm_missing_ancestors bm) \<rparr>)
     })"

definition try_find_blocks ::
  "consensus_context \<Rightarrow> dag_state \<Rightarrow> block_ref list \<Rightarrow> block_manager \<Rightarrow> (block_ref fset \<times> block_manager) option" where
  "try_find_blocks ctx ds block_refs bm =
     (let refs = filter (\<lambda>r. gc_round ctx ds < ref_round r) block_refs in
      if refs = [] then Some ({||}, bm)
      else do {
        let sorted_refs = sort_key ref_round refs;
        found \<leftarrow> contains_blocks ds sorted_refs;
        for_each (find_one ctx) (zip found sorted_refs) ({||}, bm)
      })"

partial_function (option) unsuspend_gc_loop ::
  "consensus_context \<Rightarrow> round \<Rightarrow> block_manager \<Rightarrow> dag_state \<Rightarrow> (block_manager \<times> dag_state) option" where
  "unsuspend_gc_loop ctx gc bm ds =
     (case btree_first (fmdom (bm_missing_ancestors bm)) of
        None \<Rightarrow> Some (bm, ds)
      | Some r \<Rightarrow>
          if gc < ref_round r then Some (bm, ds)
          else do {
            _ \<leftarrow> committee_authority (ctx_committee ctx) (ref_author r);
            _ \<leftarrow> assert_rs (r |\<notin>| fmdom (bm_suspended_blocks bm));
            (unsuspended, bm') \<leftarrow> try_unsuspend_children_blocks ctx r
              (bm\<lparr> bm_missing_blocks := bm_missing_blocks bm |-| {|r|} \<rparr>);
            ds' \<leftarrow> accept_blocks ctx unsuspended ds;
            _ \<leftarrow> traverse (\<lambda>b. committee_authority (ctx_committee ctx) (vb_author b)) unsuspended;
            unsuspend_gc_loop ctx gc bm' ds'
          })"

declare unsuspend_gc_loop.simps [code]

definition try_unsuspend_blocks_for_latest_gc_round ::
  "consensus_context \<Rightarrow> block_manager \<times> dag_state \<Rightarrow> (block_manager \<times> dag_state) option" where
  "try_unsuspend_blocks_for_latest_gc_round ctx = (\<lambda>(bm, ds). unsuspend_gc_loop ctx (gc_round ctx ds) bm ds)"

definition missing_blocks :: "block_manager \<Rightarrow> block_ref fset" where
  "missing_blocks bm = bm_missing_blocks bm"

end
