(* ===== verification/Block_Manager_Inv.thy ===== *)
theory Block_Manager_Inv
  imports Block_Manager
begin

text \<open>
  The invariant of the block manager: what is suspended waits for exactly the ancestors it is
  registered under, and nothing that waits could be accepted. Every operation keeps it, never
  panics, and accepts blocks into the DAG only after their ancestors.
\<close>

section \<open>Accepting in causal order\<close>

text \<open>\<open>accepts c G gc D bs\<close>: the blocks \<open>bs\<close> can be accepted one after the other into a DAG that knows the references \<open>D\<close>.\<close>

definition acceptable_after :: "committee \<Rightarrow> block_ref fset \<Rightarrow> round \<Rightarrow> block_ref set \<Rightarrow> verified_block \<Rightarrow> bool" where
  "acceptable_after c G gc D b \<longleftrightarrow> block_ok c G (vb_block b) \<and> vb_round b < u32_max \<and> vb_reference b \<notin> D \<and>
     (\<forall>a \<in> set (vb_ancestors b). gc < ref_round a \<longrightarrow> a \<in> D)"

fun accepts :: "committee \<Rightarrow> block_ref fset \<Rightarrow> round \<Rightarrow> block_ref set \<Rightarrow> verified_block list \<Rightarrow> bool" where
  "accepts c G gc D [] \<longleftrightarrow> True"
| "accepts c G gc D (b # bs) \<longleftrightarrow> acceptable_after c G gc D b \<and> accepts c G gc (insert (vb_reference b) D) bs"

lemma accepts_append:
  "accepts c G gc D (xs @ ys) \<longleftrightarrow> accepts c G gc D xs \<and> accepts c G gc (D \<union> vb_reference ` set xs) ys"
  by (induction xs arbitrary: D) auto

section \<open>Suspended blocks\<close>

definition waiting :: "suspended_map \<Rightarrow> block_ref \<Rightarrow> block_ref \<Rightarrow> bool" where
  "waiting S r a \<longleftrightarrow> (\<exists>s. fmlookup S r = Some s \<and> a |\<in>| sus_missing_ancestors s)"

definition registered :: "missing_map \<Rightarrow> block_ref \<Rightarrow> block_ref \<Rightarrow> bool" where
  "registered M r a \<longleftrightarrow> (\<exists>cs. fmlookup M a = Some cs \<and> r |\<in>| cs)"

definition suspended_ok :: "committee \<Rightarrow> block_ref fset \<Rightarrow> round \<Rightarrow> block_ref set \<Rightarrow> block_ref \<Rightarrow> suspended_block \<Rightarrow> bool" where
  "suspended_ok c G gc D r s \<longleftrightarrow> r \<notin> D \<and> vb_reference (sus_block s) = r \<and> block_ok c G (vb_block (sus_block s)) \<and>
     ref_round r < u32_max \<and> fset (sus_missing_ancestors s) \<subseteq> set (vb_ancestors (sus_block s)) \<and>
     (\<forall>a \<in> set (vb_ancestors (sus_block s)). gc < ref_round a \<longrightarrow> a \<in> D \<or> a |\<in>| sus_missing_ancestors s)"

definition susp_inv :: "committee \<Rightarrow> block_ref fset \<Rightarrow> round \<Rightarrow> block_ref set \<Rightarrow> suspended_map \<Rightarrow> bool" where
  "susp_inv c G gc D S \<longleftrightarrow>
     (\<forall>r s. fmlookup S r = Some s \<longrightarrow> suspended_ok c G gc D r s \<and> sus_missing_ancestors s \<noteq> {||})"

abbreviation freed_refs :: "suspended_block list \<Rightarrow> block_ref list" where
  "freed_refs freed \<equiv> map (vb_reference \<circ> sus_block) freed"

lemma unsuspend_child_step:
  assumes inv: "susp_inv c G gc D S" and wait: "waiting S x r" and r: "r \<in> D \<or> ref_round r \<le> gc"
  shows "\<exists>S' freed. unsuspend_child r x (S, todo, acc) = Some (S', rev (freed_refs freed) @ todo, acc @ freed) \<and>
     susp_inv c G gc (D \<union> set (freed_refs freed)) S' \<and> accepts c G gc D (map sus_block freed) \<and>
     (\<forall>y a. waiting S' y a \<longleftrightarrow> waiting S y a \<and> (y, a) \<noteq> (x, r)) \<and>
     fmdom S' = fmdom S |-| fset_of_list (freed_refs freed) \<and> set (freed_refs freed) \<subseteq> fset (fmdom S)"
proof -
  obtain s where s: "fmlookup S x = Some s" "r |\<in>| sus_missing_ancestors s" using wait by (auto simp: waiting_def)
  let ?s' = "s\<lparr> sus_missing_ancestors := sus_missing_ancestors s |-| {|r|} \<rparr>"
  have ok: "suspended_ok c G gc D x s" using inv s(1) by (simp add: susp_inv_def)
  then have ok': "suspended_ok c G gc D x ?s'" using r by (auto simp: suspended_ok_def)
  have others: "suspended_ok c G gc D y t \<and> sus_missing_ancestors t \<noteq> {||}" if "fmlookup S y = Some t" for y t
    using inv that by (simp add: susp_inv_def)
  show ?thesis
  proof (cases "sus_missing_ancestors ?s' = {||}")
    case True
    have ref: "vb_reference (sus_block s) = x" using ok by (simp add: suspended_ok_def)
    have "unsuspend_child r x (S, todo, acc) = Some (fmdrop x S, rev (freed_refs [?s']) @ todo, acc @ [?s'])"
      using s True by (simp add: unsuspend_child_def try_unsuspend_block_def)
    moreover have "susp_inv c G gc (D \<union> set (freed_refs [?s'])) (fmdrop x S)"
      unfolding susp_inv_def
    proof (intro allI impI)
      fix y t assume t: "fmlookup (fmdrop x S) y = Some t"
      then have "y \<noteq> x" "fmlookup S y = Some t" by (auto split: if_splits)
      then show "suspended_ok c G gc (D \<union> set (freed_refs [?s'])) y t \<and> sus_missing_ancestors t \<noteq> {||}"
        using others [of y t] ref by (auto simp: suspended_ok_def)
    qed
    moreover have "accepts c G gc D (map sus_block [?s'])"
      using ok' True ref by (auto simp: suspended_ok_def acceptable_after_def)
    moreover have "\<forall>y a. waiting (fmdrop x S) y a \<longleftrightarrow> waiting S y a \<and> (y, a) \<noteq> (x, r)"
    proof (intro allI)
      fix y a
      have "a = r" if "a |\<in>| sus_missing_ancestors s" using True that by auto
      then show "waiting (fmdrop x S) y a \<longleftrightarrow> waiting S y a \<and> (y, a) \<noteq> (x, r)"
        using s by (cases "y = x") (auto simp: waiting_def)
    qed
    moreover have "fmdom (fmdrop x S) = fmdom S |-| fset_of_list (freed_refs [?s'])" "set (freed_refs [?s']) \<subseteq> fset (fmdom S)"
      using ref s(1) by (auto simp: fmdom_iff)
    ultimately show ?thesis by blast
  next
    case False
    have "unsuspend_child r x (S, todo, acc) = Some (fmupd x ?s' S, rev (freed_refs []) @ todo, acc @ [])"
      using s False by (simp add: unsuspend_child_def try_unsuspend_block_def)
    moreover have "susp_inv c G gc (D \<union> set (freed_refs [])) (fmupd x ?s' S)"
      using others ok' False by (auto simp: susp_inv_def split: if_splits)
    moreover have "\<forall>y a. waiting (fmupd x ?s' S) y a \<longleftrightarrow> waiting S y a \<and> (y, a) \<noteq> (x, r)"
      using s by (auto simp: waiting_def)
    moreover have "fmdom (fmupd x ?s' S) = fmdom S |-| fset_of_list (freed_refs [])" "set (freed_refs []) \<subseteq> fset (fmdom S)"
      using s(1) by (auto simp: fmdom_iff)
    moreover have "accepts c G gc D (map sus_block [])" by simp
    ultimately show ?thesis by blast
  qed
qed

lemma unsuspend_children_step:
  assumes "susp_inv c G gc D S" and "distinct xs" and "\<forall>x \<in> set xs. waiting S x r" and "r \<in> D \<or> ref_round r \<le> gc"
  shows "\<exists>S' freed. for_each (unsuspend_child r) xs (S, todo, acc) = Some (S', rev (freed_refs freed) @ todo, acc @ freed) \<and>
     susp_inv c G gc (D \<union> set (freed_refs freed)) S' \<and> accepts c G gc D (map sus_block freed) \<and>
     (\<forall>y a. waiting S' y a \<longleftrightarrow> waiting S y a \<and> \<not> (y \<in> set xs \<and> a = r)) \<and>
     fmdom S' = fmdom S |-| fset_of_list (freed_refs freed) \<and> set (freed_refs freed) \<subseteq> fset (fmdom S)"
  using assms
proof (induction xs arbitrary: S D todo acc)
  case Nil
  then show ?case by (intro exI [of _ S] exI [of _ "[]"]) auto
next
  case (Cons x xs)
  obtain S1 f1 where 1: "unsuspend_child r x (S, todo, acc) = Some (S1, rev (freed_refs f1) @ todo, acc @ f1)"
    "susp_inv c G gc (D \<union> set (freed_refs f1)) S1" "accepts c G gc D (map sus_block f1)"
    "\<forall>y a. waiting S1 y a \<longleftrightarrow> waiting S y a \<and> (y, a) \<noteq> (x, r)"
    "fmdom S1 = fmdom S |-| fset_of_list (freed_refs f1)" "set (freed_refs f1) \<subseteq> fset (fmdom S)"
    using unsuspend_child_step [OF Cons.prems(1), of x r todo acc] Cons.prems(3,4) by auto
  have pre: "\<forall>y \<in> set xs. waiting S1 y r" "r \<in> D \<union> set (freed_refs f1) \<or> ref_round r \<le> gc" "distinct xs"
    using Cons.prems(2-4) 1(4) by auto
  obtain S2 f2 where 2: "for_each (unsuspend_child r) xs (S1, rev (freed_refs f1) @ todo, acc @ f1) =
      Some (S2, rev (freed_refs f2) @ rev (freed_refs f1) @ todo, (acc @ f1) @ f2)"
    "susp_inv c G gc (D \<union> set (freed_refs f1) \<union> set (freed_refs f2)) S2"
    "accepts c G gc (D \<union> set (freed_refs f1)) (map sus_block f2)"
    "\<forall>y a. waiting S2 y a \<longleftrightarrow> waiting S1 y a \<and> \<not> (y \<in> set xs \<and> a = r)"
    "fmdom S2 = fmdom S1 |-| fset_of_list (freed_refs f2)" "set (freed_refs f2) \<subseteq> fset (fmdom S1)"
    using Cons.IH [OF 1(2) pre(3,1,2), of "rev (freed_refs f1) @ todo" "acc @ f1"] by blast
  have "vb_reference ` set (map sus_block f1) = set (freed_refs f1)" by auto
  then have "accepts c G gc D (map sus_block (f1 @ f2))" using 1(3) 2(3) by (simp add: accepts_append)
  moreover have "for_each (unsuspend_child r) (x # xs) (S, todo, acc) = Some (S2, rev (freed_refs (f1 @ f2)) @ todo, acc @ f1 @ f2)"
    using 1(1) 2(1) by simp
  moreover have "susp_inv c G gc (D \<union> set (freed_refs (f1 @ f2))) S2" using 2(2) by (simp add: Un_assoc)
  moreover have "\<forall>y a. waiting S2 y a \<longleftrightarrow> waiting S y a \<and> \<not> (y \<in> set (x # xs) \<and> a = r)" using 1(4) 2(4) by auto
  moreover have "fmdom S2 = fmdom S |-| fset_of_list (freed_refs (f1 @ f2))" using 1(5) 2(5) by auto
  moreover have "set (freed_refs (f1 @ f2)) \<subseteq> fset (fmdom S)" using 1(5,6) 2(6) by auto
  ultimately show ?case by blast
qed

text \<open>The map of missing ancestors mirrors who waits for whom.\<close>

definition links_ok :: "missing_map \<Rightarrow> suspended_map \<Rightarrow> bool" where
  "links_ok M S \<longleftrightarrow> (\<forall>x a. waiting S x a \<longleftrightarrow> registered M x a)"

lemma unsuspend_loop_spec:
  assumes "susp_inv c G gc D S" and "links_ok M S" and "\<forall>r \<in> set todo. r \<in> D \<or> ref_round r \<le> gc"
    and "\<forall>a. a |\<in>| fmdom M \<longrightarrow> a \<in> D \<longrightarrow> a \<in> set todo"
  shows "\<exists>M' S' freed. unsuspend_loop M S todo acc = Some (M', S', acc @ freed) \<and>
     susp_inv c G gc (D \<union> set (freed_refs freed)) S' \<and> links_ok M' S' \<and> accepts c G gc D (map sus_block freed) \<and>
     (\<forall>a. a |\<in>| fmdom M' \<longrightarrow> a \<notin> D \<union> set (freed_refs freed)) \<and>
     fmdom S' = fmdom S |-| fset_of_list (freed_refs freed) \<and> set (freed_refs freed) \<subseteq> fset (fmdom S) \<and>
     fmdom M' = fmdom M |-| fset_of_list (todo @ freed_refs freed)"
  using assms
proof (induction M S todo acc arbitrary: D rule: unsuspend_loop.induct)
  case (1 M S acc)
  then show ?case by (intro exI [of _ M] exI [of _ S] exI [of _ "[]"]) auto
next
  case (2 M S r todo acc)
  show ?case
  proof (cases "fmlookup M r")
    case None
    then have "\<forall>a. a |\<in>| fmdom M \<longrightarrow> a \<in> D \<longrightarrow> a \<in> set todo" using "2.prems"(4) by (auto simp: fmdom_iff)
    moreover have "\<forall>x \<in> set todo. x \<in> D \<or> ref_round x \<le> gc" using "2.prems"(3) by simp
    ultimately obtain M' S' freed where ih: "unsuspend_loop M S todo acc = Some (M', S', acc @ freed)"
      "susp_inv c G gc (D \<union> set (freed_refs freed)) S'" "links_ok M' S'" "accepts c G gc D (map sus_block freed)"
      "\<forall>a. a |\<in>| fmdom M' \<longrightarrow> a \<notin> D \<union> set (freed_refs freed)" "fmdom S' = fmdom S |-| fset_of_list (freed_refs freed)"
      "set (freed_refs freed) \<subseteq> fset (fmdom S)" "fmdom M' = fmdom M |-| fset_of_list (todo @ freed_refs freed)"
      using "2.IH"(1) [OF None "2.prems"(1,2)] by blast
    have "fmdom M' = fmdom M |-| fset_of_list ((r # todo) @ freed_refs freed)" using ih(8) None by (auto simp: fmdom_iff)
    moreover have "unsuspend_loop M S (r # todo) acc = Some (M', S', acc @ freed)" using ih(1) None by simp
    ultimately show ?thesis using ih(2-7) by blast
  next
    case (Some cs)
    have wait: "\<forall>x \<in> set (btree_iter cs). waiting S x r"
      using "2.prems"(2) Some by (auto simp: links_ok_def registered_def)
    have r: "r \<in> D \<or> ref_round r \<le> gc" using "2.prems"(3) by simp
    obtain S1 f1 where 1: "for_each (unsuspend_child r) (btree_iter cs) (S, todo, acc) = Some (S1, rev (freed_refs f1) @ todo, acc @ f1)"
      "susp_inv c G gc (D \<union> set (freed_refs f1)) S1" "accepts c G gc D (map sus_block f1)"
      "\<forall>y a. waiting S1 y a \<longleftrightarrow> waiting S y a \<and> \<not> (y \<in> set (btree_iter cs) \<and> a = r)"
      "fmdom S1 = fmdom S |-| fset_of_list (freed_refs f1)" "set (freed_refs f1) \<subseteq> fset (fmdom S)"
      using unsuspend_children_step [OF "2.prems"(1) distinct_btree_iter wait r, of todo acc] by blast
    have links: "links_ok (fmdrop r M) S1"
      using "2.prems"(2) 1(4) Some unfolding links_ok_def registered_def by (auto simp: set_btree_iter)
    have todo: "\<forall>x \<in> set (rev (freed_refs f1) @ todo). x \<in> D \<union> set (freed_refs f1) \<or> ref_round x \<le> gc"
      "\<forall>a. a |\<in>| fmdom (fmdrop r M) \<longrightarrow> a \<in> D \<union> set (freed_refs f1) \<longrightarrow> a \<in> set (rev (freed_refs f1) @ todo)"
      using "2.prems"(3,4) by auto
    from "2.IH"(2) [OF Some 1(1) refl refl 1(2) links todo]
    obtain M' S' f2 where ih: "unsuspend_loop (fmdrop r M) S1 (rev (freed_refs f1) @ todo) (acc @ f1) = Some (M', S', (acc @ f1) @ f2)"
      "susp_inv c G gc (D \<union> set (freed_refs f1) \<union> set (freed_refs f2)) S'" "links_ok M' S'"
      "accepts c G gc (D \<union> set (freed_refs f1)) (map sus_block f2)"
      "\<forall>a. a |\<in>| fmdom M' \<longrightarrow> a \<notin> D \<union> set (freed_refs f1) \<union> set (freed_refs f2)"
      "fmdom S' = fmdom S1 |-| fset_of_list (freed_refs f2)" "set (freed_refs f2) \<subseteq> fset (fmdom S1)"
      "fmdom M' = fmdom (fmdrop r M) |-| fset_of_list ((rev (freed_refs f1) @ todo) @ freed_refs f2)" by blast
    have "vb_reference ` set (map sus_block f1) = set (freed_refs f1)" by auto
    then have "accepts c G gc D (map sus_block (f1 @ f2))" using 1(3) ih(4) by (simp add: accepts_append)
    moreover have "unsuspend_loop M S (r # todo) acc = Some (M', S', acc @ f1 @ f2)" using 1(1) ih(1) Some by simp
    moreover have "susp_inv c G gc (D \<union> set (freed_refs (f1 @ f2))) S'" using ih(2) by (simp add: Un_assoc)
    moreover have "\<forall>a. a |\<in>| fmdom M' \<longrightarrow> a \<notin> D \<union> set (freed_refs (f1 @ f2))" using ih(5) by auto
    moreover have "fmdom S' = fmdom S |-| fset_of_list (freed_refs (f1 @ f2))" using 1(5) ih(6) by auto
    moreover have "set (freed_refs (f1 @ f2)) \<subseteq> fset (fmdom S)" using 1(5,6) ih(7) by auto
    moreover have "fmdom M' = fmdom M |-| fset_of_list ((r # todo) @ freed_refs (f1 @ f2))" using ih(8) by auto
    ultimately show ?thesis using ih(3) by blast
  qed
qed

section \<open>Accepting into the DAG\<close>

text \<open>The references of blocks that exist in the network: own blocks do not share a slot.\<close>

definition own_unique :: "consensus_context \<Rightarrow> block_ref set \<Rightarrow> bool" where
  "own_unique ctx U \<longleftrightarrow> (\<forall>r \<in> U. \<forall>s \<in> U. ref_author r = own_index ctx \<longrightarrow> slot_of r = slot_of s \<longrightarrow> r = s)"

definition accept_step :: "consensus_context \<Rightarrow> dag_state \<Rightarrow> dag_state \<Rightarrow> bool" where
  "accept_step ctx ds ds' \<longleftrightarrow> (\<exists>b. ready ctx ds b \<and> accept_block ctx b ds = Some ds')"

definition dag_extends :: "consensus_context \<Rightarrow> dag_state \<Rightarrow> verified_block list \<Rightarrow> dag_state \<Rightarrow> bool" where
  "dag_extends ctx ds bs ds' \<longleftrightarrow> (accept_step ctx)\<^sup>*\<^sup>* ds ds' \<and> ds_last_commit ds' = ds_last_commit ds \<and>
     ds_genesis ds' = ds_genesis ds \<and>
     accepts (ctx_committee ctx) (fmdom (ds_genesis ds)) (gc_round ctx ds) (dom (ds_blocks ds)) bs \<and>
     ds_blocks ds \<subseteq>\<^sub>m ds_blocks ds' \<and> dom (ds_blocks ds') = dom (ds_blocks ds) \<union> vb_reference ` set bs \<and>
     (\<forall>b \<in> set bs. ds_blocks ds' (vb_reference b) = Some b)"

lemma own_slot_free:
  assumes U: "own_unique ctx U" "dom (ds_blocks ds) \<subseteq> U" "vb_reference b \<in> U" and new: "ds_blocks ds (vb_reference b) = None"
    and inv: "ds_inv ctx ds" and own: "vb_author b = own_index ctx"
  shows "get_uncommitted_blocks_at_slot ds (slot_of (vb_reference b)) = []"
proof -
  have "\<not> slot_of k = slot_of (vb_reference b)" if k_in: "k |\<in>| fmdom (ds_recent_blocks ds)" for k
  proof
    assume eq: "slot_of k = slot_of (vb_reference b)"
    obtain info where "fmlookup (ds_recent_blocks ds) k = Some info" using k_in by (auto simp: fmdom_iff)
    moreover from this have "0 < ref_round k" using inv unfolding ds_inv_def recent_inv_def by blast
    ultimately have k: "ds_blocks ds k \<noteq> None" by (simp add: ds_blocks_def GENESIS_ROUND_def)
    have "ref_author k = own_index ctx" using eq own by (auto simp: slot_of_def)
    then have "k = vb_reference b" using U k eq unfolding own_unique_def by (meson domIff subsetD)
    then show False using k new by simp
  qed
  then show ?thesis
    unfolding get_uncommitted_blocks_at_slot_def btree_map_range_def btree_range_def slot_range
    by (simp add: filter_empty_conv set_btree_iter)
qed

lemma accept_next:
  assumes inv: "dag_inv ctx G ds" and b: "acceptable_after (ctx_committee ctx) G (gc_round ctx ds) (dom (ds_blocks ds)) b"
    and U: "own_unique ctx U" "dom (ds_blocks ds) \<subseteq> U" "vb_reference b \<in> U"
  shows "\<exists>ds'. accept_block ctx b ds = Some ds' \<and> dag_inv ctx G ds' \<and> dag_extends ctx ds [b] ds'"
proof -
  have inv': "ds_inv ctx ds" and G: "fmdom (ds_genesis ds) = G" using inv by (simp_all add: dag_inv_def)
  have new: "ds_blocks ds (vb_reference b) = None" using b by (auto simp: acceptable_after_def domIff)
  have ready: "ready ctx ds b" using b G by (auto simp: ready_def acceptable_after_def domIff)
  have acc: "acceptable ctx ds b"
    using b own_slot_free [OF U new inv'] by (auto simp: acceptable_def acceptable_after_def block_ok_def)
  obtain ds' where ds': "accept_block ctx b ds = Some ds'" "ds_blocks ds' = (ds_blocks ds)(vb_reference b \<mapsto> b)"
    using accept_block_spec [OF inv' acc] new by auto
  have "accept_step ctx ds ds'" using ready ds'(1) by (auto simp: accept_step_def)
  then have "dag_extends ctx ds [b] ds'"
    unfolding dag_extends_def ds'(2)
    using accept_block_frame(1,3) [OF ds'(1)] new b G by (auto simp: map_le_def)
  then show ?thesis using ds'(1) accept_dag_inv [OF inv ready ds'(1)] by blast
qed

lemma dag_extends_gc: "dag_extends ctx ds bs ds' \<Longrightarrow> gc_round ctx ds' = gc_round ctx ds"
  by (intro gc_round_cong) (simp add: dag_extends_def)

lemma dag_extends_refl [simp]: "dag_extends ctx ds [] ds"
  by (simp add: dag_extends_def)

lemma dag_extends_trans:
  assumes "dag_extends ctx ds bs ds1" and "dag_extends ctx ds1 cs ds2"
  shows "dag_extends ctx ds (bs @ cs) ds2"
proof -
  have 1: "ds_genesis ds1 = ds_genesis ds" "dom (ds_blocks ds1) = dom (ds_blocks ds) \<union> vb_reference ` set bs"
    using assms(1) by (auto simp: dag_extends_def)
  have "accepts (ctx_committee ctx) (fmdom (ds_genesis ds)) (gc_round ctx ds) (dom (ds_blocks ds)) (bs @ cs)"
    using assms dag_extends_gc [OF assms(1)] 1 by (simp add: accepts_append dag_extends_def)
  moreover have "ds_blocks ds2 (vb_reference b) = Some b" if "b \<in> set bs" for b
    using assms that by (auto simp: dag_extends_def map_le_def dom_def)
  moreover have "ds_blocks ds \<subseteq>\<^sub>m ds_blocks ds2" using assms map_le_trans by (auto simp: dag_extends_def)
  ultimately show ?thesis using assms by (auto simp: dag_extends_def)
qed

lemma accept_all:
  assumes "dag_inv ctx G ds" and "accepts (ctx_committee ctx) G (gc_round ctx ds) (dom (ds_blocks ds)) bs"
    and "own_unique ctx U" and "dom (ds_blocks ds) \<subseteq> U" and "vb_reference ` set bs \<subseteq> U"
  shows "\<exists>ds'. accept_blocks ctx bs ds = Some ds' \<and> dag_inv ctx G ds' \<and> dag_extends ctx ds bs ds'"
  using assms(1,2,4,5)
proof (induction bs arbitrary: ds)
  case Nil
  then show ?case by (simp add: accept_blocks_def dag_extends_def)
next
  case (Cons b bs)
  obtain ds1 where 1: "accept_block ctx b ds = Some ds1" "dag_inv ctx G ds1" "dag_extends ctx ds [b] ds1"
    using accept_next [OF Cons.prems(1) _ assms(3) Cons.prems(3), of b] Cons.prems(2,4) by auto
  have d: "dom (ds_blocks ds1) = insert (vb_reference b) (dom (ds_blocks ds))" using 1(3) by (auto simp: dag_extends_def)
  obtain ds2 where "accept_blocks ctx bs ds1 = Some ds2" "dag_inv ctx G ds2" "dag_extends ctx ds1 bs ds2"
    using Cons.IH [OF 1(2)] Cons.prems d dag_extends_gc [OF 1(3)] by auto
  then show ?case using 1(1) dag_extends_trans [OF 1(3)] by (auto simp: accept_blocks_def)
qed

section \<open>The invariant\<close>

definition bm_inv :: "consensus_context \<Rightarrow> block_ref fset \<Rightarrow> block_ref set \<Rightarrow> block_manager \<Rightarrow> dag_state \<Rightarrow> bool" where
  "bm_inv ctx G U bm ds \<longleftrightarrow> dag_inv ctx G ds \<and>
     susp_inv (ctx_committee ctx) G (gc_round ctx ds) (dom (ds_blocks ds)) (bm_suspended_blocks bm) \<and>
     links_ok (bm_missing_ancestors bm) (bm_suspended_blocks bm) \<and>
     (\<forall>a. a |\<in>| fmdom (bm_missing_ancestors bm) \<longrightarrow> a \<notin> dom (ds_blocks ds) \<and> ref_author a \<in> members (ctx_committee ctx)) \<and>
     bm_missing_blocks bm = fmdom (bm_missing_ancestors bm) |-| fmdom (bm_suspended_blocks bm) \<and>
     length (bm_received_block_rounds bm) = committee_size (ctx_committee ctx) \<and>
     own_unique ctx U \<and> dom (ds_blocks ds) \<subseteq> U \<and> fset (fmdom (bm_suspended_blocks bm)) \<subseteq> U"

text \<open>
  The state between the decision to accept \<open>bs\<close> and the release of what waited for the reference \<open>r\<close>.
\<close>

definition settling :: "consensus_context \<Rightarrow> block_ref fset \<Rightarrow> block_ref set \<Rightarrow> verified_block list \<Rightarrow> block_ref \<Rightarrow>
    block_manager \<Rightarrow> dag_state \<Rightarrow> bool" where
  "settling ctx G U bs r bm ds \<longleftrightarrow> dag_inv ctx G ds \<and>
     accepts (ctx_committee ctx) G (gc_round ctx ds) (dom (ds_blocks ds)) bs \<and>
     susp_inv (ctx_committee ctx) G (gc_round ctx ds) (dom (ds_blocks ds) \<union> vb_reference ` set bs) (bm_suspended_blocks bm) \<and>
     links_ok (bm_missing_ancestors bm) (bm_suspended_blocks bm) \<and>
     (\<forall>a. a |\<in>| fmdom (bm_missing_ancestors bm) \<longrightarrow> a \<in> dom (ds_blocks ds) \<union> vb_reference ` set bs \<longrightarrow> a = r) \<and>
     (\<forall>a. a |\<in>| fmdom (bm_missing_ancestors bm) \<longrightarrow> ref_author a \<in> members (ctx_committee ctx)) \<and>
     (r \<in> dom (ds_blocks ds) \<union> vb_reference ` set bs \<or> ref_round r \<le> gc_round ctx ds) \<and>
     bm_missing_blocks bm = fmdom (bm_missing_ancestors bm) |-| fmdom (bm_suspended_blocks bm) |-| {|r|} \<and>
     length (bm_received_block_rounds bm) = committee_size (ctx_committee ctx) \<and>
     own_unique ctx U \<and> dom (ds_blocks ds) \<subseteq> U \<and> vb_reference ` set bs \<subseteq> U \<and> fset (fmdom (bm_suspended_blocks bm)) \<subseteq> U"

lemma settle:
  assumes st: "settling ctx G U bs r bm ds"
  shows "\<exists>freed bm' ds'. try_unsuspend_children_blocks ctx r bm = Some (freed, bm') \<and>
     accept_blocks ctx (bs @ freed) ds = Some ds' \<and> bm_inv ctx G U bm' ds' \<and> dag_extends ctx ds (bs @ freed) ds' \<and>
     vb_reference ` set freed \<subseteq> fset (fmdom (bm_suspended_blocks bm)) \<and>
     fmdom (bm_suspended_blocks bm') = fmdom (bm_suspended_blocks bm) |-| fset_of_list (map vb_reference freed) \<and>
     fmdom (bm_missing_ancestors bm') = fmdom (bm_missing_ancestors bm) |-| fset_of_list (r # map vb_reference freed)"
proof -
  let ?c = "ctx_committee ctx" and ?gc = "gc_round ctx ds" and ?M = "bm_missing_ancestors bm" and ?S = "bm_suspended_blocks bm"
  let ?D = "dom (ds_blocks ds) \<union> vb_reference ` set bs"
  have s: "dag_inv ctx G ds" "accepts ?c G ?gc (dom (ds_blocks ds)) bs" "susp_inv ?c G ?gc ?D ?S" "links_ok ?M ?S"
    "\<forall>a. a |\<in>| fmdom ?M \<longrightarrow> a \<in> ?D \<longrightarrow> a = r" "\<forall>a. a |\<in>| fmdom ?M \<longrightarrow> ref_author a \<in> members ?c"
    "r \<in> ?D \<or> ref_round r \<le> ?gc" "bm_missing_blocks bm = fmdom ?M |-| fmdom ?S |-| {|r|}"
    "length (bm_received_block_rounds bm) = committee_size ?c" "own_unique ctx U" "?D \<subseteq> U" "fset (fmdom ?S) \<subseteq> U"
    using st unfolding settling_def Un_subset_iff by blast+
  have "\<forall>x \<in> set [r]. x \<in> ?D \<or> ref_round x \<le> ?gc" "\<forall>a. a |\<in>| fmdom ?M \<longrightarrow> a \<in> ?D \<longrightarrow> a \<in> set [r]" using s(5,7) by auto
  from unsuspend_loop_spec [OF s(3,4) this, of "[]"] obtain M' S' freed where
    u: "unsuspend_loop ?M ?S [r] [] = Some (M', S', freed)" "susp_inv ?c G ?gc (?D \<union> set (freed_refs freed)) S'" "links_ok M' S'"
      "accepts ?c G ?gc ?D (map sus_block freed)" "\<forall>a. a |\<in>| fmdom M' \<longrightarrow> a \<notin> ?D \<union> set (freed_refs freed)"
      "fmdom S' = fmdom ?S |-| fset_of_list (freed_refs freed)" "set (freed_refs freed) \<subseteq> fset (fmdom ?S)"
      "fmdom M' = fmdom ?M |-| fset_of_list ([r] @ freed_refs freed)" unfolding append_Nil by blast
  let ?fs = "map sus_block freed" and ?bm' = "bm\<lparr> bm_missing_ancestors := M', bm_suspended_blocks := S' \<rparr>"
  have fr: "map vb_reference ?fs = freed_refs freed" by simp
  have fs: "vb_reference ` set ?fs = set (freed_refs freed)" by auto
  have "vb_author b \<in> members ?c" if "accepts ?c G ?gc X xs" "b \<in> set xs" for X xs b
    using that by (induction xs arbitrary: X) (auto simp: acceptable_after_def block_ok_def)
  then have "\<forall>x \<in> set freed. committee_authority ?c (vb_author (sus_block x)) \<noteq> None"
    using u(4) by (fastforce simp: committee_authority_def members_def committee_size_def vec_get_def)
  then have "traverse (\<lambda>x. committee_authority ?c (vb_author (sus_block x))) freed \<noteq> None"
    by (simp add: traverse_None_conv)
  then have tu: "try_unsuspend_children_blocks ctx r bm = Some (?fs, ?bm')"
    using u(1) by (auto simp: try_unsuspend_children_blocks_def)
  have "accepts ?c G ?gc (dom (ds_blocks ds)) (bs @ ?fs)" using s(2) u(4) by (simp add: accepts_append)
  moreover have "vb_reference ` set (bs @ ?fs) \<subseteq> U" unfolding set_append image_Un fs using s(11,12) u(7) by blast
  ultimately obtain ds' where ds': "accept_blocks ctx (bs @ ?fs) ds = Some ds'" "dag_inv ctx G ds'" "dag_extends ctx ds (bs @ ?fs) ds'"
    using accept_all [OF s(1) _ s(10)] s(11) by blast
  have D': "dom (ds_blocks ds') = ?D \<union> set (freed_refs freed)"
    using ds'(3) unfolding dag_extends_def set_append image_Un fs by (simp only: Un_assoc)
  have mb: "bm_missing_blocks bm = fmdom M' |-| fmdom S'" 
  proof (rule fset_eqI)
    fix x
    have "x \<in> set (freed_refs freed) \<Longrightarrow> x |\<in>| fmdom ?S" using u(7) by blast
    then show "x |\<in>| bm_missing_blocks bm \<longleftrightarrow> x |\<in>| fmdom M' |-| fmdom S'"
      unfolding s(8) u(6) u(8) by (simp add: fset_of_list_elem del: set_map fset_of_list_map) blast
  qed
  have "\<forall>a. a |\<in>| fmdom M' \<longrightarrow> ref_author a \<in> members ?c" "fset (fmdom S') \<subseteq> U" "dom (ds_blocks ds') \<subseteq> U"
    using s(6,11,12) u(6-8) D' by auto
  then have "bm_inv ctx G U ?bm' ds'"
    unfolding bm_inv_def dag_extends_gc [OF ds'(3)] D' using ds'(2) u(2,3,5) s(9,10) mb by simp
  moreover have "fmdom S' = fmdom ?S |-| fset_of_list (map vb_reference ?fs)" "fmdom M' = fmdom ?M |-| fset_of_list (r # map vb_reference ?fs)"
    unfolding fr using u(6,8) by (simp_all only: append_Cons append_Nil)
  moreover have "vb_reference ` set ?fs \<subseteq> fset (fmdom ?S)" using u(7) unfolding fs .
  ultimately show ?thesis
    using tu ds' by (intro exI [of _ ?fs] exI [of _ ?bm'] exI [of _ ds']) simp
qed

end
