(* ===== verification/Block_Accepting.thy ===== *)
theory Block_Accepting
  imports Block_Manager_Inv
begin

text \<open>
  What the operations of the block manager do on a state that satisfies the invariant: each of them
  returns, keeps the invariant, and changes the DAG only by accepting ready blocks.
\<close>

section \<open>Noting missing ancestors\<close>

text \<open>What the loop of \<open>try_accept_one_block\<close> leaves when \<open>N\<close> are the ancestors that were not found.\<close>

definition noted :: "block_ref \<Rightarrow> block_ref fset \<Rightarrow> block_manager \<Rightarrow> block_manager \<Rightarrow> bool" where
  "noted r N bm bm' \<longleftrightarrow> bm_suspended_blocks bm' = bm_suspended_blocks bm \<and>
     bm_received_block_rounds bm' = bm_received_block_rounds bm \<and>
     (\<forall>x a. registered (bm_missing_ancestors bm') x a \<longleftrightarrow> registered (bm_missing_ancestors bm) x a \<or> x = r \<and> a |\<in>| N) \<and>
     fmdom (bm_missing_ancestors bm') = fmdom (bm_missing_ancestors bm) |\<union>| N \<and>
     bm_missing_blocks bm' = bm_missing_blocks bm |\<union>| (N |-| fmdom (bm_suspended_blocks bm)) \<and>
     (N = {||} \<longrightarrow> bm' = bm)"

lemma note_ancestor_step:
  assumes a: "ref_author a \<in> members (ctx_committee ctx)"
  shows "\<exists>bm'. note_ancestor ctx r (found, a) (bm, missing, fetch) =
      Some (bm', missing |\<union>| (if found then {||} else {|a|}),
        fetch |\<union>| ((if found then {||} else {|a|}) |-| fmdom (bm_suspended_blocks bm))) \<and>
     noted r (if found then {||} else {|a|}) bm bm'"
proof -
  obtain au where au: "committee_authority (ctx_committee ctx) (ref_author a) = Some au"
    using a by (auto simp: committee_authority_def members_def committee_size_def vec_get_def)
  let ?M = "fmupd a (finsert r (entry_set (bm_missing_ancestors bm) a)) (bm_missing_ancestors bm)"
  have reg: "registered ?M x y \<longleftrightarrow> registered (bm_missing_ancestors bm) x y \<or> x = r \<and> y = a" for x y
    by (auto simp: registered_def entry_set_def split: option.splits)
  show ?thesis
  proof (cases "found \<or> a |\<in>| fmdom (bm_suspended_blocks bm)")
    case True
    then show ?thesis
      using au reg by (cases found) (auto simp: note_ancestor_def noted_def registered_def Let_def)
  next
    case False
    then have "noted r {|a|} bm (bm\<lparr> bm_missing_ancestors := ?M, bm_missing_blocks := finsert a (bm_missing_blocks bm) \<rparr>)"
      using reg by (auto simp: noted_def)
    then show ?thesis using au False by (auto simp: note_ancestor_def Let_def)
  qed
qed

lemma noted_trans:
  "noted r N bm bm1 \<Longrightarrow> noted r K bm1 bm2 \<Longrightarrow> noted r (N |\<union>| K) bm bm2"
  unfolding noted_def by (simp add: funion_assoc) blast

lemma note_ancestors:
  assumes "\<forall>a \<in> set as. ref_author a \<in> members (ctx_committee ctx)"
  shows "\<exists>bm'. for_each (note_ancestor ctx r) (zip (map P as) as) (bm, missing, fetch) =
      Some (bm', missing |\<union>| fset_of_list (filter (\<lambda>a. \<not> P a) as),
        fetch |\<union>| (fset_of_list (filter (\<lambda>a. \<not> P a) as) |-| fmdom (bm_suspended_blocks bm))) \<and>
     noted r (fset_of_list (filter (\<lambda>a. \<not> P a) as)) bm bm'"
  using assms
proof (induction as arbitrary: bm missing fetch)
  case Nil
  show ?case by (auto simp: noted_def)
next
  case (Cons a as)
  let ?n = "if P a then {||} else {|a|}" and ?N = "fset_of_list (filter (\<lambda>a. \<not> P a) as)"
  obtain bm1 where 1: "note_ancestor ctx r (P a, a) (bm, missing, fetch) =
      Some (bm1, missing |\<union>| ?n, fetch |\<union>| (?n |-| fmdom (bm_suspended_blocks bm)))" "noted r ?n bm bm1"
    using note_ancestor_step Cons.prems by (metis list.set_intros(1))
  have S: "bm_suspended_blocks bm1 = bm_suspended_blocks bm" using 1(2) by (simp add: noted_def)
  obtain bm2 where 2: "for_each (note_ancestor ctx r) (zip (map P as) as)
      (bm1, missing |\<union>| ?n, fetch |\<union>| (?n |-| fmdom (bm_suspended_blocks bm))) =
      Some (bm2, missing |\<union>| ?n |\<union>| ?N,
        fetch |\<union>| (?n |-| fmdom (bm_suspended_blocks bm)) |\<union>| (?N |-| fmdom (bm_suspended_blocks bm)))" "noted r ?N bm1 bm2"
    using Cons.IH Cons.prems unfolding S [symmetric] by (meson list.set_intros(2))
  have N: "fset_of_list (filter (\<lambda>a. \<not> P a) (a # as)) = ?n |\<union>| ?N" by auto
  have "for_each (note_ancestor ctx r) (zip (map P (a # as)) (a # as)) (bm, missing, fetch) =
      Some (bm2, missing |\<union>| (?n |\<union>| ?N), fetch |\<union>| ((?n |\<union>| ?N) |-| fmdom (bm_suspended_blocks bm)))"
    using 1(1) 2(1) by (auto simp: ac_simps)
  then show ?case unfolding N using noted_trans [OF 1(2) 2(2)] by blast
qed

section \<open>Received blocks\<close>

text \<open>A block that passed verification and is among the blocks of the network.\<close>

definition incoming :: "consensus_context \<Rightarrow> block_ref fset \<Rightarrow> block_ref set \<Rightarrow> verified_block \<Rightarrow> bool" where
  "incoming ctx G U b \<longleftrightarrow> block_ok (ctx_committee ctx) G (vb_block b) \<and> vb_round b < u32_max \<and> vb_reference b \<in> U"

lemma incoming_author:
  assumes "incoming ctx G U b"
  shows "\<exists>au. committee_authority (ctx_committee ctx) (vb_author b) = Some au"
  using assms by (auto simp: incoming_def block_ok_def committee_authority_def members_def committee_size_def vec_get_def)

text \<open>The part of the invariant about the DAG, as one fact.\<close>

lemma bm_invD:
  assumes "bm_inv ctx G U bm ds"
  shows "dag_inv ctx G ds" "ds_inv ctx ds" "fmdom (ds_genesis ds) = G"
    "susp_inv (ctx_committee ctx) G (gc_round ctx ds) (dom (ds_blocks ds)) (bm_suspended_blocks bm)"
    "links_ok (bm_missing_ancestors bm) (bm_suspended_blocks bm)"
    "\<forall>a. a |\<in>| fmdom (bm_missing_ancestors bm) \<longrightarrow> a \<notin> dom (ds_blocks ds) \<and> ref_author a \<in> members (ctx_committee ctx)"
    "bm_missing_blocks bm = fmdom (bm_missing_ancestors bm) |-| fmdom (bm_suspended_blocks bm)"
    "length (bm_received_block_rounds bm) = committee_size (ctx_committee ctx)"
    "own_unique ctx U" "dom (ds_blocks ds) \<subseteq> U" "fset (fmdom (bm_suspended_blocks bm)) \<subseteq> U"
  using assms unfolding bm_inv_def dag_inv_def by blast+

lemma unregistered:
  assumes "links_ok M S" and "r |\<notin>| fmdom S"
  shows "\<not> registered M r a"
  using assms unfolding links_ok_def by (metis waiting_def fmdom_notD option.distinct(1))

lemma suspend_inv:
  assumes inv: "bm_inv ctx G U bm ds" and inc: "incoming ctx G U b"
    and new: "vb_reference b \<notin> dom (ds_blocks ds)" "vb_reference b |\<notin>| fmdom (bm_suspended_blocks bm)"
    and nt: "noted (vb_reference b) N bm bm1" and N: "N \<noteq> {||}" "fset N \<subseteq> set (vb_ancestors b)" "fset N \<inter> dom (ds_blocks ds) = {}"
    and cover: "\<forall>a \<in> set (vb_ancestors b). gc_round ctx ds < ref_round a \<longrightarrow> a \<in> dom (ds_blocks ds) \<or> a |\<in>| N"
  shows "bm_inv ctx G U (bm1\<lparr> bm_missing_blocks := bm_missing_blocks bm1 |-| {|vb_reference b|},
     bm_suspended_blocks := fmupd (vb_reference b) \<lparr> sus_block = b, sus_missing_ancestors = N \<rparr> (bm_suspended_blocks bm1) \<rparr>) ds"
    (is "bm_inv ctx G U ?bm' ds")
proof -
  note i = bm_invD [OF inv]
  let ?r = "vb_reference b" and ?S = "bm_suspended_blocks bm" and ?M = "bm_missing_ancestors bm"
  have n: "bm_suspended_blocks bm1 = ?S" "bm_received_block_rounds bm1 = bm_received_block_rounds bm"
    "\<forall>x a. registered (bm_missing_ancestors bm1) x a \<longleftrightarrow> registered ?M x a \<or> x = ?r \<and> a |\<in>| N"
    "fmdom (bm_missing_ancestors bm1) = fmdom ?M |\<union>| N"
    "bm_missing_blocks bm1 = bm_missing_blocks bm |\<union>| (N |-| fmdom ?S)"
    using nt unfolding noted_def by blast+
  have ok: "block_ok (ctx_committee ctx) G (vb_block b)" "vb_round b < u32_max" "?r \<in> U" using inc by (auto simp: incoming_def)
  have "susp_inv (ctx_committee ctx) G (gc_round ctx ds) (dom (ds_blocks ds)) (bm_suspended_blocks ?bm')"
    using i(4) ok new(1) N cover unfolding susp_inv_def n(1) by (auto simp: suspended_ok_def)
  moreover have "waiting (bm_suspended_blocks ?bm') x a \<longleftrightarrow> waiting ?S x a \<or> x = ?r \<and> a |\<in>| N" for x a
    using new(2) by (auto simp: waiting_def n(1) fmdom_iff)
  then have "links_ok (bm_missing_ancestors ?bm') (bm_suspended_blocks ?bm')"
    using i(5) n(3) by (simp add: links_ok_def)
  moreover have "\<forall>a. a |\<in>| N \<longrightarrow> ref_author a \<in> members (ctx_committee ctx)"
    using N(2) ok(1) by (auto simp: block_ok_def ancestors_ok_def ancestor_entry_ok_def)
  then have "\<forall>a. a |\<in>| fmdom (bm_missing_ancestors ?bm') \<longrightarrow> a \<notin> dom (ds_blocks ds) \<and> ref_author a \<in> members (ctx_committee ctx)"
    using i(6) N(3) n(4) by auto
  moreover have "bm_missing_blocks ?bm' = fmdom (bm_missing_ancestors ?bm') |-| fmdom (bm_suspended_blocks ?bm')"
    using i(7) n(1,4,5) by auto
  moreover have "fset (fmdom (bm_suspended_blocks ?bm')) \<subseteq> U" using i(11) n(1) ok(3) by auto
  ultimately show ?thesis
    unfolding bm_inv_def using i(1,8-10) n(2) by simp
qed

lemma ready_to_settle:
  assumes inv: "bm_inv ctx G U bm ds" and inc: "incoming ctx G U b"
    and new: "vb_reference b \<notin> dom (ds_blocks ds)" "vb_reference b |\<notin>| fmdom (bm_suspended_blocks bm)"
    and cover: "\<forall>a \<in> set (vb_ancestors b). gc_round ctx ds < ref_round a \<longrightarrow> a \<in> dom (ds_blocks ds)"
  shows "settling ctx G U [b] (vb_reference b) (bm\<lparr> bm_missing_blocks := bm_missing_blocks bm |-| {|vb_reference b|} \<rparr>) ds"
proof -
  note i = bm_invD [OF inv]
  have ok: "block_ok (ctx_committee ctx) G (vb_block b)" "vb_round b < u32_max" "vb_reference b \<in> U" using inc by (auto simp: incoming_def)
  have "accepts (ctx_committee ctx) G (gc_round ctx ds) (dom (ds_blocks ds)) [b]"
    using ok new(1) cover by (simp add: acceptable_after_def)
  moreover have "susp_inv (ctx_committee ctx) G (gc_round ctx ds) (dom (ds_blocks ds) \<union> vb_reference ` set [b]) (bm_suspended_blocks bm)"
    using i(4) new(2) by (auto simp: susp_inv_def suspended_ok_def fmdom_iff)
  ultimately show ?thesis
    unfolding settling_def using i ok(3) by auto
qed

text \<open>The three outcomes for a received block.\<close>

lemma try_accept_one_block_cases:
  assumes inv: "bm_inv ctx G U bm ds" and inc: "incoming ctx G U b"
  obtains
    (processed) "try_accept_one_block ctx ds b bm = Some (Processed, bm)"
      "vb_reference b \<in> dom (ds_blocks ds) \<or> vb_reference b |\<in>| fmdom (bm_suspended_blocks bm)"
  | (skipped) "try_accept_one_block ctx ds b bm = Some (Skipped, bm)" "vb_round b \<le> gc_round ctx ds"
  | (suspended) N bm' where "try_accept_one_block ctx ds b bm = Some (Suspended N, bm')" "bm_inv ctx G U bm' ds"
      "fmdom (bm_suspended_blocks bm') = finsert (vb_reference b) (fmdom (bm_suspended_blocks bm))" "N |\<subseteq>| bm_missing_blocks bm'"
      "bm_missing_blocks bm |-| {|vb_reference b|} |\<subseteq>| bm_missing_blocks bm'" "fset N \<subseteq> set (vb_ancestors b)"
      "\<exists>a \<in> set (vb_ancestors b). gc_round ctx ds < ref_round a \<and> a \<notin> dom (ds_blocks ds)"
  | (accepted) bm' where "try_accept_one_block ctx ds b bm = Some (Accepted b, bm')" "settling ctx G U [b] (vb_reference b) bm' ds"
      "bm_missing_blocks bm' = bm_missing_blocks bm |-| {|vb_reference b|}" "bm_suspended_blocks bm' = bm_suspended_blocks bm"
proof -
  note i = bm_invD [OF inv]
  let ?r = "vb_reference b" and ?D = "dom (ds_blocks ds)" and ?gc = "gc_round ctx ds"
  have ok: "block_ok (ctx_committee ctx) G (vb_block b)" using inc by (simp add: incoming_def)
  then have author: "ref_author ?r \<in> members (ctx_committee ctx)" by (simp add: block_ok_def)
  have anc: "\<forall>a \<in> set (vb_ancestors b). ref_author a \<in> members (ctx_committee ctx) \<and> ref_round a < vb_round b \<and>
      (ref_round a = GENESIS_ROUND \<longrightarrow> a \<in> ?D)"
    using ok i(3) by (auto simp: block_ok_def ancestors_ok_def ancestor_entry_ok_def ds_blocks_def fmdom_iff)
  obtain au where au: "committee_authority (ctx_committee ctx) (vb_author b) = Some au" using incoming_author [OF inc] by blast
  let ?seen = "if ?r |\<in>| fmdom (bm_suspended_blocks bm) then Some True else contains_block ds ?r"
  have seen: "?seen = Some (?r |\<in>| fmdom (bm_suspended_blocks bm) \<or> ?r \<in> ?D)"
    using contains_block_eq [OF i(2) author] by (auto simp: domIff)
  define as where "as = filter (\<lambda>a. ref_round a = GENESIS_ROUND \<or> ?gc < ref_round a) (vb_ancestors b)"
  define present where "present = (\<lambda>a. ds_blocks ds a \<noteq> None)"
  define N where "N = fset_of_list (filter (\<lambda>a. \<not> present a) as)"
  have found: "contains_blocks ds as = Some (map present as)"
    using contains_blocks_eq [OF i(2)] anc by (simp add: as_def present_def)
  have mem: "\<forall>a \<in> set as. ref_author a \<in> members (ctx_committee ctx)" using anc by (simp add: as_def)
  obtain bm1 where 1: "for_each (note_ancestor ctx ?r) (zip (map present as) as) (bm, {||}, {||}) =
      Some (bm1, N, N |-| fmdom (bm_suspended_blocks bm))" "noted ?r N bm bm1"
    using note_ancestors [OF mem, of ?r present bm "{||}" "{||}"] unfolding N_def [symmetric] by auto
  have N: "fset N \<subseteq> set (vb_ancestors b)" "fset N \<inter> ?D = {}"
    "\<forall>a \<in> set (vb_ancestors b). ?gc < ref_round a \<longrightarrow> a \<in> ?D \<or> a |\<in>| N"
    by (auto simp: fset_of_list_elem N_def as_def present_def)
  have r_N: "?r |\<notin>| N" using N(1) anc by fastforce
  have above: "a \<in> set (vb_ancestors b) \<and> ?gc < ref_round a \<and> a \<notin> ?D" if "a |\<in>| N" for a
    using that anc by (auto simp: fset_of_list_elem N_def as_def present_def)
  note step = try_accept_one_block_def Let_def as_def [symmetric]
  consider "?r |\<in>| fmdom (bm_suspended_blocks bm) \<or> ?r \<in> ?D"
    | "?r |\<notin>| fmdom (bm_suspended_blocks bm)" "?r \<notin> ?D" "vb_round b \<le> ?gc"
    | "?r |\<notin>| fmdom (bm_suspended_blocks bm)" "?r \<notin> ?D" "\<not> vb_round b \<le> ?gc" "N = {||}"
    | "?r |\<notin>| fmdom (bm_suspended_blocks bm)" "?r \<notin> ?D" "\<not> vb_round b \<le> ?gc" "N \<noteq> {||}" by blast
  then show thesis
  proof cases
    case 1
    then show thesis using seen by (intro processed) (auto simp: try_accept_one_block_def Let_def)
  next
    case 2
    then show thesis using seen au by (intro skipped) (auto simp: try_accept_one_block_def Let_def)
  next
    case 3
    have bm1: "bm1 = bm" using 1(2) 3(4) unfolding noted_def by blast+
    have "try_accept_one_block ctx ds b bm = Some (Accepted b, bm\<lparr> bm_missing_blocks := bm_missing_blocks bm |-| {|?r|} \<rparr>)"
      unfolding step using 3 seen found 1(1) bm1 by simp
    from accepted [OF this ready_to_settle [OF inv inc 3(2,1)]] show thesis using 3(4) N(3) by auto
  next
    case 4
    note susp = suspend_inv [OF inv inc 4(2,1) 1(2) 4(4) N]
    have n: "bm_missing_blocks bm1 = bm_missing_blocks bm |\<union>| (N |-| fmdom (bm_suspended_blocks bm))"
      "bm_suspended_blocks bm1 = bm_suspended_blocks bm"
      using 1(2) unfolding noted_def by blast+
    have "try_accept_one_block ctx ds b bm = Some (Suspended (N |-| fmdom (bm_suspended_blocks bm)),
        bm1\<lparr> bm_missing_blocks := bm_missing_blocks bm1 |-| {|?r|},
          bm_suspended_blocks := fmupd ?r \<lparr> sus_block = b, sus_missing_ancestors = N \<rparr> (bm_suspended_blocks bm1) \<rparr>)"
      unfolding step using 4 seen found 1(1) au by simp
    moreover have "\<exists>a \<in> set (vb_ancestors b). ?gc < ref_round a \<and> a \<notin> ?D" using above 4(4) by (meson ex_fin_conv)
    ultimately show thesis using suspended [OF _ susp] r_N N(1) n by auto
  qed
qed

section \<open>Batches of received blocks\<close>

lemma received_metrics:
  assumes inv: "bm_inv ctx G U bm ds" and inc: "incoming ctx G U b"
  shows "\<exists>rounds. update_block_received_metrics ctx b bm = Some (bm\<lparr> bm_received_block_rounds := rounds \<rparr>) \<and>
     bm_inv ctx G U (bm\<lparr> bm_received_block_rounds := rounds \<rparr>) ds"
proof -
  have "vb_author b < length (bm_received_block_rounds bm)"
    using inc bm_invD(8) [OF inv] by (auto simp: incoming_def block_ok_def members_def)
  then show ?thesis
    using incoming_author [OF inc] inv
    by (auto simp: update_block_received_metrics_def vec_get_def vec_set_def bm_inv_def Let_def)
qed

lemma unsuspend_missing:
  "try_unsuspend_children_blocks ctx r bm = Some (freed, bm') \<Longrightarrow> bm_missing_blocks bm' = bm_missing_blocks bm"
  by (auto simp: try_unsuspend_children_blocks_def Option.bind_eq_Some_conv)

lemma unsuspend_authors:
  assumes "try_unsuspend_children_blocks ctx r bm = Some (freed, bm')"
  shows "traverse (\<lambda>b. committee_authority (ctx_committee ctx) (vb_author b)) freed \<noteq> None"
proof -
  have "\<exists>xs :: suspended_block list. traverse (\<lambda>s. committee_authority (ctx_committee ctx) (vb_author (sus_block s))) xs \<noteq> None \<and> freed = map sus_block xs"
    using assms by (clarsimp simp: try_unsuspend_children_blocks_def Option.bind_eq_Some_conv simp del: unsuspend_loop.simps) blast
  then show ?thesis by (auto simp: traverse_None_conv)
qed

text \<open>
  One step of the loop. \<open>new\<close> are the blocks it accepts: the received one and what waited for it.
\<close>

lemma accept_one_spec:
  assumes inv: "bm_inv ctx G U bm ds" and inc: "incoming ctx G U b"
  shows "\<exists>new N bm' ds'. accept_one ctx False b (acc, missing, bm, ds) = Some (acc @ new, missing |\<union>| N, bm', ds') \<and>
     bm_inv ctx G U bm' ds' \<and> dag_extends ctx ds new ds' \<and>
     bm_missing_blocks bm |-| {|vb_reference b|} |\<subseteq>| bm_missing_blocks bm' \<and>
     N |\<subseteq>| bm_missing_blocks bm' \<and> fset N \<subseteq> set (vb_ancestors b) \<and>
     (vb_reference b \<in> dom (ds_blocks ds') \<or> vb_reference b |\<in>| fmdom (bm_suspended_blocks bm') \<or> vb_round b \<le> gc_round ctx ds) \<and>
     fset (fmdom (bm_suspended_blocks bm)) \<subseteq> fset (fmdom (bm_suspended_blocks bm')) \<union> dom (ds_blocks ds') \<and>
     fmdom (bm_suspended_blocks bm') |\<subseteq>| finsert (vb_reference b) (fmdom (bm_suspended_blocks bm)) \<and>
     (vb_reference b |\<notin>| fmdom (bm_suspended_blocks bm) \<longrightarrow> gc_round ctx ds < vb_round b \<longrightarrow>
        (\<forall>a \<in> set (vb_ancestors b). gc_round ctx ds < ref_round a \<longrightarrow> a \<in> dom (ds_blocks ds)) \<longrightarrow> vb_reference b \<in> dom (ds_blocks ds'))"
proof -
  obtain rounds where m: "update_block_received_metrics ctx b bm = Some (bm\<lparr> bm_received_block_rounds := rounds \<rparr>)"
    and inv1: "bm_inv ctx G U (bm\<lparr> bm_received_block_rounds := rounds \<rparr>) ds" (is "bm_inv ctx G U ?bm ds")
    using received_metrics [OF inv inc] by blast
  from inv1 inc show ?thesis
  proof (cases rule: try_accept_one_block_cases)
    case processed
    then show ?thesis using m inv1
      by (intro exI [of _ "[]"] exI [of _ "{||}"] exI [of _ ?bm] exI [of _ ds]) (auto simp: accept_one_def)
  next
    case skipped
    then show ?thesis using m inv1
      by (intro exI [of _ "[]"] exI [of _ "{||}"] exI [of _ ?bm] exI [of _ ds]) (auto simp: accept_one_def)
  next
    case (suspended N bm')
    then show ?thesis using m
      by (intro exI [of _ "[]"] exI [of _ N] exI [of _ bm'] exI [of _ ds]) (auto simp: accept_one_def)
  next
    case (accepted bm1)
    obtain freed bm' ds' where s: "try_unsuspend_children_blocks ctx (vb_reference b) bm1 = Some (freed, bm')"
      "accept_blocks ctx ([b] @ freed) ds = Some ds'" "bm_inv ctx G U bm' ds'" "dag_extends ctx ds ([b] @ freed) ds'"
      "fmdom (bm_suspended_blocks bm') = fmdom (bm_suspended_blocks bm1) |-| fset_of_list (map vb_reference freed)"
      using settle [OF accepted(2)] by blast
    moreover have "accept_one ctx False b (acc, missing, bm, ds) = Some (acc @ [b] @ freed, missing |\<union>| {||}, bm', ds')"
      using m accepted(1) s(1,2) by (simp add: accept_one_def)
    moreover have "bm_missing_blocks bm' = bm_missing_blocks bm1" by (rule unsuspend_missing [OF s(1)])
    moreover have "vb_reference b \<in> dom (ds_blocks ds')" using s(4) by (simp add: dag_extends_def)
    moreover have "fset (fmdom (bm_suspended_blocks bm)) \<subseteq> fset (fmdom (bm_suspended_blocks bm')) \<union> dom (ds_blocks ds')"
      using s(4,5) accepted(4) by (auto simp: dag_extends_def fset_of_list_elem)
    moreover have "fmdom (bm_suspended_blocks bm') |\<subseteq>| finsert (vb_reference b) (fmdom (bm_suspended_blocks bm))"
      using s(5) accepted(4) by auto
    ultimately show ?thesis using accepted(3)
      by (intro exI [of _ "[b] @ freed"] exI [of _ "{||}"] exI [of _ bm'] exI [of _ ds']) simp
  qed
qed

text \<open>
  A batch. Blocks arrive sorted by round, so what is reported as missing is not part of the batch.
\<close>

lemma accept_batch:
  assumes "bm_inv ctx G U bm ds" and "\<forall>b \<in> set bs. incoming ctx G U b" and "sorted (map vb_round bs)"
    and "missing |\<subseteq>| bm_missing_blocks bm" and "\<forall>b \<in> set bs. \<forall>m. m |\<in>| missing \<longrightarrow> ref_round m < vb_round b"
  shows "\<exists>new missing' bm' ds'. for_each (accept_one ctx False) bs (acc, missing, bm, ds) = Some (acc @ new, missing', bm', ds') \<and>
     bm_inv ctx G U bm' ds' \<and> dag_extends ctx ds new ds' \<and> missing' |\<subseteq>| bm_missing_blocks bm' \<and>
     (\<forall>b \<in> set bs. vb_reference b \<in> dom (ds_blocks ds') \<or> vb_reference b |\<in>| fmdom (bm_suspended_blocks bm') \<or>
        vb_round b \<le> gc_round ctx ds) \<and>
     fset (fmdom (bm_suspended_blocks bm)) \<subseteq> fset (fmdom (bm_suspended_blocks bm')) \<union> dom (ds_blocks ds')"
  using assms
proof (induction bs arbitrary: bm ds missing acc)
  case Nil
  then show ?case
    by (intro exI [of _ "[]"] exI [of _ missing] exI [of _ bm] exI [of _ ds]) (auto simp: dag_extends_def)
next
  case (Cons b bs)
  have inc: "incoming ctx G U b" using Cons.prems(2) by simp
  obtain new1 N bm1 ds1 where 1: "accept_one ctx False b (acc, missing, bm, ds) = Some (acc @ new1, missing |\<union>| N, bm1, ds1)"
     "bm_inv ctx G U bm1 ds1" "dag_extends ctx ds new1 ds1"
     "bm_missing_blocks bm |-| {|vb_reference b|} |\<subseteq>| bm_missing_blocks bm1"
     "N |\<subseteq>| bm_missing_blocks bm1" "fset N \<subseteq> set (vb_ancestors b)"
     "vb_reference b \<in> dom (ds_blocks ds1) \<or> vb_reference b |\<in>| fmdom (bm_suspended_blocks bm1) \<or> vb_round b \<le> gc_round ctx ds"
     "fset (fmdom (bm_suspended_blocks bm)) \<subseteq> fset (fmdom (bm_suspended_blocks bm1)) \<union> dom (ds_blocks ds1)"
    using accept_one_spec [OF Cons.prems(1) inc, of acc missing] by (elim exE conjE) (rule that; assumption)
  have anc: "\<forall>a \<in> set (vb_ancestors b). ref_round a < vb_round b"
    using inc by (auto simp: incoming_def block_ok_def ancestors_ok_def ancestor_entry_ok_def)
  have m1: "missing |\<union>| N |\<subseteq>| bm_missing_blocks bm1" using Cons.prems(4,5) 1(4,5) by fastforce
  have m2: "\<forall>c \<in> set bs. \<forall>m. m |\<in>| missing |\<union>| N \<longrightarrow> ref_round m < vb_round c"
    using Cons.prems(3,5) 1(6) anc by fastforce
  have bs: "\<forall>c \<in> set bs. incoming ctx G U c" "sorted (map vb_round bs)" using Cons.prems(2,3) by simp_all
  obtain new2 missing' bm2 ds2 where 2:
     "for_each (accept_one ctx False) bs (acc @ new1, missing |\<union>| N, bm1, ds1) = Some ((acc @ new1) @ new2, missing', bm2, ds2)"
     "bm_inv ctx G U bm2 ds2" "dag_extends ctx ds1 new2 ds2" "missing' |\<subseteq>| bm_missing_blocks bm2"
     "\<forall>c \<in> set bs. vb_reference c \<in> dom (ds_blocks ds2) \<or> vb_reference c |\<in>| fmdom (bm_suspended_blocks bm2) \<or>
        vb_round c \<le> gc_round ctx ds1"
     "fset (fmdom (bm_suspended_blocks bm1)) \<subseteq> fset (fmdom (bm_suspended_blocks bm2)) \<union> dom (ds_blocks ds2)"
    using Cons.IH [OF 1(2) bs m1 m2, of "acc @ new1"] by blast
  have mono: "dom (ds_blocks ds1) \<subseteq> dom (ds_blocks ds2)" using 2(3) by (auto simp: dag_extends_def)
  have "for_each (accept_one ctx False) (b # bs) (acc, missing, bm, ds) = Some (acc @ new1 @ new2, missing', bm2, ds2)"
    using 1(1) 2(1) by simp
  moreover have "\<forall>c \<in> set (b # bs). vb_reference c \<in> dom (ds_blocks ds2) \<or> vb_reference c |\<in>| fmdom (bm_suspended_blocks bm2) \<or>
        vb_round c \<le> gc_round ctx ds"
    using 1(7) 2(5,6) mono unfolding dag_extends_gc [OF 1(3)] list.set ball_simps by blast
  moreover have "fset (fmdom (bm_suspended_blocks bm)) \<subseteq> fset (fmdom (bm_suspended_blocks bm2)) \<union> dom (ds_blocks ds2)"
    using 1(8) 2(6) mono by blast
  ultimately show ?case using 2(2,4) dag_extends_trans [OF 1(3) 2(3)] by blast
qed

lemma try_accept_blocks_spec:
  assumes "bm_inv ctx G U bm ds" and "\<forall>b \<in> set bs. incoming ctx G U b"
  shows "\<exists>accepted missing bm' ds'. try_accept_blocks ctx bs (bm, ds) = Some (accepted, missing, bm', ds') \<and>
     bm_inv ctx G U bm' ds' \<and> dag_extends ctx ds accepted ds' \<and> missing |\<subseteq>| bm_missing_blocks bm' \<and>
     (\<forall>b \<in> set bs. vb_reference b \<in> dom (ds_blocks ds') \<or> vb_reference b |\<in>| fmdom (bm_suspended_blocks bm') \<or>
        vb_round b \<le> gc_round ctx ds) \<and>
     fset (fmdom (bm_suspended_blocks bm)) \<subseteq> fset (fmdom (bm_suspended_blocks bm')) \<union> dom (ds_blocks ds')"
  using accept_batch [OF assms(1), of "sort_key vb_round bs" "{||}" "[]"] assms(2)
  by (simp add: try_accept_blocks_def try_accept_blocks_internal_def)

text \<open>A batch with its whole history is accepted at once.\<close>

lemma accept_closed_batch:
  assumes "bm_inv ctx G U bm ds" and "\<forall>b \<in> set bs. incoming ctx G U b" and "sorted (map vb_round bs)"
    and "\<forall>b \<in> set bs. \<forall>a \<in> set (vb_ancestors b). gc_round ctx ds < ref_round a \<longrightarrow> a \<in> dom (ds_blocks ds) \<union> vb_reference ` set bs"
    and "\<forall>b \<in> set bs. gc_round ctx ds < vb_round b \<and> vb_reference b |\<notin>| fmdom (bm_suspended_blocks bm)"
    and "for_each (accept_one ctx False) bs (acc, missing, bm, ds) = Some (acc', missing', bm', ds')"
  shows "vb_reference ` set bs \<subseteq> dom (ds_blocks ds') \<and> dom (ds_blocks ds) \<subseteq> dom (ds_blocks ds')"
  using assms
proof (induction bs arbitrary: bm ds acc missing)
  case (Cons b bs)
  have inc: "incoming ctx G U b" using Cons.prems(2) by simp
  have "\<forall>a \<in> set (vb_ancestors b). ref_round a < vb_round b"
    using inc by (auto simp: incoming_def block_ok_def ancestors_ok_def ancestor_entry_ok_def)
  moreover have "\<forall>c \<in> set (b # bs). vb_round b \<le> vb_round c" using Cons.prems(3) by simp
  ultimately have "\<forall>a \<in> set (vb_ancestors b). a \<notin> vb_reference ` set (b # bs)" by (auto simp: not_le [symmetric])
  then have anc: "\<forall>a \<in> set (vb_ancestors b). gc_round ctx ds < ref_round a \<longrightarrow> a \<in> dom (ds_blocks ds)"
    using Cons.prems(4) by (meson UnE list.set_intros(1))
  obtain new N bm1 ds1 where 1: "accept_one ctx False b (acc, missing, bm, ds) = Some (acc @ new, missing |\<union>| N, bm1, ds1)"
    "bm_inv ctx G U bm1 ds1" "dag_extends ctx ds new ds1"
    "fmdom (bm_suspended_blocks bm1) |\<subseteq>| finsert (vb_reference b) (fmdom (bm_suspended_blocks bm))"
    "vb_reference b \<in> dom (ds_blocks ds1)"
    using accept_one_spec [OF Cons.prems(1) inc, of acc missing] Cons.prems(5) anc
    by (elim exE conjE) (rule that; simp)
  have mono: "dom (ds_blocks ds) \<subseteq> dom (ds_blocks ds1)" using 1(3) by (auto simp: dag_extends_def)
  then have sub: "dom (ds_blocks ds) \<union> vb_reference ` set (b # bs) \<subseteq> dom (ds_blocks ds1) \<union> vb_reference ` set bs" using 1(5) by auto
  have closed: "\<forall>c \<in> set bs. \<forall>a \<in> set (vb_ancestors c). gc_round ctx ds1 < ref_round a \<longrightarrow> a \<in> dom (ds_blocks ds1) \<union> vb_reference ` set bs"
    using Cons.prems(4) sub unfolding dag_extends_gc [OF 1(3)] by (meson list.set_intros(2) subsetD)
  have free: "vb_reference b |\<notin>| fmdom (bm_suspended_blocks bm1)"
    using bm_invD(4) [OF 1(2)] 1(5) unfolding susp_inv_def suspended_ok_def by (meson fmdomE)
  have fresh: "\<forall>c \<in> set bs. gc_round ctx ds1 < vb_round c \<and> vb_reference c |\<notin>| fmdom (bm_suspended_blocks bm1)"
    using Cons.prems(5) 1(4) free unfolding dag_extends_gc [OF 1(3)] by auto
  have bs: "\<forall>c \<in> set bs. incoming ctx G U c" "sorted (map vb_round bs)" using Cons.prems(2,3) by simp_all
  have "for_each (accept_one ctx False) bs (acc @ new, missing |\<union>| N, bm1, ds1) = Some (acc', missing', bm', ds')"
    using Cons.prems(6) 1(1) by simp
  note ih = Cons.IH [OF 1(2) bs closed fresh this]
  have "vb_reference b \<in> dom (ds_blocks ds')" by (rule subsetD [OF conjunct2 [OF ih] 1(5)])
  then show ?case using ih mono by (simp only: list.set image_insert insert_subset) (meson order_trans)
qed simp

section \<open>Looking for blocks\<close>

lemma find_one_inv:
  assumes inv: "bm_inv ctx G U bm ds" and a: "ref_author r \<in> members (ctx_committee ctx)" and f: "found \<longleftrightarrow> r \<in> dom (ds_blocks ds)"
  shows "\<exists>bm'. find_one ctx (found, r) (missing, bm) =
      Some (if found \<or> r |\<in>| fmdom (bm_suspended_blocks bm) then missing else finsert r missing, bm') \<and> bm_inv ctx G U bm' ds \<and>
     bm_suspended_blocks bm' = bm_suspended_blocks bm \<and>
     bm_missing_blocks bm' = (if found \<or> r |\<in>| fmdom (bm_suspended_blocks bm) then bm_missing_blocks bm else finsert r (bm_missing_blocks bm))"
proof (cases "found \<or> r |\<in>| fmdom (bm_suspended_blocks bm) \<or> r |\<in>| bm_missing_blocks bm")
  case True
  then show ?thesis using inv by (auto simp: find_one_def)
next
  case False
  note i = bm_invD [OF inv]
  let ?bm = "bm\<lparr> bm_missing_blocks := finsert r (bm_missing_blocks bm),
     bm_missing_ancestors := fmupd r (entry_set (bm_missing_ancestors bm) r) (bm_missing_ancestors bm) \<rparr>"
  obtain au where au: "committee_authority (ctx_committee ctx) (ref_author r) = Some au"
    using a by (auto simp: committee_authority_def members_def committee_size_def vec_get_def)
  have "registered (bm_missing_ancestors ?bm) x y \<longleftrightarrow> registered (bm_missing_ancestors bm) x y" for x y
    by (auto simp: registered_def entry_set_def split: option.splits)
  then have "links_ok (bm_missing_ancestors ?bm) (bm_suspended_blocks ?bm)" using i(5) by (simp add: links_ok_def)
  moreover have "bm_missing_blocks ?bm = fmdom (bm_missing_ancestors ?bm) |-| fmdom (bm_suspended_blocks ?bm)"
    using i(7) False by auto
  ultimately have "bm_inv ctx G U ?bm ds"
    unfolding bm_inv_def using i a f False by simp
  then show ?thesis using False au by (auto simp: find_one_def)
qed

lemma find_all_inv:
  assumes "bm_inv ctx G U bm ds" and "\<forall>r \<in> set refs. ref_author r \<in> members (ctx_committee ctx)"
    and "missing |\<subseteq>| bm_missing_blocks bm"
  shows "\<exists>missing' bm'. for_each (find_one ctx) (zip (map (\<lambda>r. ds_blocks ds r \<noteq> None) refs) refs) (missing, bm) = Some (missing', bm') \<and>
     bm_inv ctx G U bm' ds \<and> bm_suspended_blocks bm' = bm_suspended_blocks bm \<and> missing' |\<subseteq>| bm_missing_blocks bm' \<and>
     missing' = missing |\<union>| fset_of_list (filter (\<lambda>r. r \<notin> dom (ds_blocks ds) \<and> r |\<notin>| fmdom (bm_suspended_blocks bm)) refs)"
  using assms
proof (induction refs arbitrary: missing bm)
  case Nil
  then show ?case by auto
next
  case (Cons r refs)
  let ?f = "ds_blocks ds r \<noteq> None \<or> r |\<in>| fmdom (bm_suspended_blocks bm)"
  have found: "ds_blocks ds r \<noteq> None \<longleftrightarrow> r \<in> dom (ds_blocks ds)" by (simp add: domIff)
  obtain bm1 where 1: "find_one ctx (ds_blocks ds r \<noteq> None, r) (missing, bm) = Some (if ?f then missing else finsert r missing, bm1)"
    "bm_inv ctx G U bm1 ds" "bm_suspended_blocks bm1 = bm_suspended_blocks bm"
    "bm_missing_blocks bm1 = (if ?f then bm_missing_blocks bm else finsert r (bm_missing_blocks bm))"
    using find_one_inv [OF Cons.prems(1) _ found, of missing] Cons.prems(2) by auto
  have "(if ?f then missing else finsert r missing) |\<subseteq>| bm_missing_blocks bm1" using Cons.prems(3) 1(4) by auto
  from Cons.IH [OF 1(2) _ this] Cons.prems(2)
  obtain missing' bm2 where 2: "for_each (find_one ctx) (zip (map (\<lambda>r. ds_blocks ds r \<noteq> None) refs) refs)
      (if ?f then missing else finsert r missing, bm1) = Some (missing', bm2)"
    "bm_inv ctx G U bm2 ds" "bm_suspended_blocks bm2 = bm_suspended_blocks bm1" "missing' |\<subseteq>| bm_missing_blocks bm2"
    "missing' = (if ?f then missing else finsert r missing) |\<union>|
       fset_of_list (filter (\<lambda>r. r \<notin> dom (ds_blocks ds) \<and> r |\<notin>| fmdom (bm_suspended_blocks bm1)) refs)" by auto
  have "missing' = missing |\<union>| fset_of_list (filter (\<lambda>r. r \<notin> dom (ds_blocks ds) \<and> r |\<notin>| fmdom (bm_suspended_blocks bm)) (r # refs))"
    using 2(5) unfolding 1(3) by (auto simp: domIff)
  moreover have "for_each (find_one ctx) (zip (map (\<lambda>r. ds_blocks ds r \<noteq> None) (r # refs)) (r # refs)) (missing, bm) = Some (missing', bm2)"
    using 1(1) 2(1) by simp
  ultimately show ?case using 2(2-4) 1(3) by auto
qed

lemma try_find_blocks_spec:
  assumes inv: "bm_inv ctx G U bm ds" and refs: "\<forall>r \<in> set refs. ref_author r \<in> members (ctx_committee ctx)"
  shows "\<exists>missing bm'. try_find_blocks ctx ds refs bm = Some (missing, bm') \<and> bm_inv ctx G U bm' ds \<and>
     bm_suspended_blocks bm' = bm_suspended_blocks bm \<and> missing |\<subseteq>| bm_missing_blocks bm' \<and>
     fset missing = {r \<in> set refs. gc_round ctx ds < ref_round r \<and> r \<notin> dom (ds_blocks ds) \<and> r |\<notin>| fmdom (bm_suspended_blocks bm)}"
proof (cases "filter (\<lambda>r. gc_round ctx ds < ref_round r) refs = []")
  case True
  then show ?thesis using inv by (auto simp: try_find_blocks_def filter_empty_conv)
next
  case False
  let ?rs = "sort_key ref_round (filter (\<lambda>r. gc_round ctx ds < ref_round r) refs)"
  have rs: "\<forall>r \<in> set ?rs. ref_author r \<in> members (ctx_committee ctx)" using refs by simp
  obtain missing bm' where "for_each (find_one ctx) (zip (map (\<lambda>r. ds_blocks ds r \<noteq> None) ?rs) ?rs) ({||}, bm) = Some (missing, bm')"
     "bm_inv ctx G U bm' ds" "bm_suspended_blocks bm' = bm_suspended_blocks bm" "missing |\<subseteq>| bm_missing_blocks bm'"
     "missing = fset_of_list (filter (\<lambda>r. r \<notin> dom (ds_blocks ds) \<and> r |\<notin>| fmdom (bm_suspended_blocks bm)) ?rs)"
    using find_all_inv [OF inv rs, of "{||}"] by auto
  moreover have "contains_blocks ds ?rs = Some (map (\<lambda>r. ds_blocks ds r \<noteq> None) ?rs)"
    by (rule contains_blocks_eq [OF bm_invD(2) [OF inv] rs])
  ultimately show ?thesis
    using False by (auto simp: try_find_blocks_def Let_def fset_of_list.rep_eq)
qed

section \<open>Garbage collection\<close>

lemma first_missing_not_suspended:
  assumes inv: "bm_inv ctx G U bm ds" and first: "btree_first (fmdom (bm_missing_ancestors bm)) = Some r"
  shows "r |\<notin>| fmdom (bm_suspended_blocks bm)"
proof
  assume "r |\<in>| fmdom (bm_suspended_blocks bm)"
  then obtain s where s: "fmlookup (bm_suspended_blocks bm) r = Some s" by (auto simp: fmdom_iff)
  then have ok: "suspended_ok (ctx_committee ctx) G (gc_round ctx ds) (dom (ds_blocks ds)) r s" "sus_missing_ancestors s \<noteq> {||}"
    using bm_invD(4) [OF inv] by (auto simp: susp_inv_def)
  then obtain a where a: "a |\<in>| sus_missing_ancestors s" by auto
  then have "registered (bm_missing_ancestors bm) r a"
    using s bm_invD(5) [OF inv] by (auto simp: links_ok_def waiting_def)
  then have "r \<le> a" using btree_first_Some [OF first] by (auto simp: registered_def fmdom_iff)
  moreover have "ref_round a < ref_round r"
    using ok(1) a by (auto simp: suspended_ok_def block_ok_def ancestors_ok_def ancestor_entry_ok_def)
  ultimately show False using block_ref_less_round by fastforce
qed

lemma gc_settling:
  assumes inv: "bm_inv ctx G U bm ds" and r: "r |\<in>| fmdom (bm_missing_ancestors bm)" "ref_round r \<le> gc_round ctx ds"
  shows "settling ctx G U [] r (bm\<lparr> bm_missing_blocks := bm_missing_blocks bm |-| {|r|} \<rparr>) ds"
  using bm_invD [OF inv] r unfolding settling_def by auto

lemma gc_loop_spec:
  assumes "bm_inv ctx G U bm ds"
  shows "\<exists>new bm' ds'. unsuspend_gc_loop ctx (gc_round ctx ds) bm ds = Some (bm', ds') \<and> bm_inv ctx G U bm' ds' \<and>
     dag_extends ctx ds new ds' \<and> (\<forall>a. a |\<in>| fmdom (bm_missing_ancestors bm') \<longrightarrow> gc_round ctx ds < ref_round a)"
  using assms
proof (induction "fcard (fmdom (bm_missing_ancestors bm))" arbitrary: bm ds rule: less_induct)
  case less
  let ?gc = "gc_round ctx ds"
  show ?case
  proof (cases "btree_first (fmdom (bm_missing_ancestors bm))")
    case None
    then show ?thesis
      using less.prems by (intro exI [of _ "[]"] exI [of _ bm] exI [of _ ds]) (auto simp: unsuspend_gc_loop.simps dag_extends_def)
  next
    case (Some r)
    note first = btree_first_Some [OF Some]
    show ?thesis
    proof (cases "?gc < ref_round r")
      case True
      have "?gc < ref_round a" if "a |\<in>| fmdom (bm_missing_ancestors bm)" for a
        using first that True block_ref_le_round by (meson order.strict_trans2)
      then show ?thesis using Some True less.prems
        by (intro exI [of _ "[]"] exI [of _ bm] exI [of _ ds]) (auto simp: unsuspend_gc_loop.simps dag_extends_def)
    next
      case False
      let ?bm = "bm\<lparr> bm_missing_blocks := bm_missing_blocks bm |-| {|r|} \<rparr>"
      have "settling ctx G U [] r ?bm ds" using gc_settling [OF less.prems] first False by simp
      from settle [OF this] obtain freed bm1 ds1 where s: "try_unsuspend_children_blocks ctx r ?bm = Some (freed, bm1)"
        "accept_blocks ctx freed ds = Some ds1" "bm_inv ctx G U bm1 ds1" "dag_extends ctx ds freed ds1"
        "fmdom (bm_missing_ancestors bm1) = fmdom (bm_missing_ancestors bm) |-| fset_of_list (r # map vb_reference freed)" by auto
      have "fmdom (bm_missing_ancestors bm1) |\<subset>| fmdom (bm_missing_ancestors bm)" unfolding s(5) using first by auto
      then have "fcard (fmdom (bm_missing_ancestors bm1)) < fcard (fmdom (bm_missing_ancestors bm))" by (rule pfsubset_fcard_mono)
      from less.hyps [OF this s(3)] obtain new bm2 ds2 where 2:
        "unsuspend_gc_loop ctx ?gc bm1 ds1 = Some (bm2, ds2)" "bm_inv ctx G U bm2 ds2" "dag_extends ctx ds1 new ds2"
        "\<forall>a. a |\<in>| fmdom (bm_missing_ancestors bm2) \<longrightarrow> ?gc < ref_round a" unfolding dag_extends_gc [OF s(4)] by blast
      have "traverse (\<lambda>b. committee_authority (ctx_committee ctx) (vb_author b)) freed \<noteq> None"
        by (rule unsuspend_authors [OF s(1)])
      moreover have "\<exists>au. committee_authority (ctx_committee ctx) (ref_author r) = Some au"
        using bm_invD(6) [OF less.prems] first by (auto simp: committee_authority_def members_def committee_size_def vec_get_def)
      ultimately have "unsuspend_gc_loop ctx ?gc bm ds = Some (bm2, ds2)"
        using Some False first_missing_not_suspended [OF less.prems Some] s(1,2) 2(1)
        by (subst unsuspend_gc_loop.simps) auto
      then show ?thesis using 2(2,4) dag_extends_trans [OF s(4) 2(3)] by blast
    qed
  qed
qed

section \<open>Committed blocks\<close>

lemma forget_child_step:
  "registered (forget_child r y M) x a \<longleftrightarrow> registered M x a \<and> \<not> (x = r \<and> a = y)" "fmdom (forget_child r y M) = fmdom M"
  by (auto simp: forget_child_def registered_def fmdom_iff split: option.splits)

lemma forget_children:
  "fmdom (fold (forget_child r) as M) = fmdom M \<and>
     (\<forall>x a. registered (fold (forget_child r) as M) x a \<longleftrightarrow> registered M x a \<and> \<not> (x = r \<and> a \<in> set as))"
  by (induction as arbitrary: M) (auto simp: forget_child_step)

text \<open>The manager after a committed block left the suspended ones.\<close>

definition released :: "block_ref \<Rightarrow> block_manager \<Rightarrow> block_manager" where
  "released r bm =
     (let bm1 = bm\<lparr> bm_missing_blocks := bm_missing_blocks bm |-| {|r|} \<rparr> in
      case fmlookup (bm_suspended_blocks bm1) r of
        None \<Rightarrow> bm1
      | Some s \<Rightarrow> bm1\<lparr> bm_suspended_blocks := fmdrop r (bm_suspended_blocks bm1),
          bm_missing_ancestors := fold (forget_child r) (btree_iter (sus_missing_ancestors s)) (bm_missing_ancestors bm1) \<rparr>)"

lemma released_fields:
  assumes links: "links_ok (bm_missing_ancestors bm) (bm_suspended_blocks bm)"
  shows "bm_suspended_blocks (released r bm) = fmdrop r (bm_suspended_blocks bm)"
    "fmdom (bm_missing_ancestors (released r bm)) = fmdom (bm_missing_ancestors bm)"
    "links_ok (bm_missing_ancestors (released r bm)) (bm_suspended_blocks (released r bm))"
    "bm_missing_blocks (released r bm) = bm_missing_blocks bm |-| {|r|}"
    "bm_received_block_rounds (released r bm) = bm_received_block_rounds bm"
proof -
  show S: "bm_suspended_blocks (released r bm) = fmdrop r (bm_suspended_blocks bm)"
    by (auto simp: released_def Let_def fmdrop_idle' split: option.splits intro: fmap_ext)
  show "fmdom (bm_missing_ancestors (released r bm)) = fmdom (bm_missing_ancestors bm)"
    "bm_missing_blocks (released r bm) = bm_missing_blocks bm |-| {|r|}"
    "bm_received_block_rounds (released r bm) = bm_received_block_rounds bm"
    by (simp_all add: released_def Let_def forget_children split: option.splits)
  have reg: "registered (bm_missing_ancestors (released r bm)) x a \<longleftrightarrow> registered (bm_missing_ancestors bm) x a \<and> x \<noteq> r" for x a
  proof (cases "fmlookup (bm_suspended_blocks bm) r")
    case None
    then show ?thesis
      using unregistered [OF links, of r a] by (auto simp: released_def fmdom_iff)
  next
    case (Some s)
    have "registered (bm_missing_ancestors bm) r a \<longrightarrow> a |\<in>| sus_missing_ancestors s"
      using links Some unfolding links_ok_def waiting_def by (metis option.inject)
    then show ?thesis using Some by (auto simp: released_def forget_children set_btree_iter)
  qed
  have "waiting (fmdrop r (bm_suspended_blocks bm)) x a \<longleftrightarrow> waiting (bm_suspended_blocks bm) x a \<and> x \<noteq> r" for x a
    by (auto simp: waiting_def)
  then show "links_ok (bm_missing_ancestors (released r bm)) (bm_suspended_blocks (released r bm))"
    using links reg unfolding links_ok_def S by blast
qed

lemma committed_settling:
  assumes inv: "bm_inv ctx G U bm ds" and dag: "dag_inv ctx G ds'" "dag_extends ctx ds [b] ds'" and U: "vb_reference b \<in> U"
  shows "settling ctx G U [] (vb_reference b) (released (vb_reference b) bm) ds'"
proof -
  note i = bm_invD [OF inv]
  let ?r = "vb_reference b"
  note f = released_fields [OF i(5), of ?r]
  have D: "dom (ds_blocks ds') = insert ?r (dom (ds_blocks ds))" using dag(2) by (auto simp: dag_extends_def)
  have "susp_inv (ctx_committee ctx) G (gc_round ctx ds') (dom (ds_blocks ds')) (bm_suspended_blocks (released ?r bm))"
    using i(4) unfolding f(1) D dag_extends_gc [OF dag(2)] by (auto simp: susp_inv_def suspended_ok_def split: if_splits)
  moreover have "bm_missing_blocks (released ?r bm) =
      fmdom (bm_missing_ancestors (released ?r bm)) |-| fmdom (bm_suspended_blocks (released ?r bm)) |-| {|?r|}"
    unfolding f i(7) by auto
  moreover have "\<forall>a. a |\<in>| fmdom (bm_missing_ancestors (released ?r bm)) \<longrightarrow> a \<in> dom (ds_blocks ds') \<longrightarrow> a = ?r"
    "\<forall>a. a |\<in>| fmdom (bm_missing_ancestors (released ?r bm)) \<longrightarrow> ref_author a \<in> members (ctx_committee ctx)"
    unfolding f(2) D using i(6) by blast+
  moreover have "dom (ds_blocks ds') \<subseteq> U" "fset (fmdom (bm_suspended_blocks (released ?r bm))) \<subseteq> U"
    using i(10,11) D U f(1) by auto
  moreover have "?r \<in> dom (ds_blocks ds')" using D by simp
  ultimately show ?thesis
    unfolding settling_def using dag(1) f(3,5) i(8,9) by simp
qed

lemma accept_one_committed_spec:
  assumes inv: "bm_inv ctx G U bm ds" and inc: "incoming ctx G U b"
    and anc: "\<forall>a \<in> set (vb_ancestors b). gc_round ctx ds < ref_round a \<longrightarrow> a \<in> dom (ds_blocks ds)"
  shows "\<exists>new bm' ds'. accept_one ctx True b (acc, missing, bm, ds) = Some (acc @ new, missing, bm', ds') \<and>
     bm_inv ctx G U bm' ds' \<and> dag_extends ctx ds new ds' \<and> vb_reference b \<in> dom (ds_blocks ds')"
proof -
  let ?r = "vb_reference b"
  obtain rounds where m: "update_block_received_metrics ctx b bm = Some (bm\<lparr> bm_received_block_rounds := rounds \<rparr>)"
    and inv1: "bm_inv ctx G U (bm\<lparr> bm_received_block_rounds := rounds \<rparr>) ds" (is "bm_inv ctx G U ?bm ds")
    using received_metrics [OF inv inc] by blast
  note i = bm_invD [OF inv1]
  have ok: "block_ok (ctx_committee ctx) G (vb_block b)" "vb_round b < u32_max" "?r \<in> U" using inc by (auto simp: incoming_def)
  have has: "contains_block ds ?r = Some (?r \<in> dom (ds_blocks ds))"
    using contains_block_eq [OF i(2), of ?r] ok(1) by (auto simp: block_ok_def domIff)
  show ?thesis
  proof (cases "?r \<in> dom (ds_blocks ds)")
    case True
    then have "accept_one ctx True b (acc, missing, bm, ds) = Some (acc @ [], missing, ?bm, ds)"
      using m has by (simp add: accept_one_def try_accept_one_committed_block_def)
    then show ?thesis using inv1 True dag_extends_refl by blast
  next
    case False
    have "acceptable_after (ctx_committee ctx) G (gc_round ctx ds) (dom (ds_blocks ds)) b"
      using ok anc False by (simp add: acceptable_after_def)
    then obtain ds1 where 1: "accept_block ctx b ds = Some ds1" "dag_inv ctx G ds1" "dag_extends ctx ds [b] ds1"
      using accept_next [OF i(1) _ i(9,10) ok(3)] by blast
    obtain freed bm' ds' where s: "try_unsuspend_children_blocks ctx ?r (released ?r ?bm) = Some (freed, bm')"
      "accept_blocks ctx ([] @ freed) ds1 = Some ds'" "bm_inv ctx G U bm' ds'" "dag_extends ctx ds1 ([] @ freed) ds'"
      using settle [OF committed_settling [OF inv1 1(2,3) ok(3)]] by blast
    have "try_accept_one_committed_block ctx b (?bm, ds) = Some (Accepted b, released ?r ?bm, ds1)"
      using has False 1(1) by (simp add: try_accept_one_committed_block_def released_def accept_blocks_def Let_def)
    then have "accept_one ctx True b (acc, missing, bm, ds) = Some (acc @ [b] @ freed, missing, bm', ds')"
      using m s(1,2) by (simp add: accept_one_def)
    moreover have "dag_extends ctx ds ([b] @ freed) ds'" using dag_extends_trans [OF 1(3)] s(4) by simp
    moreover from this have "?r \<in> dom (ds_blocks ds')" by (simp add: dag_extends_def)
    ultimately show ?thesis using s(3) by blast
  qed
qed

lemma accept_committed_batch:
  assumes "bm_inv ctx G U bm ds" and "\<forall>b \<in> set bs. incoming ctx G U b" and "sorted (map vb_round bs)"
    and "\<forall>b \<in> set bs. \<forall>a \<in> set (vb_ancestors b). gc_round ctx ds < ref_round a \<longrightarrow>
      a \<in> dom (ds_blocks ds) \<union> vb_reference ` set bs"
  shows "\<exists>new bm' ds'. for_each (accept_one ctx True) bs (acc, missing, bm, ds) = Some (acc @ new, missing, bm', ds') \<and>
     bm_inv ctx G U bm' ds' \<and> dag_extends ctx ds new ds' \<and> vb_reference ` set bs \<subseteq> dom (ds_blocks ds')"
  using assms
proof (induction bs arbitrary: bm ds acc)
  case Nil
  then show ?case by (intro exI [of _ "[]"] exI [of _ bm] exI [of _ ds]) (auto simp: dag_extends_def)
next
  case (Cons b bs)
  have inc: "incoming ctx G U b" using Cons.prems(2) by simp
  have low: "\<forall>c \<in> set (b # bs). vb_round b \<le> vb_round c" using Cons.prems(3) by simp
  have "\<forall>a \<in> set (vb_ancestors b). ref_round a < vb_round b"
    using inc by (auto simp: incoming_def block_ok_def ancestors_ok_def ancestor_entry_ok_def)
  then have "\<forall>a \<in> set (vb_ancestors b). a \<notin> vb_reference ` set (b # bs)" using low by (auto simp: not_le [symmetric])
  then have "\<forall>a \<in> set (vb_ancestors b). gc_round ctx ds < ref_round a \<longrightarrow> a \<in> dom (ds_blocks ds)"
    using Cons.prems(4) by (meson UnE list.set_intros(1))
  from accept_one_committed_spec [OF Cons.prems(1) inc this, of acc missing]
  obtain new1 bm1 ds1 where 1: "accept_one ctx True b (acc, missing, bm, ds) = Some (acc @ new1, missing, bm1, ds1)"
     "bm_inv ctx G U bm1 ds1" "dag_extends ctx ds new1 ds1" "vb_reference b \<in> dom (ds_blocks ds1)" by blast
  have mono: "dom (ds_blocks ds) \<subseteq> dom (ds_blocks ds1)" using 1(3) by (auto simp: dag_extends_def)
  then have sub: "dom (ds_blocks ds) \<union> vb_reference ` set (b # bs) \<subseteq> dom (ds_blocks ds1) \<union> vb_reference ` set bs" using 1(4) by auto
  have anc: "\<forall>c \<in> set bs. \<forall>a \<in> set (vb_ancestors c). gc_round ctx ds1 < ref_round a \<longrightarrow> a \<in> dom (ds_blocks ds1) \<union> vb_reference ` set bs"
    using Cons.prems(4) sub unfolding dag_extends_gc [OF 1(3)] by (meson list.set_intros(2) subsetD)
  have bs: "\<forall>c \<in> set bs. incoming ctx G U c" "sorted (map vb_round bs)" using Cons.prems(2,3) by simp_all
  from Cons.IH [OF 1(2) bs anc, of "acc @ new1"] obtain new2 bm2 ds2 where 2:
     "for_each (accept_one ctx True) bs (acc @ new1, missing, bm1, ds1) = Some ((acc @ new1) @ new2, missing, bm2, ds2)"
     "bm_inv ctx G U bm2 ds2" "dag_extends ctx ds1 new2 ds2" "vb_reference ` set bs \<subseteq> dom (ds_blocks ds2)" by blast
  have "dom (ds_blocks ds1) \<subseteq> dom (ds_blocks ds2)" using 2(3) by (auto simp: dag_extends_def)
  then have "vb_reference ` set (b # bs) \<subseteq> dom (ds_blocks ds2)" using 1(4) 2(4) by auto
  moreover have "for_each (accept_one ctx True) (b # bs) (acc, missing, bm, ds) = Some (acc @ new1 @ new2, missing, bm2, ds2)"
    using 1(1) 2(1) by simp
  ultimately show ?case using 2(2) dag_extends_trans [OF 1(3) 2(3)] by blast
qed

lemma try_accept_committed_blocks_spec:
  assumes "bm_inv ctx G U bm ds" and "\<forall>b \<in> set bs. incoming ctx G U b"
    and "\<forall>b \<in> set bs. \<forall>a \<in> set (vb_ancestors b). gc_round ctx ds < ref_round a \<longrightarrow>
      a \<in> dom (ds_blocks ds) \<union> vb_reference ` set bs"
  shows "\<exists>accepted bm' ds'. try_accept_committed_blocks ctx bs (bm, ds) = Some (accepted, bm', ds') \<and>
     bm_inv ctx G U bm' ds' \<and> dag_extends ctx ds accepted ds' \<and> vb_reference ` set bs \<subseteq> dom (ds_blocks ds')"
  using accept_committed_batch [OF assms(1), of "sort_key vb_round bs" "[]" "{||}"] assms(2,3)
  by (auto simp: try_accept_committed_blocks_def try_accept_blocks_internal_def)

end
