(* ===== verification/Managed_Dag.thy ===== *)
theory Managed_Dag
  imports Block_Accepting Sample_States
begin

text \<open>
  The block manager at work: it shares the DAG state with the rest of the validator, receives blocks
  from peers and from certified commits, looks for blocks, and follows the garbage collection, in any
  order. \<open>U\<close> are the references of the blocks of the network.
\<close>

section \<open>Runs\<close>

definition history_closed :: "consensus_context \<Rightarrow> dag_state \<Rightarrow> verified_block list \<Rightarrow> bool" where
  "history_closed ctx ds bs \<longleftrightarrow> (\<forall>b \<in> set bs. \<forall>a \<in> set (vb_ancestors b). gc_round ctx ds < ref_round a \<longrightarrow>
     ds_blocks ds a \<noteq> None \<or> a \<in> vb_reference ` set bs)"

inductive manager_run :: "crypto \<Rightarrow> consensus_context \<Rightarrow> block_ref set \<Rightarrow> block_manager \<Rightarrow> dag_state \<Rightarrow> bool"
  for cr ctx U where
  start: "dag_state_new cr ctx ms_new = Some ds \<Longrightarrow> manager_run cr ctx U (block_manager_new ctx) ds"
| receive: "manager_run cr ctx U bm ds \<Longrightarrow> \<forall>b \<in> set bs. incoming ctx (genesis_refs cr ctx) U b \<Longrightarrow>
    try_accept_blocks ctx bs (bm, ds) = Some (accepted, missing, bm', ds') \<Longrightarrow> manager_run cr ctx U bm' ds'"
| committed: "manager_run cr ctx U bm ds \<Longrightarrow> \<forall>b \<in> set bs. incoming ctx (genesis_refs cr ctx) U b \<Longrightarrow> history_closed ctx ds bs \<Longrightarrow>
    try_accept_committed_blocks ctx bs (bm, ds) = Some (accepted, bm', ds') \<Longrightarrow> manager_run cr ctx U bm' ds'"
| find: "manager_run cr ctx U bm ds \<Longrightarrow> \<forall>r \<in> set refs. ref_author r \<in> members (ctx_committee ctx) \<Longrightarrow>
    try_find_blocks ctx ds refs bm = Some (missing, bm') \<Longrightarrow> manager_run cr ctx U bm' ds"
| collect: "manager_run cr ctx U bm ds \<Longrightarrow>
    try_unsuspend_blocks_for_latest_gc_round ctx (bm, ds) = Some (bm', ds') \<Longrightarrow> manager_run cr ctx U bm' ds'"
| other: "manager_run cr ctx U bm ds \<Longrightarrow> dag_step ctx ds ds' \<Longrightarrow> ds_blocks ds' = ds_blocks ds \<Longrightarrow> manager_run cr ctx U bm ds'"

text \<open>The universe of references: it has the genesis blocks, and own blocks do not share a slot.\<close>

definition network_refs :: "crypto \<Rightarrow> consensus_context \<Rightarrow> block_ref set \<Rightarrow> bool" where
  "network_refs cr ctx U \<longleftrightarrow> own_unique ctx U \<and> fset (genesis_refs cr ctx) \<subseteq> U"

section \<open>The invariant holds in every run\<close>

lemma dag_step_gc: "dag_step ctx ds ds' \<Longrightarrow> dag_inv ctx G ds \<Longrightarrow> gc_round ctx ds \<le> gc_round ctx ds'"
proof (induction rule: dag_step.induct)
  case (accept ds b ds')
  then show ?case using accept_block_frame(3) gc_round_cong by (metis order.refl)
next
  case (flush ds ds')
  then show ?case using flush_keeps gc_round_cong unfolding dag_inv_def by (metis order.refl)
next
  case (add_commit ds c ds')
  then show ?case
    using add_commit_same [of ctx ds c ds'] gc_round_commit [of ds' c ds ctx] gc_round_cong [of ds' ds ctx] by auto
next
  case (set_committed ds r ds' fresh)
  then show ?case using set_committed_same gc_round_cong order.refl by metis
next
  case (link_causal_history ds r ds' linked)
  then show ?case using link_same gc_round_cong order.refl by metis
qed (metis commit_buffers_same gc_round_cong order.refl)+

lemma extends_reachable:
  assumes "dag_extends ctx ds bs ds'" and "dag_reachable cr ctx ds"
  shows "dag_reachable cr ctx ds'"
proof -
  have "(accept_step ctx)\<^sup>*\<^sup>* ds ds'" using assms(1) by (simp add: dag_extends_def)
  then show ?thesis
    by (induction rule: rtranclp_induct) (use assms(2) in \<open>auto simp: accept_step_def intro: dag_reachable.step dag_step.accept\<close>)
qed

lemma other_step_inv:
  assumes inv: "bm_inv ctx G U bm ds" and step: "dag_step ctx ds ds'" and same: "ds_blocks ds' = ds_blocks ds"
  shows "bm_inv ctx G U bm ds'"
proof -
  note i = bm_invD [OF inv]
  have "gc_round ctx ds \<le> gc_round ctx ds'" by (rule dag_step_gc [OF step i(1)])
  then have "susp_inv (ctx_committee ctx) G (gc_round ctx ds') (dom (ds_blocks ds')) (bm_suspended_blocks bm)"
    using i(4) unfolding susp_inv_def suspended_ok_def same by (meson order.strict_trans1)
  then show ?thesis unfolding bm_inv_def same using i dag_step_inv [OF step i(1)] by blast
qed

lemma initial_manager_inv:
  assumes ctx: "ctx_ok ctx" and U: "network_refs cr ctx U" and ds: "dag_state_new cr ctx ms_new = Some ds"
  shows "bm_inv ctx (genesis_refs cr ctx) U (block_manager_new ctx) ds"
proof -
  obtain bs where bs: "genesis_blocks cr ctx = Some bs" "ds = initial_state ctx bs" using ds by (auto simp: dag_state_new_empty)
  have inv: "dag_inv ctx (genesis_refs cr ctx) ds" using initial_state_inv [OF ctx bs(1)] bs(2) by simp
  have "ms_blocks_of (ds_store ds) r = None" "fmlookup (ds_recent_blocks ds) r = None" for r
    unfolding bs(2) by (simp_all add: initial_state_def Let_def ms_new_def ms_blocks_of_def)
  then have "dom (ds_blocks ds) \<subseteq> fset (fmdom (ds_genesis ds))" by (auto simp: ds_blocks_def fmdom_iff split: if_splits)
  moreover have "fmdom (ds_genesis ds) = genesis_refs cr ctx" using inv by (simp add: dag_inv_def)
  ultimately show ?thesis
    using inv U unfolding bm_inv_def network_refs_def
    by (auto simp: block_manager_new_def susp_inv_def links_ok_def waiting_def registered_def)
qed

lemma manager_run_inv:
  assumes "manager_run cr ctx U bm ds" and ctx: "ctx_ok ctx" and U: "network_refs cr ctx U"
  shows "bm_inv ctx (genesis_refs cr ctx) U bm ds \<and> dag_reachable cr ctx ds"
  using assms(1)
proof (induction rule: manager_run.induct)
  case (start ds)
  then show ?case using initial_manager_inv [OF ctx U] dag_reachable.start by blast
next
  case (receive bm ds bs accepted missing bm' ds')
  then show ?case using try_accept_blocks_spec [of ctx "genesis_refs cr ctx" U bm ds bs] extends_reachable by auto
next
  case (committed bm ds bs accepted bm' ds')
  have "\<forall>b \<in> set bs. \<forall>a \<in> set (vb_ancestors b). gc_round ctx ds < ref_round a \<longrightarrow> a \<in> dom (ds_blocks ds) \<union> vb_reference ` set bs"
    using committed.hyps by (auto simp: history_closed_def)
  then show ?case
    using committed try_accept_committed_blocks_spec [of ctx "genesis_refs cr ctx" U bm ds bs] extends_reachable by auto
next
  case (find bm ds refs missing bm')
  then show ?case using try_find_blocks_spec [of ctx "genesis_refs cr ctx" U bm ds refs] by auto
next
  case (collect bm ds bm' ds')
  then show ?case using gc_loop_spec [of ctx "genesis_refs cr ctx" U bm ds] extends_reachable
    by (auto simp: try_unsuspend_blocks_for_latest_gc_round_def)
next
  case (other bm ds ds')
  then show ?case using other_step_inv dag_reachable.step by blast
qed

text \<open>Whoever is suspended waits, directly or through suspended blocks, for a block to fetch.\<close>

lemma waits_for_missing:
  assumes inv: "bm_inv ctx G U bm ds" and r: "r |\<in>| fmdom (bm_suspended_blocks bm)"
  shows "\<exists>m. (waiting (bm_suspended_blocks bm))\<^sup>+\<^sup>+ r m \<and> m |\<in>| bm_missing_blocks bm"
  using r
proof (induction "ref_round r" arbitrary: r rule: less_induct)
  case less
  note i = bm_invD [OF inv]
  obtain s where s: "fmlookup (bm_suspended_blocks bm) r = Some s" using less.prems by (auto simp: fmdom_iff)
  have ok: "suspended_ok (ctx_committee ctx) G (gc_round ctx ds) (dom (ds_blocks ds)) r s" "sus_missing_ancestors s \<noteq> {||}"
    using i(4) s unfolding susp_inv_def by blast+
  obtain a where a: "a |\<in>| sus_missing_ancestors s" using ok(2) by auto
  have low: "ref_round a < ref_round r"
    using ok(1) a by (auto simp: suspended_ok_def block_ok_def ancestors_ok_def ancestor_entry_ok_def)
  have w: "waiting (bm_suspended_blocks bm) r a" using s a by (auto simp: waiting_def)
  then have key: "a |\<in>| fmdom (bm_missing_ancestors bm)" using i(5) by (auto simp: links_ok_def registered_def fmdom_iff)
  show ?case
  proof (cases "a |\<in>| fmdom (bm_suspended_blocks bm)")
    case True
    then show ?thesis using less.hyps [OF low] w by (meson tranclp_into_tranclp2)
  next
    case False
    then show ?thesis using w key i(7) by (auto intro: tranclp.r_into_trancl)
  qed
qed

section \<open>Sample runs\<close>

text \<open>
  A validator that starts and receives a block of round 2 before its ancestors.
\<close>

definition sample_universe :: "block_ref set" where
  "sample_universe = {r. ref_digest r = 0}"

definition sample_start :: dag_state where
  "sample_start = sample_state sample_context []"

definition sample_early :: "verified_block list" where
  "sample_early = sample_round 2 [1]"

definition sample_received :: "(verified_block list \<times> block_ref fset \<times> block_manager \<times> dag_state) option" where
  "sample_received = try_accept_blocks sample_context sample_early (block_manager_new sample_context, sample_start)"

definition sample_manager :: block_manager where
  "sample_manager = fst (snd (snd (the sample_received)))"

definition sample_dag :: dag_state where
  "sample_dag = snd (snd (snd (the sample_received)))"

definition sample_blocks_ok :: "verified_block list \<Rightarrow> bool" where
  "sample_blocks_ok bs = list_all (\<lambda>b. block_ok sample_committee (genesis_refs sample_crypto sample_context) (vb_block b) \<and>
     vb_round b < u32_max \<and> ref_digest (vb_reference b) = 0) bs"

lemma sample_incoming:
  assumes "sample_blocks_ok bs"
  shows "\<forall>b \<in> set bs. incoming sample_context (genesis_refs sample_crypto sample_context) sample_universe b"
  using assms by (auto simp: sample_blocks_ok_def incoming_def sample_universe_def list_all_iff)

lemma sample_network: "network_refs sample_crypto sample_context sample_universe"
proof -
  have "list_all (\<lambda>r. ref_digest r = 0) (btree_iter (genesis_refs sample_crypto sample_context))" by code_simp
  then have "fset (genesis_refs sample_crypto sample_context) \<subseteq> sample_universe"
    by (auto simp: list_all_iff set_btree_iter sample_universe_def)
  moreover have "own_unique sample_context sample_universe"
    by (auto simp: own_unique_def sample_universe_def slot_of_def block_ref.expand)
  ultimately show ?thesis by (simp add: network_refs_def)
qed

lemma sample_start_run:
  "manager_run sample_crypto sample_context sample_universe (block_manager_new sample_context) sample_start"
proof -
  have "genesis_blocks sample_crypto sample_context \<noteq> None" by code_simp
  then show ?thesis
    unfolding sample_start_def sample_state_def by (intro manager_run.start) (auto simp: dag_state_new_empty)
qed

lemma sample_received_some: "sample_received \<noteq> None"
  by code_simp

lemma sample_run: "manager_run sample_crypto sample_context sample_universe sample_manager sample_dag"
proof -
  have "sample_blocks_ok sample_early" by code_simp
  then have inc: "\<forall>b \<in> set sample_early. incoming sample_context (genesis_refs sample_crypto sample_context) sample_universe b"
    by (rule sample_incoming)
  obtain acc miss bm ds where r: "sample_received = Some (acc, miss, bm, ds)" using sample_received_some by (metis not_None_eq prod_cases4)
  then have "manager_run sample_crypto sample_context sample_universe bm ds"
    using manager_run.receive [OF sample_start_run inc] unfolding sample_received_def by blast
  then show ?thesis unfolding sample_manager_def sample_dag_def r by simp
qed

lemma sample_suspended: "btree_iter (fmdom (bm_suspended_blocks sample_manager)) = [sample_ref 2 1]"
  by code_simp

section \<open>Properties\<close>

text \<open>
  C7. In every run of the block manager, the blocks to fetch are exactly the keys of the map of missing
  ancestors that are not suspended themselves; no key is in the DAG; a suspended block is filed under
  its reference, is not in the DAG, waits for at least one of its ancestors and for every ancestor above
  the garbage collection round that the DAG misses; it is registered exactly under the ancestors it
  waits for; and the DAG state only went through the steps of \<open>DagState\<close> that accept ready blocks.
\<close>

theorem block_manager_invariant:
  assumes ctx: "ctx_ok ctx" and U: "network_refs cr ctx U" and run: "manager_run cr ctx U bm ds"
  shows "missing_blocks bm = fmdom (bm_missing_ancestors bm) |-| fmdom (bm_suspended_blocks bm) \<and>
     (\<forall>a. a |\<in>| fmdom (bm_missing_ancestors bm) \<longrightarrow> ds_blocks ds a = None) \<and>
     (\<forall>r s. fmlookup (bm_suspended_blocks bm) r = Some s \<longrightarrow>
        vb_reference (sus_block s) = r \<and> ds_blocks ds r = None \<and> sus_missing_ancestors s \<noteq> {||} \<and>
        fset (sus_missing_ancestors s) \<subseteq> set (vb_ancestors (sus_block s)) \<and>
        (\<forall>a \<in> set (vb_ancestors (sus_block s)). gc_round ctx ds < ref_round a \<and> ds_blocks ds a = None \<longrightarrow>
           a |\<in>| sus_missing_ancestors s)) \<and>
     (\<forall>r a. (\<exists>s. fmlookup (bm_suspended_blocks bm) r = Some s \<and> a |\<in>| sus_missing_ancestors s) \<longleftrightarrow>
        (\<exists>children. fmlookup (bm_missing_ancestors bm) a = Some children \<and> r |\<in>| children)) \<and>
     dag_reachable cr ctx ds"
proof -
  have inv: "bm_inv ctx (genesis_refs cr ctx) U bm ds" and reach: "dag_reachable cr ctx ds"
    using manager_run_inv [OF run ctx U] by auto
  note i = bm_invD [OF inv]
  have "vb_reference (sus_block s) = r \<and> ds_blocks ds r = None \<and> sus_missing_ancestors s \<noteq> {||} \<and>
        fset (sus_missing_ancestors s) \<subseteq> set (vb_ancestors (sus_block s)) \<and>
        (\<forall>a \<in> set (vb_ancestors (sus_block s)). gc_round ctx ds < ref_round a \<and> ds_blocks ds a = None \<longrightarrow>
           a |\<in>| sus_missing_ancestors s)" if "fmlookup (bm_suspended_blocks bm) r = Some s" for r s
    using i(4) that unfolding susp_inv_def suspended_ok_def domIff by meson
  then show ?thesis
    using i(5-7) reach unfolding missing_blocks_def links_ok_def waiting_def registered_def domIff by blast
qed

theorem block_manager_invariant_witness:
  "btree_iter (fmdom (bm_suspended_blocks sample_manager)) = [sample_ref 2 1] \<and>
   missing_blocks sample_manager = fmdom (bm_missing_ancestors sample_manager) |-| fmdom (bm_suspended_blocks sample_manager) \<and>
   dag_reachable sample_crypto sample_context sample_dag"
  using block_manager_invariant [OF sample_contexts_ok(1) sample_network sample_run] sample_suspended by blast

text \<open>
  C8. \<open>try_accept_blocks\<close> never panics on verified blocks and keeps the manager in a run. The blocks it
  returns are new, each follows its ancestors above the garbage collection round, and the DAG grows by
  exactly these blocks. Every received block is afterwards in the DAG, suspended, or too old; a block
  that was suspended stays so or enters the DAG; and the references reported as missing are to be fetched.
\<close>

theorem try_accept_blocks_correct:
  assumes ctx: "ctx_ok ctx" and U: "network_refs cr ctx U" and run: "manager_run cr ctx U bm ds"
    and bs: "\<forall>b \<in> set bs. incoming ctx (genesis_refs cr ctx) U b"
  shows "\<exists>accepted missing bm' ds'. try_accept_blocks ctx bs (bm, ds) = Some (accepted, missing, bm', ds') \<and>
     manager_run cr ctx U bm' ds' \<and> missing |\<subseteq>| missing_blocks bm' \<and>
     accepts (ctx_committee ctx) (genesis_refs cr ctx) (gc_round ctx ds) (dom (ds_blocks ds)) accepted \<and>
     ds_blocks ds \<subseteq>\<^sub>m ds_blocks ds' \<and> dom (ds_blocks ds') = dom (ds_blocks ds) \<union> vb_reference ` set accepted \<and>
     (\<forall>b \<in> set accepted. ds_blocks ds' (vb_reference b) = Some b) \<and>
     (\<forall>b \<in> set bs. ds_blocks ds' (vb_reference b) \<noteq> None \<or> vb_reference b |\<in>| fmdom (bm_suspended_blocks bm') \<or>
        vb_round b \<le> gc_round ctx ds) \<and>
     (\<forall>r. r |\<in>| fmdom (bm_suspended_blocks bm) \<longrightarrow> r |\<in>| fmdom (bm_suspended_blocks bm') \<or> ds_blocks ds' r \<noteq> None)"
proof -
  have inv: "bm_inv ctx (genesis_refs cr ctx) U bm ds" using manager_run_inv [OF run ctx U] by blast
  obtain accepted missing bm' ds' where t: "try_accept_blocks ctx bs (bm, ds) = Some (accepted, missing, bm', ds')"
    "dag_extends ctx ds accepted ds'" "missing |\<subseteq>| bm_missing_blocks bm'"
    "\<forall>b \<in> set bs. vb_reference b \<in> dom (ds_blocks ds') \<or> vb_reference b |\<in>| fmdom (bm_suspended_blocks bm') \<or>
        vb_round b \<le> gc_round ctx ds"
    "fset (fmdom (bm_suspended_blocks bm)) \<subseteq> fset (fmdom (bm_suspended_blocks bm')) \<union> dom (ds_blocks ds')"
    using try_accept_blocks_spec [OF inv bs] by blast
  then have "\<forall>r. r |\<in>| fmdom (bm_suspended_blocks bm) \<longrightarrow> r |\<in>| fmdom (bm_suspended_blocks bm') \<or> ds_blocks ds' r \<noteq> None"
    by (meson UnE domIff subsetD)
  moreover have "\<forall>b \<in> set bs. ds_blocks ds' (vb_reference b) \<noteq> None \<or> vb_reference b |\<in>| fmdom (bm_suspended_blocks bm') \<or>
        vb_round b \<le> gc_round ctx ds" using t(4) unfolding domIff .
  moreover note manager_run.receive [OF run bs t(1)]
  ultimately show ?thesis
    using t(1-3) unfolding dag_extends_def bm_invD(3) [OF inv] missing_blocks_def
    by (intro exI [of _ accepted] exI [of _ missing] exI [of _ bm'] exI [of _ ds']) (elim conjE, intro conjI; assumption)
qed

text \<open>The next blocks the sample validator receives: the whole first round.\<close>

lemma sample_next_incoming:
  "\<forall>b \<in> set (sample_round 1 [0, 1, 2, 3]). incoming sample_context (genesis_refs sample_crypto sample_context) sample_universe b"
proof -
  have "sample_blocks_ok (sample_round 1 [0, 1, 2, 3])" by code_simp
  then show ?thesis by (rule sample_incoming)
qed

theorem try_accept_blocks_correct_witness:
  "\<exists>accepted missing bm' ds'. try_accept_blocks sample_context (sample_round 1 [0, 1, 2, 3]) (sample_manager, sample_dag) =
       Some (accepted, missing, bm', ds') \<and> manager_run sample_crypto sample_context sample_universe bm' ds' \<and>
     dom (ds_blocks ds') = dom (ds_blocks sample_dag) \<union> vb_reference ` set accepted"
  using try_accept_blocks_correct [OF sample_contexts_ok(1) sample_network sample_run sample_next_incoming] by blast

text \<open>
  C9. Blocks that arrive with their whole history, in any order within the batch, are all accepted: if
  the ancestors above the garbage collection round are in the DAG or in the batch, and none of the batch
  is too old or already suspended, every block of the batch is in the DAG after \<open>try_accept_blocks\<close>.
\<close>

theorem complete_history_is_accepted:
  assumes ctx: "ctx_ok ctx" and U: "network_refs cr ctx U" and run: "manager_run cr ctx U bm ds"
    and bs: "\<forall>b \<in> set bs. incoming ctx (genesis_refs cr ctx) U b" and closed: "history_closed ctx ds bs"
    and fresh: "\<forall>b \<in> set bs. gc_round ctx ds < vb_round b \<and> vb_reference b |\<notin>| fmdom (bm_suspended_blocks bm)"
  shows "\<exists>accepted missing bm' ds'. try_accept_blocks ctx bs (bm, ds) = Some (accepted, missing, bm', ds') \<and>
     (\<forall>b \<in> set bs. ds_blocks ds' (vb_reference b) \<noteq> None)"
proof -
  have inv: "bm_inv ctx (genesis_refs cr ctx) U bm ds" using manager_run_inv [OF run ctx U] by blast
  obtain accepted missing bm' ds' where t: "try_accept_blocks ctx bs (bm, ds) = Some (accepted, missing, bm', ds')"
    using try_accept_blocks_spec [OF inv bs] by blast
  let ?bs = "sort_key vb_round bs"
  have "for_each (accept_one ctx False) ?bs ([], {||}, bm, ds) = Some (accepted, missing, bm', ds')"
    using t by (simp add: try_accept_blocks_def try_accept_blocks_internal_def)
  moreover have "\<forall>b \<in> set ?bs. \<forall>a \<in> set (vb_ancestors b). gc_round ctx ds < ref_round a \<longrightarrow> a \<in> dom (ds_blocks ds) \<union> vb_reference ` set ?bs"
    using closed by (auto simp: history_closed_def)
  ultimately have "vb_reference ` set ?bs \<subseteq> dom (ds_blocks ds')"
    using accept_closed_batch [OF inv, of ?bs] bs fresh by simp
  then show ?thesis using t by (auto simp: domIff)
qed

lemma sample_next_closed:
  "history_closed sample_context sample_dag (sample_round 1 [0, 1, 2, 3])"
  "\<forall>b \<in> set (sample_round 1 [0, 1, 2, 3]). gc_round sample_context sample_dag < vb_round b \<and>
     vb_reference b |\<notin>| fmdom (bm_suspended_blocks sample_manager)"
  by code_simp+

theorem complete_history_is_accepted_witness:
  "\<exists>accepted missing bm' ds'. try_accept_blocks sample_context (sample_round 1 [0, 1, 2, 3]) (sample_manager, sample_dag) =
       Some (accepted, missing, bm', ds') \<and>
     (\<forall>b \<in> set (sample_round 1 [0, 1, 2, 3]). ds_blocks ds' (vb_reference b) \<noteq> None)"
  by (rule complete_history_is_accepted [OF sample_contexts_ok(1) sample_network sample_run sample_next_incoming sample_next_closed])

text \<open>
  C10. No block is suspended for nothing: from every suspended block a chain of suspended blocks, each
  waiting for the next, leads to a reference the manager reports as missing. So when nothing is left
  to fetch, nothing is suspended.
\<close>

theorem suspended_waits_for_missing:
  assumes ctx: "ctx_ok ctx" and U: "network_refs cr ctx U" and run: "manager_run cr ctx U bm ds"
  shows "(\<forall>r. r |\<in>| fmdom (bm_suspended_blocks bm) \<longrightarrow>
        (\<exists>m. (waiting (bm_suspended_blocks bm))\<^sup>+\<^sup>+ r m \<and> m |\<in>| missing_blocks bm)) \<and>
     (missing_blocks bm = {||} \<longrightarrow> bm_suspended_blocks bm = fmempty)"
proof -
  have inv: "bm_inv ctx (genesis_refs cr ctx) U bm ds" using manager_run_inv [OF run ctx U] by blast
  note w = waits_for_missing [OF inv]
  have "bm_suspended_blocks bm = fmempty" if "bm_missing_blocks bm = {||}"
    using w that by (intro fmap_ext) (metis fempty_iff fmdom_notD fmempty_lookup)
  then show ?thesis using w by (simp add: missing_blocks_def)
qed

theorem suspended_waits_for_missing_witness:
  "\<exists>m. (waiting (bm_suspended_blocks sample_manager))\<^sup>+\<^sup>+ (sample_ref 2 1) m \<and> m |\<in>| missing_blocks sample_manager"
proof -
  have "sample_ref 2 1 |\<in>| fmdom (bm_suspended_blocks sample_manager)"
    using sample_suspended by (metis list.set_intros(1) set_btree_iter)
  then show ?thesis
    using suspended_waits_for_missing [OF sample_contexts_ok(1) sample_network sample_run] by blast
qed

text \<open>
  C11. \<open>try_unsuspend_blocks_for_latest_gc_round\<close> returns, keeps the manager in a run, only adds blocks to
  the DAG, and leaves nobody waiting for a block at or below the garbage collection round.
\<close>

theorem gc_unsuspends_all:
  assumes ctx: "ctx_ok ctx" and U: "network_refs cr ctx U" and run: "manager_run cr ctx U bm ds"
  shows "\<exists>bm' ds'. try_unsuspend_blocks_for_latest_gc_round ctx (bm, ds) = Some (bm', ds') \<and> manager_run cr ctx U bm' ds' \<and>
     ds_blocks ds \<subseteq>\<^sub>m ds_blocks ds' \<and> gc_round ctx ds' = gc_round ctx ds \<and>
     (\<forall>a. a |\<in>| fmdom (bm_missing_ancestors bm') \<longrightarrow> gc_round ctx ds' < ref_round a) \<and>
     (\<forall>r a. waiting (bm_suspended_blocks bm') r a \<longrightarrow> gc_round ctx ds' < ref_round a)"
proof -
  have inv: "bm_inv ctx (genesis_refs cr ctx) U bm ds" using manager_run_inv [OF run ctx U] by blast
  obtain new bm' ds' where g: "unsuspend_gc_loop ctx (gc_round ctx ds) bm ds = Some (bm', ds')" "bm_inv ctx (genesis_refs cr ctx) U bm' ds'"
    "dag_extends ctx ds new ds'" "\<forall>a. a |\<in>| fmdom (bm_missing_ancestors bm') \<longrightarrow> gc_round ctx ds < ref_round a"
    using gc_loop_spec [OF inv] by blast
  have t: "try_unsuspend_blocks_for_latest_gc_round ctx (bm, ds) = Some (bm', ds')"
    using g(1) by (simp add: try_unsuspend_blocks_for_latest_gc_round_def)
  have "\<forall>r a. waiting (bm_suspended_blocks bm') r a \<longrightarrow> gc_round ctx ds < ref_round a"
    using bm_invD(5) [OF g(2)] g(4) unfolding links_ok_def registered_def by (metis fmdomI)
  then show ?thesis
    using t manager_run.collect [OF run t] g(3,4) dag_extends_gc [OF g(3)]
    by (intro exI [of _ bm'] exI [of _ ds']) (simp add: dag_extends_def)
qed

theorem gc_unsuspends_all_witness:
  "\<exists>bm' ds'. try_unsuspend_blocks_for_latest_gc_round sample_context (sample_manager, sample_dag) = Some (bm', ds') \<and>
     (\<forall>a. a |\<in>| fmdom (bm_missing_ancestors bm') \<longrightarrow> gc_round sample_context ds' < ref_round a)"
  using gc_unsuspends_all [OF sample_contexts_ok(1) sample_network sample_run] by blast

text \<open>
  C12. Committed blocks whose history is in the DAG or in the batch are all accepted by
  \<open>try_accept_committed_blocks\<close>, whether or not they were suspended, with the blocks that waited for
  them; the call never panics and keeps the manager in a run.
\<close>

theorem committed_blocks_are_accepted:
  assumes ctx: "ctx_ok ctx" and U: "network_refs cr ctx U" and run: "manager_run cr ctx U bm ds"
    and bs: "\<forall>b \<in> set bs. incoming ctx (genesis_refs cr ctx) U b" and closed: "history_closed ctx ds bs"
  shows "\<exists>accepted bm' ds'. try_accept_committed_blocks ctx bs (bm, ds) = Some (accepted, bm', ds') \<and> manager_run cr ctx U bm' ds' \<and>
     accepts (ctx_committee ctx) (genesis_refs cr ctx) (gc_round ctx ds) (dom (ds_blocks ds)) accepted \<and>
     dom (ds_blocks ds') = dom (ds_blocks ds) \<union> vb_reference ` set accepted \<and>
     (\<forall>b \<in> set bs. ds_blocks ds' (vb_reference b) \<noteq> None)"
proof -
  have inv: "bm_inv ctx (genesis_refs cr ctx) U bm ds" using manager_run_inv [OF run ctx U] by blast
  have "\<forall>b \<in> set bs. \<forall>a \<in> set (vb_ancestors b). gc_round ctx ds < ref_round a \<longrightarrow> a \<in> dom (ds_blocks ds) \<union> vb_reference ` set bs"
    using closed by (auto simp: history_closed_def)
  from try_accept_committed_blocks_spec [OF inv bs this] obtain accepted bm' ds' where
    t: "try_accept_committed_blocks ctx bs (bm, ds) = Some (accepted, bm', ds')" "dag_extends ctx ds accepted ds'"
      "vb_reference ` set bs \<subseteq> dom (ds_blocks ds')" by blast
  then have "\<forall>b \<in> set bs. ds_blocks ds' (vb_reference b) \<noteq> None" by (auto simp: domIff)
  then show ?thesis
    using t(1,2) manager_run.committed [OF run bs closed t(1)] bm_invD(3) [OF inv]
    by (intro exI [of _ accepted] exI [of _ bm'] exI [of _ ds']) (simp add: dag_extends_def)
qed

theorem committed_blocks_are_accepted_witness:
  "\<exists>accepted bm' ds'. try_accept_committed_blocks sample_context (sample_round 1 [0, 1, 2, 3]) (sample_manager, sample_dag) =
       Some (accepted, bm', ds') \<and> (\<forall>b \<in> set (sample_round 1 [0, 1, 2, 3]). ds_blocks ds' (vb_reference b) \<noteq> None)"
  using committed_blocks_are_accepted
    [OF sample_contexts_ok(1) sample_network sample_run sample_next_incoming sample_next_closed(1)] by blast

text \<open>
  C13. \<open>try_find_blocks\<close> reports exactly the requested references above the garbage collection round that
  are neither in the DAG nor suspended, and the manager keeps them as blocks to fetch.
\<close>

theorem try_find_blocks_exact:
  assumes ctx: "ctx_ok ctx" and U: "network_refs cr ctx U" and run: "manager_run cr ctx U bm ds"
    and refs: "\<forall>r \<in> set refs. ref_author r \<in> members (ctx_committee ctx)"
  shows "\<exists>missing bm'. try_find_blocks ctx ds refs bm = Some (missing, bm') \<and> manager_run cr ctx U bm' ds \<and>
     bm_suspended_blocks bm' = bm_suspended_blocks bm \<and> missing |\<subseteq>| missing_blocks bm' \<and>
     fset missing = {r \<in> set refs. gc_round ctx ds < ref_round r \<and> ds_blocks ds r = None \<and> r |\<notin>| fmdom (bm_suspended_blocks bm)}"
proof -
  have inv: "bm_inv ctx (genesis_refs cr ctx) U bm ds" using manager_run_inv [OF run ctx U] by blast
  obtain missing bm' where t: "try_find_blocks ctx ds refs bm = Some (missing, bm')"
    "bm_suspended_blocks bm' = bm_suspended_blocks bm" "missing |\<subseteq>| bm_missing_blocks bm'"
    "fset missing = {r \<in> set refs. gc_round ctx ds < ref_round r \<and> r \<notin> dom (ds_blocks ds) \<and> r |\<notin>| fmdom (bm_suspended_blocks bm)}"
    using try_find_blocks_spec [OF inv refs] by blast
  then show ?thesis
    using manager_run.find [OF run refs t(1)]
    by (intro exI [of _ missing] exI [of _ bm']) (simp add: missing_blocks_def domIff)
qed

theorem try_find_blocks_exact_witness:
  "\<exists>missing bm'. try_find_blocks sample_context sample_dag [sample_ref 1 0, sample_ref 2 1] sample_manager = Some (missing, bm') \<and>
     missing |\<subseteq>| missing_blocks bm'"
proof -
  have "\<forall>r \<in> set [sample_ref 1 0, sample_ref 2 1]. ref_author r \<in> members (ctx_committee sample_context)"
    by (simp add: sample_ref_def sample_members)
  from try_find_blocks_exact [OF sample_contexts_ok(1) sample_network sample_run this] show ?thesis by blast
qed

end
