(* ===== verification/Dag_Properties.thy ===== *)
theory Dag_Properties
  imports Node_Runs Managed_Dag
begin

text \<open>
  What \<open>DagState\<close> promises its clients in every reachable state: it behaves as a map from references
  to blocks whatever is cached, buffered or persisted, its indexes agree with each other, and the
  hard links are closed under causality, so that linking a proposed block returns exactly the part of
  its history that no earlier proposal linked.
\<close>

section \<open>Hard links are closed under ancestors\<close>

lemma causal_cong:
  assumes "\<And>r. e < ref_round r \<Longrightarrow> B r = B' r"
  shows "causal B e S r \<longleftrightarrow> causal B' e S r"
proof -
  have "causal B e S r \<Longrightarrow> causal B' e S r" if eq: "\<And>r. e < ref_round r \<Longrightarrow> B r = B' r" for B B'
    by (induction rule: causal.induct) (use eq in \<open>auto intro: causal.intros\<close>)
  then show ?thesis using assms by metis
qed

definition links_inv :: "consensus_context \<Rightarrow> dag_state \<Rightarrow> bool" where
  "links_inv ctx ds \<longleftrightarrow> links_closed (gc_round ctx ds) (ds_recent_blocks ds) {}"

lemma links_closed_above:
  assumes "links_closed gc m {}" and "gc \<le> gc'"
    and "\<And>r. gc' < ref_round r \<Longrightarrow> blocks_in m' r = blocks_in m r \<and> (r \<in> linked_in m' \<longleftrightarrow> r \<in> linked_in m)"
  shows "links_closed gc' m' {}"
  using assms unfolding links_closed_def by (metis Un_empty_right order.strict_trans1)

lemma links_inv_same:
  assumes "links_inv ctx ds" and "gc_round ctx ds \<le> gc_round ctx ds'"
    and "blocks_in (ds_recent_blocks ds') = blocks_in (ds_recent_blocks ds)" and "linked_in (ds_recent_blocks ds') = linked_in (ds_recent_blocks ds)"
  shows "links_inv ctx ds'"
  using links_closed_above [of "gc_round ctx ds" "ds_recent_blocks ds" "gc_round ctx ds'" "ds_recent_blocks ds'"] assms
  by (simp add: links_inv_def)

lemma accept_links:
  assumes inv: "dag_inv ctx G ds" and ready: "ready ctx ds b" and acc: "accept_block ctx b ds = Some ds'" and links: "links_inv ctx ds"
  shows "links_inv ctx ds'"
proof -
  have gc: "gc_round ctx ds' = gc_round ctx ds" using accept_block_frame(3) [OF acc] gc_round_cong by blast
  show ?thesis using accept_recent [OF acc]
  proof
    assume new: "contains_block ds (vb_reference b) = Some False \<and>
      ds_recent_blocks ds' = fmupd (vb_reference b) (block_info_new b) (ds_recent_blocks ds)"
    have inv': "ds_inv ctx ds" using inv by (simp add: dag_inv_def)
    have b: "0 < vb_round b" "vb_author b \<in> members (ctx_committee ctx)" using ready by (auto simp: ready_def block_ok_def)
    have "ds_blocks ds (vb_reference b) = None" using contains_block_eq [OF inv', of "vb_reference b"] b new by auto
    then have "fmlookup (ds_recent_blocks ds) (vb_reference b) = None"
      using b by (auto simp: ds_blocks_def GENESIS_ROUND_def split: option.splits)
    then have "linked_in (ds_recent_blocks ds') = linked_in (ds_recent_blocks ds)" "vb_reference b \<notin> linked_in (ds_recent_blocks ds)"
      "\<And>r. r \<noteq> vb_reference b \<Longrightarrow> blocks_in (ds_recent_blocks ds') r = blocks_in (ds_recent_blocks ds) r"
      using new by (auto simp: linked_in_def blocks_in_def block_info_new_def split: if_splits)
    then show ?thesis using links unfolding links_inv_def links_closed_def gc by metis
  qed (use links gc in \<open>simp add: links_inv_def\<close>)
qed

lemma links_closed_link:
  assumes closed: "links_closed gc m {}" and B: "blocks_in m' = blocks_in m"
    and L: "linked_in m' = linked_in m \<union> newly_linked gc m {root}"
  shows "links_closed gc m' {}"
  unfolding links_closed_def B
proof (intro allI impI)
  fix r b a
  assume r: "r \<in> linked_in m'" "blocks_in m r = Some b" "gc < ref_round r" "a \<in> set (vb_ancestors b)" "gc < ref_round a"
  show "a \<in> linked_in m' \<union> {}"
  proof (cases "r \<in> linked_in m")
    case True
    then show ?thesis using closed r(2-5) L unfolding links_closed_def by blast
  next
    case False
    then have "causal (blocks_in m) gc {root} r" using r(1) L by (simp add: newly_linked_def)
    then have "causal (blocks_in m) gc {root} a" using causal.step r(2-4) by metis
    then show ?thesis using L r(5) by (auto simp: newly_linked_def)
  qed
qed

lemma link_causal_history_spec:
  assumes inv: "dag_inv ctx G ds" and links: "links_inv ctx ds"
    and root: "gc_round ctx ds < ref_round root \<longrightarrow> ds_blocks ds root \<noteq> None"
  shows "\<exists>m linked. link_causal_history ctx ds root = Some (ds\<lparr> ds_recent_blocks := m \<rparr>, linked) \<and> distinct linked \<and>
     set linked = newly_linked (gc_round ctx ds) (ds_recent_blocks ds) {root} \<and>
     blocks_in m = blocks_in (ds_recent_blocks ds) \<and> linked_in m = linked_in (ds_recent_blocks ds) \<union> set linked"
proof -
  let ?gc = "gc_round ctx ds" and ?m = "ds_recent_blocks ds"
  have mem: "memory_inv ctx ds" and view: "dag_view (ctx_committee ctx) G ?gc (ds_blocks ds)" using inv by (simp_all add: dag_inv_def)
  have B: "ds_blocks ds r = blocks_in ?m r" if "?gc < ref_round r" for r
    using cached_above_gc [OF mem that] by (simp add: blocks_in_def)
  have "complete_above ?gc (ds_blocks ds)" using view by (simp add: dag_view_def)
  then have "cache_complete ?gc ?m" using B unfolding cache_complete_def complete_above_def by metis
  moreover have "links_closed ?gc ?m (set [root])" using links by (auto simp: links_inv_def links_closed_def)
  moreover have "\<forall>t \<in> set [root]. ?gc < ref_round t \<longrightarrow> blocks_in ?m t \<noteq> None" using root B by simp
  ultimately obtain m new where "link_loop ?gc ?m [root] [] = Some (m, [] @ new)" "distinct new"
     "set new = newly_linked ?gc ?m (set [root])" "blocks_in m = blocks_in ?m" "linked_in m = linked_in ?m \<union> set new"
    using link_loop_spec [of ?gc ?m "[root]" "[]"] by blast
  then show ?thesis
    by (intro exI [of _ m] exI [of _ new]) (simp add: link_causal_history_def del: link_loop.simps)
qed

lemma link_links:
  assumes inv: "dag_inv ctx G ds" and links: "links_inv ctx ds" and link: "link_causal_history ctx ds root = Some (ds', linked)"
  shows "links_inv ctx ds'"
proof -
  have "gc_round ctx ds < ref_round root \<longrightarrow> ds_blocks ds root \<noteq> None"
  proof
    assume r: "gc_round ctx ds < ref_round root"
    then have "fmlookup (ds_recent_blocks ds) root \<noteq> None" using link by (auto simp: link_causal_history_def split: option.splits)
    then show "ds_blocks ds root \<noteq> None" using cached_above_gc [OF _ r] inv by (simp add: dag_inv_def)
  qed
  from link_causal_history_spec [OF inv links this] link
  obtain m where m: "ds' = ds\<lparr> ds_recent_blocks := m \<rparr>" "blocks_in m = blocks_in (ds_recent_blocks ds)"
    "linked_in m = linked_in (ds_recent_blocks ds) \<union> newly_linked (gc_round ctx ds) (ds_recent_blocks ds) {root}" by auto
  have "gc_round ctx ds' = gc_round ctx ds" using m(1) by (intro gc_round_cong) simp
  then show ?thesis using links_closed_link [OF _ m(2,3)] links m(1) by (simp add: links_inv_def)
qed

lemma dag_step_links:
  "dag_step ctx ds ds' \<Longrightarrow> dag_inv ctx G ds \<Longrightarrow> links_inv ctx ds \<Longrightarrow> links_inv ctx ds'"
proof (induction rule: dag_step.induct)
  case (accept ds b ds')
  then show ?case by (blast intro: accept_links)
next
  case (flush ds ds')
  have inv: "ds_inv ctx ds" using flush.prems(1) by (simp add: dag_inv_def)
  have keep: "\<And>r. gc_round ctx ds < ref_round r \<Longrightarrow> fmlookup (ds_recent_blocks ds') r = fmlookup (ds_recent_blocks ds) r"
    and gc: "gc_round ctx ds' = gc_round ctx ds" using flush_keeps [OF inv flush.hyps] gc_round_cong by blast+
  show ?case
    using flush.prems(2) unfolding links_inv_def gc
    by (rule links_closed_above) (simp_all add: keep blocks_in_def linked_in_def)
next
  case (link_causal_history ds r ds' linked)
  then show ?case by (blast intro: link_links)
next
  case (set_committed ds r ds' fresh)
  have "linked_in (ds_recent_blocks ds') = linked_in (ds_recent_blocks ds)"
    using set_committed.hyps
    by (auto simp: set_committed_def linked_in_def Option.bind_eq_Some_conv split: if_splits)
  then show ?case
    using links_inv_same [OF set_committed.prems(2)] dag_step_gc [OF dag_step.set_committed [OF set_committed.hyps] set_committed.prems(1)]
      set_committed_same [OF set_committed.hyps] by (simp add: same_dag_def)
next
  case (add_commit ds c ds')
  have "ds_recent_blocks ds' = ds_recent_blocks ds" using add_commit.hyps(2)
    by (auto simp: add_commit_def Option.bind_eq_Some_conv split: if_splits)
  then show ?case
    using links_inv_same [OF add_commit.prems(2)] dag_step_gc [OF dag_step.add_commit [OF add_commit.hyps] add_commit.prems(1)] by simp
next
  case (add_commit_info ds scores ds')
  then show ?case by (auto simp: links_inv_def add_commit_info_def gc_round_def last_commit_round_def Let_def Option.bind_eq_Some_conv)
next
  case (add_scoring_subdags ds subdags ds')
  then show ?case by (auto simp: links_inv_def add_scoring_subdags_def gc_round_def last_commit_round_def Let_def Option.bind_eq_Some_conv)
qed (simp_all add: links_inv_def add_finalized_commit_def take_commit_votes_def clear_scoring_subdag_def
    recover_commits_to_write_def gc_round_def last_commit_round_def Let_def)

lemma reachable_links:
  "dag_reachable cr ctx ds \<Longrightarrow> ctx_ok ctx \<Longrightarrow> links_inv ctx ds"
proof (induction rule: dag_reachable.induct)
  case (start ds)
  then obtain bs where "ds = initial_state ctx bs" by (auto simp: dag_state_new_empty)
  then show ?case by (simp add: links_inv_def links_closed_def linked_in_def initial_state_def Let_def)
next
  case (step ds ds')
  then show ?case using dag_step_links dag_reachable_inv by blast
qed

section \<open>Blocks are never lost\<close>

lemma dag_step_blocks: "dag_step ctx ds ds' \<Longrightarrow> dag_inv ctx G ds \<Longrightarrow> ds_blocks ds \<subseteq>\<^sub>m ds_blocks ds'"
proof (induction rule: dag_step.induct)
  case (accept ds b ds')
  then show ?case using accept_quietly [of ctx G ds b ds'] by (simp add: extends_quietly_def)
next
  case (flush ds ds')
  then show ?case using flush_quietly [of ctx G ds ds'] by (simp add: extends_quietly_def)
next
  case (set_committed ds r ds' fresh)
  then show ?case using set_committed_same same_dag_blocks map_le_refl by metis
next
  case (link_causal_history ds r ds' linked)
  then show ?case using link_same same_dag_blocks map_le_refl by metis
next
  case (add_commit ds c ds')
  then show ?case using add_commit_same same_dag_blocks map_le_refl by metis
qed (metis commit_buffers_same same_dag_blocks map_le_refl)+

lemma dag_steps_blocks:
  assumes "(dag_step ctx)\<^sup>*\<^sup>* ds ds'" and "dag_reachable cr ctx ds" and "ctx_ok ctx"
  shows "dag_reachable cr ctx ds' \<and> ds_blocks ds \<subseteq>\<^sub>m ds_blocks ds'"
  using assms(1)
proof (induction rule: rtranclp_induct)
  case base
  then show ?case using assms(2) by simp
next
  case (step ds1 ds2)
  then show ?case
    using dag_step_blocks [OF step.hyps(2)] dag_reachable_inv [OF _ assms(3)] dag_reachable.step map_le_trans by blast
qed

section \<open>Properties\<close>

text \<open>
  C0. In every reachable state the two ways to look for blocks agree: \<open>contains_blocks\<close>, which answers
  from the cached references and the evicted rounds without reading blocks where it can, reports
  exactly the references for which \<open>get_blocks\<close>, which reads genesis, cache and store, finds a block,
  and \<open>get_blocks\<close> returns for a reference only the block with that reference.
\<close>

theorem dag_reads_equivalent:
  assumes ctx: "ctx_ok ctx" and reach: "dag_reachable cr ctx ds" and refs: "\<forall>r \<in> set refs. ref_author r \<in> members (ctx_committee ctx)"
  shows "contains_blocks ds refs = Some (map (\<lambda>b. b \<noteq> None) (get_blocks ds refs)) \<and>
     list_all2 (\<lambda>r found. \<forall>b. found = Some b \<longrightarrow> vb_reference b = r) refs (get_blocks ds refs)"
proof -
  have inv: "ds_inv ctx ds" using dag_reachable_inv [OF reach ctx] by (simp add: dag_inv_def)
  then show ?thesis
    using contains_blocks_eq [OF inv refs] ds_blocks_ref [OF inv]
    by (simp add: get_blocks_eq list.rel_map list.rel_refl)
qed

theorem dag_reads_equivalent_witness:
  "contains_blocks sample_view0 [sample_ref 4 1, sample_ref 5 1] =
     Some (map (\<lambda>b. b \<noteq> None) (get_blocks sample_view0 [sample_ref 4 1, sample_ref 5 1]))"
proof -
  have "\<forall>r \<in> set [sample_ref 4 1, sample_ref 5 1]. ref_author r \<in> members (ctx_committee sample_context)"
    by (simp add: sample_ref_def sample_members)
  from dag_reads_equivalent [OF sample_contexts_ok(1) sample_view0_reachable this] show ?thesis by blast
qed

text \<open>
  C0. A block that is ready and does not clash with an own block can be accepted, and from then on it is
  read back unchanged after any number of further operations, flushes and evictions included. Accepting
  it changes no other reference.
\<close>

theorem accepted_blocks_stay_readable:
  assumes ctx: "ctx_ok ctx" and reach: "dag_reachable cr ctx ds" and ready: "ready ctx ds b"
    and new: "get_block ds (vb_reference b) = None"
    and own: "vb_author b = own_index ctx \<longrightarrow> get_uncommitted_blocks_at_slot ds (slot_of (vb_reference b)) = []"
  shows "\<exists>ds1. accept_block ctx b ds = Some ds1 \<and> (\<forall>r. r \<noteq> vb_reference b \<longrightarrow> get_block ds1 r = get_block ds r) \<and>
     (\<forall>ds2. (dag_step ctx)\<^sup>*\<^sup>* ds1 ds2 \<longrightarrow> get_block ds2 (vb_reference b) = Some b)"
proof -
  have inv: "ds_inv ctx ds" using dag_reachable_inv [OF reach ctx] by (simp add: dag_inv_def)
  have "acceptable ctx ds b" using ready own by (auto simp: acceptable_def ready_def block_ok_def)
  from accept_block_spec [OF inv this]
  obtain ds1 where 1: "accept_block ctx b ds = Some ds1" "ds_blocks ds1 = (ds_blocks ds)(vb_reference b \<mapsto> b)"
    using new by (auto simp: get_block_eq)
  have reach1: "dag_reachable cr ctx ds1" using dag_reachable.step [OF reach dag_step.accept [OF ready 1(1)]] .
  have "ds_blocks ds2 (vb_reference b) = Some b" if "(dag_step ctx)\<^sup>*\<^sup>* ds1 ds2" for ds2
    using dag_steps_blocks [OF that reach1 ctx] 1(2) by (auto simp: map_le_def dom_def)
  then show ?thesis using 1 by (simp add: get_block_eq)
qed

definition sample_fifth :: verified_block where
  "sample_fifth = hd (sample_round 5 [1])"

theorem accepted_blocks_stay_readable_witness:
  "\<exists>ds1. accept_block sample_context sample_fifth sample_view0 = Some ds1 \<and>
     (\<forall>ds2. (dag_step sample_context)\<^sup>*\<^sup>* ds1 ds2 \<longrightarrow> get_block ds2 (vb_reference sample_fifth) = Some sample_fifth)"
proof -
  have "ready sample_context sample_view0 sample_fifth" by code_simp
  moreover have "get_block sample_view0 (vb_reference sample_fifth) = None" by code_simp
  moreover have "vb_author sample_fifth = own_index sample_context \<longrightarrow>
      get_uncommitted_blocks_at_slot sample_view0 (slot_of (vb_reference sample_fifth)) = []" by code_simp
  ultimately show ?thesis
    using accepted_blocks_stay_readable [OF sample_contexts_ok(1) sample_view0_reachable] by blast
qed

text \<open>
  C0. Every reachable state is well formed: the per-authority tables have one entry per authority; a
  block is cached under its own reference, with a member as author and a positive round below the
  largest \<open>u32\<close>; the references indexed for an authority are exactly the cached ones by that authority;
  what is not yet in the store waits in the write buffer; and above the garbage collection round the
  ancestors of every block are present.
\<close>

theorem dag_state_well_formed:
  assumes ctx: "ctx_ok ctx" and reach: "dag_reachable cr ctx ds"
  shows "length (ds_recent_refs ds) = committee_size (ctx_committee ctx) \<and>
     length (ds_evicted_rounds ds) = committee_size (ctx_committee ctx) \<and>
     length (ds_last_committed_rounds ds) = committee_size (ctx_committee ctx) \<and>
     (\<forall>r info. fmlookup (ds_recent_blocks ds) r = Some info \<longrightarrow>
        vb_reference (bi_block info) = r \<and> 0 < ref_round r \<and> ref_round r < u32_max \<and> ref_author r \<in> members (ctx_committee ctx) \<and>
        (bi_block info \<in> set (ds_blocks_to_write ds) \<or> ms_blocks_of (ds_store ds) r = Some (bi_block info))) \<and>
     (\<forall>a < committee_size (ctx_committee ctx). \<forall>r.
        r |\<in>| ds_recent_refs ds ! a \<longleftrightarrow> r |\<in>| fmdom (ds_recent_blocks ds) \<and> ref_author r = a) \<and>
     (\<forall>r b a. get_block ds r = Some b \<longrightarrow> gc_round ctx ds < ref_round r \<longrightarrow> a \<in> set (vb_ancestors b) \<longrightarrow>
        gc_round ctx ds < ref_round a \<longrightarrow> get_block ds a \<noteq> None)"
proof -
  have inv: "dag_inv ctx (genesis_refs cr ctx) ds" by (rule dag_reachable_inv [OF reach ctx])
  then have parts: "recent_inv ctx ds" "refs_inv ctx ds" "persist_inv ds" "complete_above (gc_round ctx ds) (ds_blocks ds)"
    by (simp_all add: dag_inv_def ds_inv_def dag_view_def)
  have "\<forall>r info. fmlookup (ds_recent_blocks ds) r = Some info \<longrightarrow>
        vb_reference (bi_block info) = r \<and> 0 < ref_round r \<and> ref_round r < u32_max \<and> ref_author r \<in> members (ctx_committee ctx) \<and>
        (bi_block info \<in> set (ds_blocks_to_write ds) \<or> ms_blocks_of (ds_store ds) r = Some (bi_block info))"
    using parts(1,3) unfolding recent_inv_def persist_inv_def by meson
  moreover have "\<forall>r b a. get_block ds r = Some b \<longrightarrow> gc_round ctx ds < ref_round r \<longrightarrow> a \<in> set (vb_ancestors b) \<longrightarrow>
        gc_round ctx ds < ref_round a \<longrightarrow> get_block ds a \<noteq> None"
    using parts(4) unfolding complete_above_def get_block_eq .
  ultimately show ?thesis using parts(2) unfolding refs_inv_def by blast
qed

theorem dag_state_well_formed_witness:
  "length (ds_recent_refs sample_view0) = 4 \<and>
   (\<forall>r b a. get_block sample_view0 r = Some b \<longrightarrow> gc_round sample_context sample_view0 < ref_round r \<longrightarrow> a \<in> set (vb_ancestors b) \<longrightarrow>
      gc_round sample_context sample_view0 < ref_round a \<longrightarrow> get_block sample_view0 a \<noteq> None)"
proof -
  have "committee_size (ctx_committee sample_context) = 4" by code_simp
  then show ?thesis using dag_state_well_formed [OF sample_contexts_ok(1) sample_view0_reachable] by metis
qed

text \<open>
  C0. Linking a root that is in the DAG never panics and returns, each once, exactly the blocks of its
  causal history above the garbage collection round that were not hard linked before; these become
  hard linked, every other status and every block stays as it is.
\<close>

theorem link_causal_history_exact:
  assumes ctx: "ctx_ok ctx" and reach: "dag_reachable cr ctx ds"
    and root: "gc_round ctx ds < ref_round root \<longrightarrow> get_block ds root \<noteq> None"
  shows "\<exists>ds' linked. link_causal_history ctx ds root = Some (ds', linked) \<and> distinct linked \<and>
     set linked = {r. causal (get_block ds) (gc_round ctx ds) {root} r \<and> gc_round ctx ds < ref_round r \<and> is_hard_linked ds r \<noteq> Some True} \<and>
     (\<forall>r. is_hard_linked ds' r = Some True \<longleftrightarrow> is_hard_linked ds r = Some True \<or> r \<in> set linked) \<and>
     (\<forall>r. get_block ds' r = get_block ds r)"
proof -
  have inv: "dag_inv ctx (genesis_refs cr ctx) ds" by (rule dag_reachable_inv [OF reach ctx])
  obtain m linked where l: "link_causal_history ctx ds root = Some (ds\<lparr> ds_recent_blocks := m \<rparr>, linked)" "distinct linked"
     "set linked = newly_linked (gc_round ctx ds) (ds_recent_blocks ds) {root}"
     "blocks_in m = blocks_in (ds_recent_blocks ds)" "linked_in m = linked_in (ds_recent_blocks ds) \<union> set linked"
    using link_causal_history_spec [OF inv reachable_links [OF reach ctx]] root unfolding get_block_eq by blast
  have "blocks_in (ds_recent_blocks ds) r = get_block ds r" if "gc_round ctx ds < ref_round r" for r
    using cached_above_gc [OF _ that] inv by (simp add: get_block_eq blocks_in_def dag_inv_def)
  then have "causal (blocks_in (ds_recent_blocks ds)) (gc_round ctx ds) {root} r \<longleftrightarrow> causal (get_block ds) (gc_round ctx ds) {root} r" for r
    by (rule causal_cong)
  moreover have status: "is_hard_linked d r = Some True \<longleftrightarrow> r \<in> linked_in (ds_recent_blocks d)" for d r
    by (auto simp: is_hard_linked_def linked_in_def)
  ultimately have "set linked = {r. causal (get_block ds) (gc_round ctx ds) {root} r \<and> gc_round ctx ds < ref_round r \<and> is_hard_linked ds r \<noteq> Some True}"
    using l(3) by (simp add: newly_linked_def)
  moreover have "ds_blocks (ds\<lparr> ds_recent_blocks := m \<rparr>) = ds_blocks ds"
    using same_dag_blocks link_same [OF l(1)] by blast
  ultimately show ?thesis
    using l(1,2,5) status by (intro exI [of _ "ds\<lparr> ds_recent_blocks := m \<rparr>"] exI [of _ linked]) (simp add: get_block_eq)
qed

theorem link_causal_history_exact_witness:
  "\<exists>ds' linked. link_causal_history sample_context sample_view0 (sample_ref 3 2) = Some (ds', linked) \<and> distinct linked \<and>
     (\<forall>r. get_block ds' r = get_block sample_view0 r)"
proof -
  have "gc_round sample_context sample_view0 < ref_round (sample_ref 3 2) \<longrightarrow> get_block sample_view0 (sample_ref 3 2) \<noteq> None"
    by code_simp
  from link_causal_history_exact [OF sample_contexts_ok(1) sample_view0_reachable this] show ?thesis by blast
qed

text \<open>
  C0. \<open>flush\<close> returns in every reachable state; afterwards every cached block is in the store, nothing is
  left in the write buffers, and every reference reads as before although old blocks were evicted.
\<close>

theorem flush_persists_and_keeps:
  assumes ctx: "ctx_ok ctx" and reach: "dag_reachable cr ctx ds"
  shows "\<exists>ds'. flush ctx ds = Some ds' \<and> ds_blocks_to_write ds' = [] \<and>
     (\<forall>r b. get_block ds' r = Some b \<longrightarrow> ref_round r \<noteq> GENESIS_ROUND \<longrightarrow> ms_blocks_of (ds_store ds') r = Some b) \<and>
     (\<forall>r. get_block ds' r = get_block ds r)"
proof -
  have inv: "ds_inv ctx ds" using dag_reachable_inv [OF reach ctx] by (simp add: dag_inv_def)
  obtain ds' where f: "flush ctx ds = Some ds'" "persisted ds'" "ds_blocks ds' = ds_blocks ds" using flush_spec [OF inv] by blast
  have "ms_blocks_of (ds_store ds') r = Some b" if "ds_blocks ds' r = Some b" "ref_round r \<noteq> GENESIS_ROUND" for r b
    using that f(2) by (auto simp: ds_blocks_def persisted_def split: option.splits)
  then show ?thesis using f by (auto simp: get_block_eq persisted_def)
qed

theorem flush_persists_and_keeps_witness:
  "\<exists>ds'. flush sample_context sample_view0 = Some ds' \<and> ds_blocks_to_write ds' = [] \<and>
     (\<forall>r. get_block ds' r = get_block sample_view0 r)"
  using flush_persists_and_keeps [OF sample_contexts_ok(1) sample_view0_reachable] by blast

end
