(* ===== verification/Round_Tracker.thy ===== *)
theory Round_Tracker
  imports Commit_Timestamps
begin

text \<open>
  The round tracker (\<^verbatim>\<open>consensus/core/src/round_tracker.rs\<close>): for every authority the highest rounds the
  peers report to have accepted or received, and the quorum rounds computed from them. The gauges set by
  \<open>calculate_propagation_delay\<close> are left out; the authorities it iterates over for them always exist.
\<close>

section \<open>State and updates\<close>

type_synonym quorum_round = "round \<times> round"

record peer_round_tracker =
  rt_block_accepted_rounds :: "round list list"
  rt_probed_accepted_rounds :: "round list list"
  rt_probed_received_rounds :: "round list list"

definition round_tracker_new :: "consensus_context \<Rightarrow> peer_round_tracker" where
  "round_tracker_new ctx =
     (let size = committee_size (ctx_committee ctx); zeros = replicate size (replicate size 0) in
      \<lparr> rt_block_accepted_rounds = zeros, rt_probed_accepted_rounds = zeros, rt_probed_received_rounds = zeros \<rparr>)"

text \<open>\<open>m[i][j] = m[i][j].max(r)\<close>.\<close>

definition raise_round :: "authority_index \<Rightarrow> authority_index \<times> round \<Rightarrow> round list list \<Rightarrow> round list list option" where
  "raise_round i = (\<lambda>(j, r) m. do {
     row \<leftarrow> vec_get m i;
     old \<leftarrow> vec_get row j;
     row' \<leftarrow> vec_set row j (max old r);
     vec_set m i row'
   })"

definition update_from_accepted_block :: "extended_block \<Rightarrow> peer_round_tracker \<Rightarrow> peer_round_tracker option" where
  "update_from_accepted_block xb t = do {
     let author = vb_author (xb_block xb);
     m1 \<leftarrow> raise_round author (author, vb_round (xb_block xb)) (rt_block_accepted_rounds t);
     m2 \<leftarrow> for_each (\<lambda>a. raise_round author (ref_author a, ref_round a)) (vb_ancestors (xb_block xb)) m1;
     m3 \<leftarrow> for_each (\<lambda>a. raise_round author (ref_author a, ref_round a)) (xb_excluded_ancestors xb) m2;
     Some (t\<lparr> rt_block_accepted_rounds := m3 \<rparr>)
   }"

definition update_from_probe :: "round list list \<Rightarrow> round list list \<Rightarrow> peer_round_tracker \<Rightarrow> peer_round_tracker" where
  "update_from_probe accepted_rounds received_rounds t =
     t\<lparr> rt_probed_accepted_rounds := accepted_rounds, rt_probed_received_rounds := received_rounds \<rparr>"

section \<open>Quorum rounds\<close>

text \<open>The first round at which the stake seen so far reaches the threshold.\<close>

fun quorum_round_scan :: "stake \<Rightarrow> stake \<Rightarrow> (round \<times> stake) list \<Rightarrow> round" where
  "quorum_round_scan thr seen [] = 0"
| "quorum_round_scan thr seen ((rnd, stk) # rest) =
     (let seen' = add_u64 seen stk in
      if thr \<le> seen' then rnd else quorum_round_scan thr seen' rest)"

definition compute_quorum_round :: "committee \<Rightarrow> authority_index \<Rightarrow> round list list \<Rightarrow> quorum_round option" where
  "compute_quorum_round c target_index highest_rounds = do {
     rounds \<leftarrow> traverse (\<lambda>(rounds, _, authority). do {
         rnd \<leftarrow> vec_get rounds target_index;
         Some (rnd, auth_stake authority) }) (zip highest_rounds (committee_authorities c));
     let rounds_with_stake = sort rounds;
     let low = quorum_round_scan (com_quorum_threshold c) 0 (rev rounds_with_stake);
     let high = quorum_round_scan (com_quorum_threshold c) 0 rounds_with_stake;
     Some (low, high)
   }"

definition compute_accepted_quorum_rounds :: "consensus_context \<Rightarrow> peer_round_tracker \<Rightarrow> quorum_round list option" where
  "compute_accepted_quorum_rounds ctx t =
     (let highest = map (\<lambda>(probed, block). map (\<lambda>(p, b). max p b) (zip probed block))
            (zip (rt_probed_accepted_rounds t) (rt_block_accepted_rounds t)) in
      traverse (\<lambda>(peer, _). compute_quorum_round (ctx_committee ctx) peer highest) (committee_authorities (ctx_committee ctx)))"

definition compute_received_quorum_rounds :: "consensus_context \<Rightarrow> peer_round_tracker \<Rightarrow> quorum_round list option" where
  "compute_received_quorum_rounds ctx t =
     traverse (\<lambda>(peer, _). compute_quorum_round (ctx_committee ctx) peer (rt_probed_received_rounds t))
       (committee_authorities (ctx_committee ctx))"

definition calculate_propagation_delay :: "consensus_context \<Rightarrow> peer_round_tracker \<Rightarrow> round \<Rightarrow> round option" where
  "calculate_propagation_delay ctx t last_proposed_round = do {
     received_quorum_rounds \<leftarrow> compute_received_quorum_rounds ctx t;
     accepted_quorum_rounds \<leftarrow> compute_accepted_quorum_rounds ctx t;
     received \<leftarrow> vec_get received_quorum_rounds (own_index ctx);
     accepted \<leftarrow> vec_get accepted_quorum_rounds (own_index ctx);
     Some (min (last_proposed_round - fst received) (last_proposed_round - fst accepted))
   }"

section \<open>The scan\<close>

lemma quorum_round_scan_split:
  assumes "seen < thr" and "thr \<le> seen + sum_list (map snd xs)" and "seen + sum_list (map snd xs) \<le> u64_max"
  shows "\<exists>pre s post. xs = pre @ (quorum_round_scan thr seen xs, s) # post \<and>
     seen + sum_list (map snd pre) < thr \<and> thr \<le> seen + sum_list (map snd pre) + s"
  using assms
proof (induction xs arbitrary: seen)
  case (Cons x xs)
  obtain r s where x: "x = (r, s)" by (cases x)
  have add: "add_u64 seen s = seen + s" using Cons.prems(3) x by simp
  show ?case
  proof (cases "thr \<le> seen + s")
    case True
    then show ?thesis using Cons.prems(1) add x by (intro exI [of _ "[]"] exI [of _ s] exI [of _ xs]) simp
  next
    case False
    have "thr \<le> (seen + s) + sum_list (map snd xs)" "(seen + s) + sum_list (map snd xs) \<le> u64_max"
      using Cons.prems(2,3) x by simp_all
    with Cons.IH [of "seen + s"] False obtain pre s' post where
      "xs = pre @ (quorum_round_scan thr (seen + s) xs, s') # post"
      "seen + s + sum_list (map snd pre) < thr" "thr \<le> seen + s + sum_list (map snd pre) + s'" by auto
    then show ?thesis using False add x
      by (intro exI [of _ "x # pre"] exI [of _ s'] exI [of _ post]) simp
  qed
qed simp

lemma stake_where_all: "\<forall>x \<in> set xs. P (fst x) \<Longrightarrow> stake_where P xs = sum_list (map snd xs)"
  by (induction xs) auto

lemma stake_where_none: "\<forall>x \<in> set xs. \<not> P (fst x) \<Longrightarrow> stake_where P xs = 0"
  by (induction xs) auto

lemma scan_sorted:
  assumes sorted: "sorted_wrt R (map fst xs)" and R: "\<And>t. R t t" "\<And>t u. R t u \<Longrightarrow> R u t \<Longrightarrow> t = u"
    and thr: "0 < thr" "thr \<le> sum_list (map snd xs)" "sum_list (map snd xs) \<le> u64_max"
  shows "thr \<le> stake_where (\<lambda>t. R t (quorum_round_scan thr 0 xs)) xs \<and>
     stake_where (\<lambda>t. R t (quorum_round_scan thr 0 xs) \<and> t \<noteq> quorum_round_scan thr 0 xs) xs < thr"
proof -
  define r where "r = quorum_round_scan thr 0 xs"
  obtain pre s post where xs: "xs = pre @ (r, s) # post" and sums: "sum_list (map snd pre) < thr" "thr \<le> sum_list (map snd pre) + s"
    using quorum_round_scan_split [of 0 thr xs] thr unfolding r_def by auto
  have pre: "\<forall>x \<in> set pre. R (fst x) r" and post: "\<forall>x \<in> set post. \<not> (R (fst x) r \<and> fst x \<noteq> r)"
    using sorted R(2) unfolding xs by (auto simp: sorted_wrt_append)
  have "stake_where (\<lambda>t. R t r) xs = sum_list (map snd pre) + (s + stake_where (\<lambda>t. R t r) post)"
    unfolding xs using stake_where_all [of pre "\<lambda>t. R t r"] pre R(1) by simp
  moreover have "stake_where (\<lambda>t. R t r \<and> t \<noteq> r) xs = stake_where (\<lambda>t. R t r \<and> t \<noteq> r) pre"
    unfolding xs using stake_where_none [of post "\<lambda>t. R t r \<and> t \<noteq> r"] post by simp
  ultimately show ?thesis
    using stake_where_le [of "\<lambda>t. R t r \<and> t \<noteq> r" pre] sums unfolding r_def [symmetric] by simp
qed

section \<open>Quorum rounds of an authority\<close>

text \<open>The authorities whose reported round satisfies \<open>P\<close>.\<close>

definition reporters :: "committee \<Rightarrow> (authority_index \<Rightarrow> round) \<Rightarrow> (round \<Rightarrow> bool) \<Rightarrow> authority_index set" where
  "reporters c R P = {a \<in> members c. P (R a)}"

definition report_list :: "committee \<Rightarrow> (authority_index \<Rightarrow> round) \<Rightarrow> (round \<times> stake) list" where
  "report_list c R = map (\<lambda>a. (R a, auth_stake (com_authorities c ! a))) [0..<committee_size c]"

lemma stake_where_reporters: "stake_where P (report_list c R) = weight c (reporters c R P)"
proof -
  have "stake_where P (map (\<lambda>a. (R a, auth_stake (com_authorities c ! a))) [0..<n]) =
      weight c {a. a < n \<and> P (R a)}" for n
  proof (induction n)
    case (Suc n)
    have "{a. a < Suc n \<and> P (R a)} = (if P (R n) then insert n {a. a < n \<and> P (R a)} else {a. a < n \<and> P (R a)})"
      by (auto simp: less_Suc_eq)
    then show ?case using Suc by (simp add: weight_insert)
  qed simp
  then show ?thesis unfolding report_list_def reporters_def members_def by simp
qed

definition matrix_ok :: "committee \<Rightarrow> round list list \<Rightarrow> bool" where
  "matrix_ok c m \<longleftrightarrow> length m = committee_size c \<and> (\<forall>row \<in> set m. length row = committee_size c)"

lemma report_list_eq:
  assumes m: "matrix_ok c m" and t: "target \<in> members c"
  shows "traverse (\<lambda>(rounds, _, authority). do { rnd \<leftarrow> vec_get rounds target; Some (rnd, auth_stake authority) })
      (zip m (committee_authorities c)) = Some (report_list c (\<lambda>a. m ! a ! target))"
proof -
  have len: "length (zip m (committee_authorities c)) = committee_size c"
    using m by (simp add: matrix_ok_def committee_authorities_def committee_size_def)
  have "zip m (committee_authorities c) = map (\<lambda>a. (m ! a, a, com_authorities c ! a)) [0..<committee_size c]"
    by (rule nth_equalityI) (use m len in \<open>auto simp: matrix_ok_def committee_authorities_def committee_size_def nth_enumerate_eq\<close>)
  moreover have "traverse (\<lambda>(rounds, _, authority). do { rnd \<leftarrow> vec_get rounds target; Some (rnd, auth_stake authority) })
      (map (\<lambda>a. (m ! a, a, com_authorities c ! a)) as) = Some (map (\<lambda>a. (m ! a ! target, auth_stake (com_authorities c ! a))) as)"
    if "\<forall>a \<in> set as. a < committee_size c" for as
    using that by (induction as) (use m t in \<open>auto simp: matrix_ok_def members_def\<close>)
  ultimately show ?thesis by (simp add: report_list_def)
qed

text \<open>What the two bounds of a quorum round mean.\<close>

definition quorum_round_of :: "committee \<Rightarrow> (authority_index \<Rightarrow> round) \<Rightarrow> quorum_round \<Rightarrow> bool" where
  "quorum_round_of c R q \<longleftrightarrow>
     is_quorum c (reporters c R (\<lambda>t. fst q \<le> t)) \<and> (\<forall>r. is_quorum c (reporters c R (\<lambda>t. r \<le> t)) \<longrightarrow> r \<le> fst q) \<and>
     is_quorum c (reporters c R (\<lambda>t. t \<le> snd q)) \<and> (\<forall>r. is_quorum c (reporters c R (\<lambda>t. t \<le> r)) \<longrightarrow> snd q \<le> r)"

lemma sorted_fst: "sorted xs \<Longrightarrow> sorted (map fst (xs :: (nat \<times> nat) list))"
  by (induction xs) (auto simp: less_eq_prod_def)

lemma compute_quorum_round_spec:
  assumes wf: "committee_wf c" and m: "matrix_ok c m" and t: "target \<in> members c"
  shows "\<exists>q. compute_quorum_round c target m = Some q \<and> quorum_round_of c (\<lambda>a. m ! a ! target) q"
proof -
  define R where "R = (\<lambda>a. m ! a ! target)"
  define xs where "xs = sort (report_list c R)"
  let ?thr = "com_quorum_threshold c"
  let ?low = "quorum_round_scan ?thr 0 (rev xs)" and ?high = "quorum_round_scan ?thr 0 xs"
  have stake: "stake_where P xs = weight c (reporters c R P)" for P
    unfolding xs_def stake_where_sort by (rule stake_where_reporters)
  have rev: "stake_where P (rev xs) = stake_where P xs" for P by (simp add: rev_filter [symmetric] sum_list_rev rev_map [symmetric])
  have sum: "sum_list (map snd xs) = com_total_stake c"
    using stake [of "\<lambda>_. True"] wf_total_weight [OF wf] by (simp add: reporters_def)
  have thr: "0 < ?thr" "?thr \<le> com_total_stake c" "com_total_stake c \<le> u64_max" using wf_bounds [OF wf] by auto
  have asc: "sorted_wrt (\<le>) (map fst xs)" using sorted_fst [of xs] by (simp add: xs_def)
  have desc: "sorted_wrt (\<ge>) (map fst (rev xs))" using asc by (simp add: rev_map [symmetric] sorted_wrt_rev)
  have high: "?thr \<le> weight c (reporters c R (\<lambda>t. t \<le> ?high))" "weight c (reporters c R (\<lambda>t. t \<le> ?high \<and> t \<noteq> ?high)) < ?thr"
    using scan_sorted [OF asc, of ?thr] thr sum unfolding stake by auto
  have "sum_list (map snd (rev xs)) = com_total_stake c" using sum by (simp add: rev_map [symmetric] sum_list_rev)
  then have low: "?thr \<le> weight c (reporters c R (\<lambda>t. ?low \<le> t))" "weight c (reporters c R (\<lambda>t. ?low \<le> t \<and> t \<noteq> ?low)) < ?thr"
    using scan_sorted [OF desc, of ?thr] thr unfolding rev stake by auto
  have mono: "weight c (reporters c R P) \<le> weight c (reporters c R Q)" if "\<And>t. P t \<Longrightarrow> Q t" for P Q
    using that by (intro weight_mono) (auto simp: reporters_def)
  have "r \<le> ?low" if "is_quorum c (reporters c R (\<lambda>t. r \<le> t))" for r
    using that low(2) mono [of "\<lambda>t. r \<le> t" "\<lambda>t. ?low \<le> t \<and> t \<noteq> ?low"] by (fastforce simp: is_quorum_def reached_quorum_def not_le)
  moreover have "?high \<le> r" if "is_quorum c (reporters c R (\<lambda>t. t \<le> r))" for r
    using that high(2) mono [of "\<lambda>t. t \<le> r" "\<lambda>t. t \<le> ?high \<and> t \<noteq> ?high"] by (fastforce simp: is_quorum_def reached_quorum_def not_le)
  ultimately have "quorum_round_of c R (?low, ?high)"
    using low(1) high(1) by (simp add: quorum_round_of_def is_quorum_def reached_quorum_def)
  moreover have "compute_quorum_round c target m = Some (?low, ?high)"
    using report_list_eq [OF m t] by (simp add: compute_quorum_round_def xs_def R_def Let_def)
  ultimately show ?thesis unfolding R_def by blast
qed

text \<open>Both bounds lie between rounds reported by correct authorities.\<close>

lemma quorum_round_correct_bounds:
  assumes wf: "committee_wf c" and F: "F \<subseteq> members c" "below_validity c F" and q: "quorum_round_of c R q"
  shows "fst q \<le> snd q \<and> (\<exists>a \<in> members c - F. R a \<le> fst q) \<and> (\<exists>a \<in> members c - F. snd q \<le> R a)"
proof -
  let ?H = "members c - F"
  have H: "is_quorum c ?H" using complement_is_quorum [OF wf F(1)] F(2) by (simp add: is_quorum_def below_validity_def)
  have sub: "reporters c R P \<subseteq> members c" for P by (auto simp: reporters_def)
  have q': "is_quorum c (reporters c R (\<lambda>t. fst q \<le> t))" "is_quorum c (reporters c R (\<lambda>t. t \<le> snd q))"
    using q by (auto simp: quorum_round_of_def)
  obtain a where "a \<in> reporters c R (\<lambda>t. fst q \<le> t)" "a \<in> reporters c R (\<lambda>t. t \<le> snd q)"
    using quorums_share_correct [OF wf sub sub F(1) q' F(2)] by blast
  then have le: "fst q \<le> snd q" by (simp add: reporters_def)
  obtain h where h: "h \<in> ?H" using quorums_share_correct [OF wf _ _ F(1) H H F(2)] by auto
  have fin: "finite ?H" by (simp add: members_def)
  obtain lo where lo: "lo \<in> ?H" "\<forall>a \<in> ?H. R lo \<le> R a" 
    using Min_in [of "R ` ?H"] Min_le [of "R ` ?H"] fin h by (metis (no_types, lifting) empty_iff finite_imageI imageE imageI)
  obtain hi where hi: "hi \<in> ?H" "\<forall>a \<in> ?H. R a \<le> R hi"
    using Max_in [of "R ` ?H"] Max_ge [of "R ` ?H"] fin h by (metis (no_types, lifting) empty_iff finite_imageI imageE imageI)
  have "is_quorum c (reporters c R (\<lambda>t. R lo \<le> t))" "is_quorum c (reporters c R (\<lambda>t. t \<le> R hi))"
    using H lo(2) hi(2) weight_mono [of ?H "reporters c R (\<lambda>t. R lo \<le> t)" c] weight_mono [of ?H "reporters c R (\<lambda>t. t \<le> R hi)" c]
    by (auto simp: reporters_def is_quorum_def reached_quorum_def subset_iff)
  then have "R lo \<le> fst q" "snd q \<le> R hi" using q by (simp_all add: quorum_round_of_def)
  then show ?thesis using le lo(1) hi(1) by blast
qed

section \<open>The tracker\<close>

definition tracker_ok :: "committee \<Rightarrow> peer_round_tracker \<Rightarrow> bool" where
  "tracker_ok c t \<longleftrightarrow> matrix_ok c (rt_block_accepted_rounds t) \<and> matrix_ok c (rt_probed_accepted_rounds t) \<and>
     matrix_ok c (rt_probed_received_rounds t)"

lemma tracker_new_ok: "tracker_ok (ctx_committee ctx) (round_tracker_new ctx)"
  by (simp add: tracker_ok_def round_tracker_new_def matrix_ok_def Let_def)

lemma tracker_probe_ok:
  "tracker_ok c t \<Longrightarrow> matrix_ok c accepted \<Longrightarrow> matrix_ok c received \<Longrightarrow> tracker_ok c (update_from_probe accepted received t)"
  by (simp add: tracker_ok_def update_from_probe_def)

lemma matrix_ok_nth: "matrix_ok c m \<Longrightarrow> i \<in> members c \<Longrightarrow> i < length m \<and> length (m ! i) = committee_size c"
  by (auto simp: matrix_ok_def members_def)

lemma raise_round_spec:
  assumes m: "matrix_ok c m" and i: "i \<in> members c" and j: "j \<in> members c"
  shows "\<exists>m'. raise_round i (j, r) m = Some m' \<and> matrix_ok c m' \<and>
     (\<forall>x \<in> members c. \<forall>y \<in> members c. m' ! x ! y = (if x = i \<and> y = j then max (m ! i ! j) r else m ! x ! y))"
proof -
  have b: "i < length m" "j < length (m ! i)" using matrix_ok_nth [OF m i] j by (auto simp: members_def)
  let ?m = "m[i := (m ! i)[j := max (m ! i ! j) r]]"
  have "raise_round i (j, r) m = Some ?m" using b by (simp add: raise_round_def)
  moreover have "matrix_ok c ?m" using m b by (auto simp: matrix_ok_def dest!: set_update_subset_insert [THEN subsetD])
  moreover have "\<forall>x \<in> members c. \<forall>y \<in> members c. ?m ! x ! y = (if x = i \<and> y = j then max (m ! i ! j) r else m ! x ! y)"
    using b by (auto simp: nth_list_update)
  ultimately show ?thesis by blast
qed

lemma raise_rounds_spec:
  assumes "matrix_ok c m" and i: "i \<in> members c" and "\<forall>a \<in> set refs. ref_author a \<in> members c"
  shows "\<exists>m'. for_each (\<lambda>a. raise_round i (ref_author a, ref_round a)) refs m = Some m' \<and> matrix_ok c m' \<and>
     (\<forall>x \<in> members c. \<forall>y \<in> members c. m' ! x ! y =
        (if x = i then fold max (map ref_round (filter (\<lambda>a. ref_author a = y) refs)) (m ! x ! y) else m ! x ! y))"
  using assms(1,3)
proof (induction refs arbitrary: m)
  case (Cons a refs)
  have a: "ref_author a \<in> members c" using Cons.prems(2) by simp
  obtain m1 where 1: "raise_round i (ref_author a, ref_round a) m = Some m1" "matrix_ok c m1"
     "\<forall>x \<in> members c. \<forall>y \<in> members c. m1 ! x ! y = (if x = i \<and> y = ref_author a then max (m ! i ! ref_author a) (ref_round a) else m ! x ! y)"
    using raise_round_spec [OF Cons.prems(1) i a, of "ref_round a"] by blast
  obtain m2 where 2: "for_each (\<lambda>a. raise_round i (ref_author a, ref_round a)) refs m1 = Some m2" "matrix_ok c m2"
     "\<forall>x \<in> members c. \<forall>y \<in> members c. m2 ! x ! y =
        (if x = i then fold max (map ref_round (filter (\<lambda>a. ref_author a = y) refs)) (m1 ! x ! y) else m1 ! x ! y)"
    using Cons.IH [OF 1(2)] Cons.prems(2) by auto
  have "\<forall>x \<in> members c. \<forall>y \<in> members c. m2 ! x ! y =
        (if x = i then fold max (map ref_round (filter (\<lambda>a. ref_author a = y) (a # refs))) (m ! x ! y) else m ! x ! y)"
    using 1(3) 2(3) i by (auto simp: max.commute)
  then show ?case using 1(1) 2(1,2) by auto
qed simp

text \<open>A block reports for its author the highest round of every authority among itself, its ancestors and the excluded ones.\<close>

definition reported_refs :: "extended_block \<Rightarrow> block_ref list" where
  "reported_refs xb = vb_reference (xb_block xb) # vb_ancestors (xb_block xb) @ xb_excluded_ancestors xb"

lemma update_from_accepted_block_spec:
  assumes ok: "tracker_ok c t" and refs: "\<forall>a \<in> set (reported_refs xb). ref_author a \<in> members c"
  shows "\<exists>t'. update_from_accepted_block xb t = Some t' \<and> tracker_ok c t' \<and>
     rt_probed_accepted_rounds t' = rt_probed_accepted_rounds t \<and> rt_probed_received_rounds t' = rt_probed_received_rounds t \<and>
     (\<forall>x \<in> members c. \<forall>y \<in> members c. rt_block_accepted_rounds t' ! x ! y =
        (if x = vb_author (xb_block xb) then fold max (map ref_round (filter (\<lambda>a. ref_author a = y) (reported_refs xb)))
            (rt_block_accepted_rounds t ! x ! y) else rt_block_accepted_rounds t ! x ! y))"
proof -
  let ?author = "vb_author (xb_block xb)"
  have m: "matrix_ok c (rt_block_accepted_rounds t)" using ok by (simp add: tracker_ok_def)
  have i: "?author \<in> members c" using refs by (simp add: reported_refs_def)
  obtain m' where m': "for_each (\<lambda>a. raise_round ?author (ref_author a, ref_round a)) (reported_refs xb) (rt_block_accepted_rounds t) = Some m'"
    "matrix_ok c m'" "\<forall>x \<in> members c. \<forall>y \<in> members c. m' ! x ! y =
        (if x = ?author then fold max (map ref_round (filter (\<lambda>a. ref_author a = y) (reported_refs xb)))
            (rt_block_accepted_rounds t ! x ! y) else rt_block_accepted_rounds t ! x ! y)"
    using raise_rounds_spec [OF m i refs] by blast
  have "update_from_accepted_block xb t = Some (t\<lparr> rt_block_accepted_rounds := m' \<rparr>)"
    using m'(1) by (auto simp: update_from_accepted_block_def reported_refs_def Option.bind_eq_Some_conv)
  then show ?thesis using m'(2,3) ok by (simp add: tracker_ok_def)
qed

lemma traverse_members:
  assumes "\<And>a. a \<in> members c \<Longrightarrow> \<exists>q. f a = Some q \<and> P a q"
  shows "\<exists>qs. traverse (\<lambda>(peer, _). f peer) (committee_authorities c) = Some qs \<and> length qs = committee_size c \<and>
     (\<forall>a \<in> members c. f a = Some (qs ! a) \<and> P a (qs ! a))"
proof -
  let ?xs = "committee_authorities c"
  have mem: "fst x \<in> members c" if "x \<in> set ?xs" for x
    using that by (auto simp: committee_authorities_def members_def committee_size_def in_set_enumerate_eq)
  have "(case x of (peer, _) \<Rightarrow> f peer) \<noteq> None" if "x \<in> set ?xs" for x
    using assms [OF mem [OF that]] by (auto split: prod.splits)
  then have "traverse (\<lambda>(peer, _). f peer) ?xs \<noteq> None" by (auto simp: traverse_None_conv simp del: not_None_eq)
  then obtain qs where qs: "traverse (\<lambda>(peer, _). f peer) ?xs = Some qs" by auto
  then have eq: "map (\<lambda>(peer, _). f peer) ?xs = map Some qs" by (simp add: traverse_Some_conv)
  then have nth: "length qs = length ?xs" "\<forall>i < length ?xs. (\<lambda>(peer, _). f peer) (?xs ! i) = Some (qs ! i)"
    using map_eq_imp_length_eq [OF eq] by (simp, metis (no_types, lifting) length_map nth_map)
  have len: "length ?xs = committee_size c" by (simp add: committee_authorities_def committee_size_def)
  have "f a = Some (qs ! a)" if "a \<in> members c" for a
    using nth(2) that len by (auto simp: members_def committee_authorities_def committee_size_def nth_enumerate_eq)
  then show ?thesis using qs nth(1) len assms by (metis option.inject)
qed

text \<open>The rounds of \<open>target\<close> accepted by each authority, from blocks or from probing.\<close>

definition accepted_by :: "peer_round_tracker \<Rightarrow> authority_index \<Rightarrow> authority_index \<Rightarrow> round" where
  "accepted_by t target a = max (rt_probed_accepted_rounds t ! a ! target) (rt_block_accepted_rounds t ! a ! target)"

lemma accepted_quorum_rounds_spec:
  assumes wf: "committee_wf (ctx_committee ctx)" and ok: "tracker_ok (ctx_committee ctx) t"
  shows "\<exists>qs. compute_accepted_quorum_rounds ctx t = Some qs \<and> length qs = committee_size (ctx_committee ctx) \<and>
     (\<forall>a \<in> members (ctx_committee ctx). quorum_round_of (ctx_committee ctx) (accepted_by t a) (qs ! a))"
proof -
  let ?c = "ctx_committee ctx" and ?p = "rt_probed_accepted_rounds t" and ?b = "rt_block_accepted_rounds t"
  let ?m = "map (\<lambda>(probed, block). map (\<lambda>(p, b). max p b) (zip probed block)) (zip ?p ?b)"
  have m: "matrix_ok ?c ?p" "matrix_ok ?c ?b" using ok by (simp_all add: tracker_ok_def)
  then have "matrix_ok ?c ?m" by (auto simp: matrix_ok_def elim!: in_set_zipE)
  moreover have nth: "?m ! i ! a = accepted_by t a i" if "i \<in> members ?c" "a \<in> members ?c" for i a
    using matrix_ok_nth [OF m(1) that(1)] matrix_ok_nth [OF m(2) that(1)] that(2) by (simp add: accepted_by_def members_def)
  have "reporters ?c (\<lambda>i. ?m ! i ! a) P = reporters ?c (accepted_by t a) P" if "a \<in> members ?c" for a P
    using nth that by (auto simp: reporters_def)
  ultimately have "\<exists>q. compute_quorum_round ?c a ?m = Some q \<and> quorum_round_of ?c (accepted_by t a) q" if "a \<in> members ?c" for a
    using compute_quorum_round_spec [OF wf, of ?m a] that unfolding quorum_round_of_def by simp
  from traverse_members [where f = "\<lambda>a. compute_quorum_round ?c a ?m", OF this] show ?thesis
    unfolding compute_accepted_quorum_rounds_def Let_def by blast
qed

lemma received_quorum_rounds_spec:
  assumes wf: "committee_wf (ctx_committee ctx)" and ok: "tracker_ok (ctx_committee ctx) t"
  shows "\<exists>qs. compute_received_quorum_rounds ctx t = Some qs \<and> length qs = committee_size (ctx_committee ctx) \<and>
     (\<forall>a \<in> members (ctx_committee ctx). quorum_round_of (ctx_committee ctx) (\<lambda>i. rt_probed_received_rounds t ! i ! a) (qs ! a))"
proof -
  have "matrix_ok (ctx_committee ctx) (rt_probed_received_rounds t)" using ok by (simp add: tracker_ok_def)
  from traverse_members [where f = "\<lambda>a. compute_quorum_round (ctx_committee ctx) a (rt_probed_received_rounds t)",
      OF compute_quorum_round_spec [OF wf this]] show ?thesis
    unfolding compute_received_quorum_rounds_def by blast
qed

section \<open>Properties\<close>

text \<open>
  C0. Quorum rounds mean what they promise. For every authority the lower bound is the highest round that
  a quorum reports to have accepted at least, the upper bound is the lowest round that a quorum reports
  to have accepted at most, and both lie between rounds reported by correct authorities whenever the
  others hold less than the validity threshold. The propagation delay is the distance of the last
  proposed round to the better of the two lower bounds of the own authority.
\<close>

theorem quorum_rounds_exact:
  assumes wf: "committee_wf (ctx_committee ctx)" and own: "own_index ctx \<in> members (ctx_committee ctx)"
    and ok: "tracker_ok (ctx_committee ctx) t" and F: "F \<subseteq> members (ctx_committee ctx)" "below_validity (ctx_committee ctx) F"
  shows "\<exists>accepted received. compute_accepted_quorum_rounds ctx t = Some accepted \<and> compute_received_quorum_rounds ctx t = Some received \<and>
     length accepted = committee_size (ctx_committee ctx) \<and> length received = committee_size (ctx_committee ctx) \<and>
     (\<forall>a \<in> members (ctx_committee ctx). quorum_round_of (ctx_committee ctx) (accepted_by t a) (accepted ! a) \<and>
        quorum_round_of (ctx_committee ctx) (\<lambda>i. rt_probed_received_rounds t ! i ! a) (received ! a) \<and>
        fst (accepted ! a) \<le> snd (accepted ! a) \<and>
        (\<exists>i \<in> members (ctx_committee ctx) - F. accepted_by t a i \<le> fst (accepted ! a)) \<and>
        (\<exists>i \<in> members (ctx_committee ctx) - F. snd (accepted ! a) \<le> accepted_by t a i)) \<and>
     calculate_propagation_delay ctx t proposed =
       Some (proposed - max (fst (received ! own_index ctx)) (fst (accepted ! own_index ctx)))"
proof -
  obtain accepted where a: "compute_accepted_quorum_rounds ctx t = Some accepted" "length accepted = committee_size (ctx_committee ctx)"
    "\<forall>a \<in> members (ctx_committee ctx). quorum_round_of (ctx_committee ctx) (accepted_by t a) (accepted ! a)"
    using accepted_quorum_rounds_spec [OF wf ok] by blast
  obtain received where r: "compute_received_quorum_rounds ctx t = Some received" "length received = committee_size (ctx_committee ctx)"
    "\<forall>a \<in> members (ctx_committee ctx). quorum_round_of (ctx_committee ctx) (\<lambda>i. rt_probed_received_rounds t ! i ! a) (received ! a)"
    using received_quorum_rounds_spec [OF wf ok] by blast
  have "min (n - x) (n - y) = n - max x y" for n x y :: nat by arith
  then have "calculate_propagation_delay ctx t proposed =
       Some (proposed - max (fst (received ! own_index ctx)) (fst (accepted ! own_index ctx)))"
    using a(1,2) r(1,2) own by (simp add: calculate_propagation_delay_def members_def)
  then show ?thesis using a r quorum_round_correct_bounds [OF wf F] by blast
qed

text \<open>A block of the second round whose author accepted the first round.\<close>

definition sample_tracker :: peer_round_tracker where
  "sample_tracker = the (update_from_accepted_block
     \<lparr> xb_block = sample_block 2 1 20 (map (sample_ref 1) [1, 0, 2, 3]), xb_excluded_ancestors = [] \<rparr> (round_tracker_new sample_context))"

theorem quorum_rounds_exact_witness:
  "\<exists>accepted received. compute_accepted_quorum_rounds sample_context sample_tracker = Some accepted \<and>
     compute_received_quorum_rounds sample_context sample_tracker = Some received \<and>
     calculate_propagation_delay sample_context sample_tracker 3 = Some (3 - max (fst (received ! 0)) (fst (accepted ! 0)))"
proof -
  let ?xb = "\<lparr> xb_block = sample_block 2 1 20 (map (sample_ref 1) [1, 0, 2, 3]), xb_excluded_ancestors = [] \<rparr>"
  have "list_all (\<lambda>a. ref_author a < 4) (reported_refs ?xb)" by code_simp
  then have "\<forall>a \<in> set (reported_refs ?xb). ref_author a \<in> members sample_committee" by (auto simp: list_all_iff sample_members)
  from update_from_accepted_block_spec [OF tracker_new_ok [of sample_context, simplified] this]
  have ok: "tracker_ok (ctx_committee sample_context) sample_tracker" by (auto simp: sample_tracker_def)
  have ctx: "committee_wf (ctx_committee sample_context)" "own_index sample_context \<in> members (ctx_committee sample_context)"
    by (simp_all add: sample_committee_wf sample_members, simp add: sample_context_def)
  have "below_validity (ctx_committee sample_context) {}" using wf_bounds(3) [OF ctx(1)] by (simp add: below_validity_def reached_validity_def)
  from quorum_rounds_exact [OF ctx ok _ this, of 3] show ?thesis by (auto simp: sample_context_def)
qed

end
