(* ===== verification/Ancestor_States.thy ===== *)
theory Ancestor_States
  imports Round_Tracker Dag_Steps Leader_Schedule
begin

text \<open>
  The ancestor state manager (\<^verbatim>\<open>consensus/core/src/ancestor.rs\<close>): which authorities' blocks are left out
  of proposals because of low propagation scores. A bounded amount of stake is excluded at any time and
  every change of state is locked for a number of rounds.
\<close>

section \<open>State\<close>

datatype ancestor_state = Include | Exclude nat

record ancestor_info =
  ai_state :: ancestor_state
  ai_lock_until_round :: round

definition ancestor_info_new :: ancestor_info where
  "ancestor_info_new = \<lparr> ai_state = Include, ai_lock_until_round = 0 \<rparr>"

definition is_locked :: "ancestor_info \<Rightarrow> round \<Rightarrow> bool" where
  "is_locked info current_clock_round \<longleftrightarrow> current_clock_round \<le> ai_lock_until_round info"

definition set_lock :: "round \<Rightarrow> ancestor_info \<Rightarrow> ancestor_info" where
  "set_lock lock_until_round info = info\<lparr> ai_lock_until_round := lock_until_round \<rparr>"

record state_transition =
  tr_authority_id :: authority_index
  tr_score :: nat
  tr_stake :: stake
  tr_high_quorum_round :: round

record ancestor_state_manager =
  as_state_map :: "ancestor_info list"
  as_excluded_nodes_stake_threshold :: stake
  as_total_excluded_stake :: stake
  as_propagation_scores :: reputation_scores

definition STATE_LOCK_CLOCK_ROUNDS :: round where
  "STATE_LOCK_CLOCK_ROUNDS = 450"

definition SCORE_EXCLUSION_THRESHOLD_PERCENTAGE :: nat where
  "SCORE_EXCLUSION_THRESHOLD_PERCENTAGE = 20"

definition ancestor_state_manager_new :: "consensus_context \<Rightarrow> ancestor_state_manager" where
  "ancestor_state_manager_new ctx =
     (let percentage = mul_u64 2 (consensus_bad_nodes_stake_threshold ctx) div 3 in
      \<lparr> as_state_map = replicate (committee_size (ctx_committee ctx)) ancestor_info_new,
        as_excluded_nodes_stake_threshold = mul_u64 percentage (com_total_stake (ctx_committee ctx)) div 100,
        as_total_excluded_stake = 0,
        as_propagation_scores = reputation_scores_default \<rparr>)"

definition set_propagation_scores :: "reputation_scores \<Rightarrow> ancestor_state_manager \<Rightarrow> ancestor_state_manager" where
  "set_propagation_scores scores m = m\<lparr> as_propagation_scores := scores \<rparr>"

definition get_ancestor_states :: "ancestor_state_manager \<Rightarrow> ancestor_state list" where
  "get_ancestor_states m = map ai_state (as_state_map m)"

section \<open>Updating\<close>

definition calculate_network_high_quorum_round :: "consensus_context \<Rightarrow> quorum_round list \<Rightarrow> round" where
  "calculate_network_high_quorum_round ctx accepted_quorum_rounds =
     quorum_round_scan (com_quorum_threshold (ctx_committee ctx)) 0
       (sort (map (\<lambda>((_, high), (_, authority)). (high, auth_stake authority))
          (zip accepted_quorum_rounds (committee_authorities (ctx_committee ctx)))))"

text \<open>The transition an authority is due, if any: \<open>Inl\<close> to the excluded, \<open>Inr\<close> to the included ones.\<close>

definition due_transition ::
  "consensus_context \<Rightarrow> quorum_round list \<Rightarrow> round \<Rightarrow> round \<Rightarrow> nat \<Rightarrow> ancestor_info list \<Rightarrow> nat \<times> nat \<Rightarrow>
     (state_transition + state_transition) option option" where
  "due_transition ctx accepted_quorum_rounds network_high clock_round low_score infos = (\<lambda>(idx, score). do {
     authority_id \<leftarrow> to_authority_index (ctx_committee ctx) idx;
     info \<leftarrow> vec_get infos idx;
     (_, high) \<leftarrow> vec_get accepted_quorum_rounds idx;
     authority \<leftarrow> committee_authority (ctx_committee ctx) authority_id;
     let transition = \<lparr> tr_authority_id = authority_id, tr_score = score, tr_stake = auth_stake authority,
       tr_high_quorum_round = high \<rparr>;
     Some (if is_locked info clock_round then None
       else case ai_state info of
           Include \<Rightarrow> if score \<le> low_score then Some (Inl transition) else None
         | Exclude _ \<Rightarrow> if low_score < score \<or> network_high \<le> high then Some (Inr transition) else None)
   })"

definition to_exclude :: "(state_transition + state_transition) option list \<Rightarrow> state_transition list" where
  "to_exclude due = [t. Some (Inl t) \<leftarrow> due]"

definition to_include :: "(state_transition + state_transition) option list \<Rightarrow> state_transition list" where
  "to_include due = [t. Some (Inr t) \<leftarrow> due]"

definition apply_state_change ::
  "consensus_context \<Rightarrow> round \<Rightarrow> state_transition \<Rightarrow> ancestor_state \<Rightarrow> ancestor_state_manager \<Rightarrow> ancestor_state_manager option" where
  "apply_state_change ctx clock_round t new_state m = do {
     _ \<leftarrow> committee_authority (ctx_committee ctx) (tr_authority_id t);
     info \<leftarrow> vec_get (as_state_map m) (tr_authority_id t);
     excluded \<leftarrow> (case (ai_state info, new_state) of
         (Exclude _, Include) \<Rightarrow>
           if tr_stake t \<le> as_total_excluded_stake m then Some (as_total_excluded_stake m - tr_stake t) else None
       | (Include, Exclude _) \<Rightarrow> Some (add_u64 (as_total_excluded_stake m) (tr_stake t))
       | _ \<Rightarrow> None);
     let info' = set_lock (add_u32 clock_round STATE_LOCK_CLOCK_ROUNDS) (info\<lparr> ai_state := new_state \<rparr>);
     infos \<leftarrow> vec_set (as_state_map m) (tr_authority_id t) info';
     Some (m\<lparr> as_state_map := infos, as_total_excluded_stake := excluded \<rparr>)
   }"

definition try_exclude ::
  "consensus_context \<Rightarrow> round \<Rightarrow> state_transition \<Rightarrow> ancestor_state_manager \<Rightarrow> ancestor_state_manager option" where
  "try_exclude ctx clock_round t m =
     (if add_u64 (as_total_excluded_stake m) (tr_stake t) \<le> as_excluded_nodes_stake_threshold m
      then apply_state_change ctx clock_round t (Exclude (tr_score t)) m
      else Some m)"

definition low_score_threshold :: "ancestor_state_manager \<Rightarrow> nat" where
  "low_score_threshold m = mul_u64 (highest_score (as_propagation_scores m)) SCORE_EXCLUSION_THRESHOLD_PERCENTAGE div 100"

definition update_all_ancestors_state ::
  "consensus_context \<Rightarrow> dag_state \<Rightarrow> quorum_round list \<Rightarrow> ancestor_state_manager \<Rightarrow> ancestor_state_manager option" where
  "update_all_ancestors_state ctx ds accepted_quorum_rounds m = do {
     let network_high = calculate_network_high_quorum_round ctx accepted_quorum_rounds;
     let clock_round = threshold_clock_round ds;
     due \<leftarrow> traverse (due_transition ctx accepted_quorum_rounds network_high clock_round (low_score_threshold m) (as_state_map m))
       (List.enumerate 0 (scores_per_authority (as_propagation_scores m)));
     let include_to_exclude = to_exclude due;
     let exclude_to_include = to_include due;
     m1 \<leftarrow> for_each (\<lambda>t. apply_state_change ctx clock_round t Include) exclude_to_include m;
     for_each (try_exclude ctx clock_round) (sort_key tr_score include_to_exclude) m1
   }"

section \<open>The excluded stake\<close>

definition excluded :: "ancestor_state_manager \<Rightarrow> authority_index set" where
  "excluded m = {a. a < length (as_state_map m) \<and> ai_state (as_state_map m ! a) \<noteq> Include}"

text \<open>Entries per authority, and the running total is the stake of the excluded ones.\<close>

definition tracks_excluded :: "committee \<Rightarrow> ancestor_state_manager \<Rightarrow> bool" where
  "tracks_excluded c m \<longleftrightarrow> length (as_state_map m) = committee_size c \<and> as_total_excluded_stake m = weight c (excluded m)"

definition transition_of :: "committee \<Rightarrow> state_transition \<Rightarrow> bool" where
  "transition_of c t \<longleftrightarrow> tr_authority_id t \<in> members c \<and> tr_stake t = auth_stake (com_authorities c ! tr_authority_id t)"

text \<open>The entry of an authority that changed to \<open>st\<close> at \<open>clock_round\<close>.\<close>

definition changed :: "round \<Rightarrow> ancestor_state \<Rightarrow> ancestor_info" where
  "changed clock_round st = \<lparr> ai_state = st, ai_lock_until_round = add_u32 clock_round STATE_LOCK_CLOCK_ROUNDS \<rparr>"

lemma set_lock_changed [simp]:
  "set_lock (add_u32 r STATE_LOCK_CLOCK_ROUNDS) (info\<lparr> ai_state := st \<rparr>) = changed r st" for info :: ancestor_info
  by (cases info) (simp add: set_lock_def changed_def)

lemma excluded_members: "tracks_excluded c m \<Longrightarrow> excluded m \<subseteq> members c \<and> finite (excluded m)"
  by (auto simp: tracks_excluded_def excluded_def members_def)

lemma apply_include:
  assumes m: "tracks_excluded (ctx_committee ctx) m" and t: "transition_of (ctx_committee ctx) t"
    and st: "ai_state (as_state_map m ! tr_authority_id t) = Exclude k"
  shows "\<exists>m'. apply_state_change ctx r t Include m = Some m' \<and> tracks_excluded (ctx_committee ctx) m' \<and>
     as_state_map m' = (as_state_map m)[tr_authority_id t := changed r Include] \<and>
     as_excluded_nodes_stake_threshold m' = as_excluded_nodes_stake_threshold m \<and>
     as_total_excluded_stake m' \<le> as_total_excluded_stake m \<and> as_propagation_scores m' = as_propagation_scores m"
proof -
  let ?c = "ctx_committee ctx" and ?a = "tr_authority_id t"
  let ?m = "m\<lparr> as_state_map := (as_state_map m)[?a := changed r Include], as_total_excluded_stake := as_total_excluded_stake m - tr_stake t \<rparr>"
  have a: "?a < length (as_state_map m)" "?a < length (com_authorities ?c)"
    using m t by (auto simp: tracks_excluded_def transition_of_def members_def committee_size_def)
  have ex: "?a \<in> excluded m" "excluded ?m = excluded m - {?a}"
    using a st by (auto simp: excluded_def changed_def nth_list_update split: if_splits)
  have fin: "finite (excluded m)" using excluded_members [OF m] by simp
  have "weight ?c (excluded m) = tr_stake t + weight ?c (excluded m - {?a})"
    using weight_insert [of "excluded m - {?a}" ?a ?c] ex(1) fin t by (simp add: insert_absorb transition_of_def)
  then have tot: "as_total_excluded_stake m = tr_stake t + weight ?c (excluded ?m)" using m ex(2) by (simp add: tracks_excluded_def)
  then have "apply_state_change ctx r t Include m = Some ?m"
    using a st by (simp add: apply_state_change_def committee_authority_def Let_def)
  moreover have "tracks_excluded ?c ?m" using m tot by (simp add: tracks_excluded_def)
  ultimately show ?thesis by auto
qed

lemma apply_exclude:
  assumes wf: "committee_wf (ctx_committee ctx)" and m: "tracks_excluded (ctx_committee ctx) m" and t: "transition_of (ctx_committee ctx) t"
    and st: "ai_state (as_state_map m ! tr_authority_id t) = Include"
  shows "\<exists>m'. apply_state_change ctx r t (Exclude k) m = Some m' \<and> tracks_excluded (ctx_committee ctx) m' \<and>
     as_state_map m' = (as_state_map m)[tr_authority_id t := changed r (Exclude k)] \<and>
     as_excluded_nodes_stake_threshold m' = as_excluded_nodes_stake_threshold m \<and>
     as_total_excluded_stake m' = add_u64 (as_total_excluded_stake m) (tr_stake t) \<and> as_propagation_scores m' = as_propagation_scores m"
proof -
  let ?c = "ctx_committee ctx" and ?a = "tr_authority_id t"
  let ?m = "m\<lparr> as_state_map := (as_state_map m)[?a := changed r (Exclude k)],
    as_total_excluded_stake := add_u64 (as_total_excluded_stake m) (tr_stake t) \<rparr>"
  have a: "?a < length (as_state_map m)" "?a < length (com_authorities ?c)"
    using m t by (auto simp: tracks_excluded_def transition_of_def members_def committee_size_def)
  have ex: "?a \<notin> excluded m" "excluded ?m = insert ?a (excluded m)"
    using a st by (auto simp: excluded_def changed_def nth_list_update split: if_splits)
  have fin: "excluded m \<subseteq> members ?c" "finite (excluded m)" using excluded_members [OF m] by auto
  have w: "weight ?c (excluded ?m) = tr_stake t + as_total_excluded_stake m"
    using weight_insert [OF fin(2) ex(1), of ?c] ex(2) t m by (simp add: transition_of_def tracks_excluded_def)
  have "excluded ?m \<subseteq> members ?c" using fin(1) ex(2) t by (simp add: transition_of_def)
  then have "tr_stake t + as_total_excluded_stake m \<le> com_total_stake ?c" unfolding w [symmetric] by (rule weight_le_total [OF wf])
  then have "tr_stake t + as_total_excluded_stake m \<le> u64_max" using wf_bounds(5) [OF wf] by (rule order_trans)
  then have "tracks_excluded ?c ?m" using m w by (simp add: tracks_excluded_def add.commute)
  moreover have "apply_state_change ctx r t (Exclude k) m = Some ?m"
    using a st by (simp add: apply_state_change_def committee_authority_def Let_def)
  ultimately show ?thesis by auto
qed

section \<open>The two passes\<close>

lemma include_pass:
  assumes "tracks_excluded (ctx_committee ctx) m" and "\<forall>t \<in> set ts. transition_of (ctx_committee ctx) t"
    and "distinct (map tr_authority_id ts)" and "\<forall>t \<in> set ts. ai_state (as_state_map m ! tr_authority_id t) \<noteq> Include"
  shows "\<exists>m'. for_each (\<lambda>t. apply_state_change ctx r t Include) ts m = Some m' \<and> tracks_excluded (ctx_committee ctx) m' \<and>
     (\<forall>a. a < length (as_state_map m) \<longrightarrow>
        as_state_map m' ! a = (if a \<in> tr_authority_id ` set ts then changed r Include else as_state_map m ! a)) \<and>
     as_excluded_nodes_stake_threshold m' = as_excluded_nodes_stake_threshold m \<and>
     as_total_excluded_stake m' \<le> as_total_excluded_stake m \<and> as_propagation_scores m' = as_propagation_scores m"
  using assms
proof (induction ts arbitrary: m)
  case (Cons t ts)
  obtain k where k: "ai_state (as_state_map m ! tr_authority_id t) = Exclude k" using Cons.prems(4) by (cases "ai_state (as_state_map m ! tr_authority_id t)") auto
  obtain m1 where 1: "apply_state_change ctx r t Include m = Some m1" "tracks_excluded (ctx_committee ctx) m1"
     "as_state_map m1 = (as_state_map m)[tr_authority_id t := changed r Include]"
     "as_excluded_nodes_stake_threshold m1 = as_excluded_nodes_stake_threshold m"
     "as_total_excluded_stake m1 \<le> as_total_excluded_stake m" "as_propagation_scores m1 = as_propagation_scores m"
    using apply_include [OF Cons.prems(1) _ k, of r] Cons.prems(2) by auto
  have "\<forall>u \<in> set ts. ai_state (as_state_map m1 ! tr_authority_id u) \<noteq> Include"
    using Cons.prems(3,4) 1(3) by (metis distinct.simps(2) image_eqI list.set_intros(2) list.simps(9) nth_list_update_neq set_map)
  then obtain m2 where 2: "for_each (\<lambda>t. apply_state_change ctx r t Include) ts m1 = Some m2" "tracks_excluded (ctx_committee ctx) m2"
     "\<forall>a. a < length (as_state_map m1) \<longrightarrow>
        as_state_map m2 ! a = (if a \<in> tr_authority_id ` set ts then changed r Include else as_state_map m1 ! a)"
     "as_excluded_nodes_stake_threshold m2 = as_excluded_nodes_stake_threshold m1"
     "as_total_excluded_stake m2 \<le> as_total_excluded_stake m1" "as_propagation_scores m2 = as_propagation_scores m1"
    using Cons.IH [OF 1(2)] Cons.prems(2,3) by auto
  have "\<forall>a. a < length (as_state_map m) \<longrightarrow>
        as_state_map m2 ! a = (if a \<in> tr_authority_id ` set (t # ts) then changed r Include else as_state_map m ! a)"
    using 2(3) 1(3) by (auto simp: nth_list_update)
  then show ?case using 1 2 by (intro exI [of _ m2]) simp
qed simp

lemma exclude_pass:
  assumes wf: "committee_wf (ctx_committee ctx)" and "tracks_excluded (ctx_committee ctx) m" and "\<forall>t \<in> set ts. transition_of (ctx_committee ctx) t"
    and "distinct (map tr_authority_id ts)" and "\<forall>t \<in> set ts. ai_state (as_state_map m ! tr_authority_id t) = Include"
    and "as_total_excluded_stake m \<le> as_excluded_nodes_stake_threshold m"
  shows "\<exists>m' X. for_each (try_exclude ctx r) ts m = Some m' \<and> tracks_excluded (ctx_committee ctx) m' \<and> X \<subseteq> set ts \<and>
     (\<forall>a. a < length (as_state_map m) \<longrightarrow> a \<notin> tr_authority_id ` X \<longrightarrow> as_state_map m' ! a = as_state_map m ! a) \<and>
     (\<forall>t \<in> X. as_state_map m' ! tr_authority_id t = changed r (Exclude (tr_score t))) \<and>
     as_excluded_nodes_stake_threshold m' = as_excluded_nodes_stake_threshold m \<and>
     as_total_excluded_stake m' \<le> as_excluded_nodes_stake_threshold m \<and> as_propagation_scores m' = as_propagation_scores m"
  using assms(2-)
proof (induction ts arbitrary: m)
  case (Cons t ts)
  have t: "transition_of (ctx_committee ctx) t" "ai_state (as_state_map m ! tr_authority_id t) = Include" using Cons.prems(2,4) by auto
  show ?case
  proof (cases "add_u64 (as_total_excluded_stake m) (tr_stake t) \<le> as_excluded_nodes_stake_threshold m")
    case False
    then have skip: "try_exclude ctx r t m = Some m" by (simp add: try_exclude_def)
    obtain m' X where 2: "for_each (try_exclude ctx r) ts m = Some m'" "tracks_excluded (ctx_committee ctx) m'" "X \<subseteq> set ts"
       "\<forall>a. a < length (as_state_map m) \<longrightarrow> a \<notin> tr_authority_id ` X \<longrightarrow> as_state_map m' ! a = as_state_map m ! a"
       "\<forall>t \<in> X. as_state_map m' ! tr_authority_id t = changed r (Exclude (tr_score t))"
       "as_excluded_nodes_stake_threshold m' = as_excluded_nodes_stake_threshold m"
       "as_total_excluded_stake m' \<le> as_excluded_nodes_stake_threshold m" "as_propagation_scores m' = as_propagation_scores m"
      using Cons.IH [OF Cons.prems(1)] Cons.prems by auto
    then show ?thesis using skip by (intro exI [of _ m'] exI [of _ X]) auto
  next
    case True
    obtain m1 where 1: "apply_state_change ctx r t (Exclude (tr_score t)) m = Some m1" "tracks_excluded (ctx_committee ctx) m1"
       "as_state_map m1 = (as_state_map m)[tr_authority_id t := changed r (Exclude (tr_score t))]"
       "as_excluded_nodes_stake_threshold m1 = as_excluded_nodes_stake_threshold m"
       "as_total_excluded_stake m1 = add_u64 (as_total_excluded_stake m) (tr_stake t)" "as_propagation_scores m1 = as_propagation_scores m"
      using apply_exclude [OF wf Cons.prems(1) t] by blast
    have "\<forall>u \<in> set ts. ai_state (as_state_map m1 ! tr_authority_id u) = Include"
      using Cons.prems(3,4) 1(3) by (metis distinct.simps(2) image_eqI list.set_intros(2) list.simps(9) nth_list_update_neq set_map)
    then obtain m2 X where 2: "for_each (try_exclude ctx r) ts m1 = Some m2" "tracks_excluded (ctx_committee ctx) m2" "X \<subseteq> set ts"
       "\<forall>a. a < length (as_state_map m1) \<longrightarrow> a \<notin> tr_authority_id ` X \<longrightarrow> as_state_map m2 ! a = as_state_map m1 ! a"
       "\<forall>t \<in> X. as_state_map m2 ! tr_authority_id t = changed r (Exclude (tr_score t))"
       "as_excluded_nodes_stake_threshold m2 = as_excluded_nodes_stake_threshold m1"
       "as_total_excluded_stake m2 \<le> as_excluded_nodes_stake_threshold m1" "as_propagation_scores m2 = as_propagation_scores m1"
      using Cons.IH [OF 1(2)] Cons.prems(2,3) True 1(4,5) by auto
    have len: "tr_authority_id t < length (as_state_map m)" using Cons.prems(1) t(1) by (auto simp: tracks_excluded_def transition_of_def members_def)
    have "tr_authority_id t \<notin> tr_authority_id ` X" using Cons.prems(3) 2(3) by auto
    then have "as_state_map m2 ! tr_authority_id t = changed r (Exclude (tr_score t))" using 2(4) 1(3) len by simp
    moreover have "\<forall>a. a < length (as_state_map m) \<longrightarrow> a \<notin> tr_authority_id ` insert t X \<longrightarrow> as_state_map m2 ! a = as_state_map m ! a"
      using 2(4) 1(3) by (auto simp: nth_list_update)
    moreover have "for_each (try_exclude ctx r) (t # ts) m = Some m2" using True 1(1) 2(1) by (simp add: try_exclude_def)
    ultimately show ?thesis using 1(4,6) 2 by (intro exI [of _ m2] exI [of _ "insert t X"]) auto
  qed
qed auto

section \<open>Due transitions\<close>

definition due_of ::
  "committee \<Rightarrow> quorum_round list \<Rightarrow> round \<Rightarrow> round \<Rightarrow> nat \<Rightarrow> ancestor_info list \<Rightarrow> nat \<times> nat \<Rightarrow> (state_transition + state_transition) option" where
  "due_of c accepted network_high clock_round low_score infos = (\<lambda>(idx, score).
     let t = \<lparr> tr_authority_id = idx, tr_score = score, tr_stake = auth_stake (com_authorities c ! idx),
       tr_high_quorum_round = snd (accepted ! idx) \<rparr> in
     if is_locked (infos ! idx) clock_round then None
     else case ai_state (infos ! idx) of
         Include \<Rightarrow> if score \<le> low_score then Some (Inl t) else None
       | Exclude _ \<Rightarrow> if low_score < score \<or> network_high \<le> snd (accepted ! idx) then Some (Inr t) else None)"

lemma due_transition_eq:
  assumes "i < committee_size (ctx_committee ctx)" and "i < length infos" and "i < length accepted"
  shows "due_transition ctx accepted nh r low infos (i, score) = Some (due_of (ctx_committee ctx) accepted nh r low infos (i, score))"
proof -
  obtain lo hi where q: "accepted ! i = (lo, hi)" by (cases "accepted ! i")
  show ?thesis
    using assms q by (auto simp: due_transition_def due_of_def to_authority_index_def committee_authority_def committee_size_def
        Let_def split: ancestor_state.splits)
qed

lemma to_exclude_in: "t \<in> set (to_exclude (map g xs)) \<longleftrightarrow> (\<exists>x \<in> set xs. g x = Some (Inl t))"
  by (induction xs) (auto simp: to_exclude_def split: option.splits sum.splits)

lemma to_include_in: "t \<in> set (to_include (map g xs)) \<longleftrightarrow> (\<exists>x \<in> set xs. g x = Some (Inr t))"
  by (induction xs) (auto simp: to_include_def split: option.splits sum.splits)

lemma due_of_parts:
  "due_of c accepted nh r low infos x = Some (Inl t) \<longleftrightarrow> \<not> is_locked (infos ! fst x) r \<and> ai_state (infos ! fst x) = Include \<and> snd x \<le> low \<and>
     t = \<lparr> tr_authority_id = fst x, tr_score = snd x, tr_stake = auth_stake (com_authorities c ! fst x), tr_high_quorum_round = snd (accepted ! fst x) \<rparr>"
  "due_of c accepted nh r low infos x = Some (Inr t) \<longleftrightarrow> \<not> is_locked (infos ! fst x) r \<and> ai_state (infos ! fst x) \<noteq> Include \<and>
     (low < snd x \<or> nh \<le> snd (accepted ! fst x)) \<and>
     t = \<lparr> tr_authority_id = fst x, tr_score = snd x, tr_stake = auth_stake (com_authorities c ! fst x), tr_high_quorum_round = snd (accepted ! fst x) \<rparr>"
  by (auto simp: due_of_def Let_def split: prod.splits ancestor_state.splits if_splits)

lemma due_distinct:
  assumes "distinct (map fst xs)" and g: "\<And>x t. g x = Some (Inl t) \<or> g x = Some (Inr t) \<Longrightarrow> tr_authority_id t = fst x"
  shows "distinct (map tr_authority_id (to_exclude (map g xs)))" "distinct (map tr_authority_id (to_include (map g xs)))"
proof -
  have "distinct (map tr_authority_id (to_exclude (map g xs))) \<and> distinct (map tr_authority_id (to_include (map g xs)))"
    using assms(1)
  proof (induction xs)
    case (Cons x xs)
    have "tr_authority_id t \<noteq> fst x" 
      if t_in: "t \<in> set (to_exclude (map g xs)) \<or> t \<in> set (to_include (map g xs))" for t
    proof -
      obtain y where "y \<in> set xs" "g y = Some (Inl t) \<or> g y = Some (Inr t)" 
        using t_in unfolding to_exclude_in to_include_in by blast
      then have "tr_authority_id t = fst y" "y \<in> set xs" using g by auto
      then show ?thesis using Cons.prems by (metis distinct.simps(2) image_eqI list.simps(9) set_map)
    qed
    then have new: "fst x \<notin> set (map tr_authority_id (to_exclude (map g xs)))" "fst x \<notin> set (map tr_authority_id (to_include (map g xs)))"
      by (metis (no_types, lifting) ex_map_conv list.set_map imageE)+
    show ?case
    proof (cases "g x")
      case None
      then show ?thesis using Cons by (simp add: to_exclude_def to_include_def)
    next
      case (Some d)
      have "tr_authority_id t = fst x" if "d = Inl t \<or> d = Inr t" for t using g [of x t] Some that by blast
      then show ?thesis using Cons new Some by (cases d) (simp_all add: to_exclude_def to_include_def)
    qed
  qed (simp add: to_exclude_def to_include_def)
  then show "distinct (map tr_authority_id (to_exclude (map g xs)))" "distinct (map tr_authority_id (to_include (map g xs)))" by auto
qed

section \<open>The update\<close>

definition ancestors_inv :: "consensus_context \<Rightarrow> ancestor_state_manager \<Rightarrow> bool" where
  "ancestors_inv ctx m \<longleftrightarrow> tracks_excluded (ctx_committee ctx) m \<and>
     as_total_excluded_stake m \<le> as_excluded_nodes_stake_threshold m \<and>
     as_excluded_nodes_stake_threshold m \<le> 2 * consensus_bad_nodes_stake_threshold ctx div 3 * com_total_stake (ctx_committee ctx) div 100"

lemma ancestors_inv_new: "ancestors_inv ctx (ancestor_state_manager_new ctx)"
proof -
  have "mul_u64 a b \<le> a * b" for a b by (simp add: mul_u64_def)
  then have "mul_u64 (mul_u64 2 t div 3) n div 100 \<le> 2 * t div 3 * n div 100" for t n
    by (meson div_le_mono mult_le_mono1 order_trans)
  moreover have "excluded (ancestor_state_manager_new ctx) = {}"
    by (auto simp: excluded_def ancestor_state_manager_new_def ancestor_info_new_def Let_def)
  ultimately show ?thesis
    by (simp add: ancestors_inv_def tracks_excluded_def) (simp add: ancestor_state_manager_new_def Let_def)
qed

lemma ancestors_inv_scores: "ancestors_inv ctx m \<Longrightarrow> ancestors_inv ctx (set_propagation_scores scores m)"
proof -
  have "excluded (set_propagation_scores scores m) = excluded m" by (simp add: excluded_def set_propagation_scores_def)
  then show "ancestors_inv ctx m \<Longrightarrow> ancestors_inv ctx (set_propagation_scores scores m)"
    by (simp add: ancestors_inv_def tracks_excluded_def) (simp add: set_propagation_scores_def)
qed

lemma included_quorum:
  assumes wf: "committee_wf (ctx_committee ctx)" and inv: "ancestors_inv ctx m" and th: "consensus_bad_nodes_stake_threshold ctx \<le> 33"
  shows "is_quorum (ctx_committee ctx) (members (ctx_committee ctx) - excluded m)"
proof -
  let ?c = "ctx_committee ctx"
  have "2 * consensus_bad_nodes_stake_threshold ctx div 3 \<le> 22" using th by simp
  then have "2 * consensus_bad_nodes_stake_threshold ctx div 3 * com_total_stake ?c div 100 \<le> 22 * com_total_stake ?c div 100"
    by (intro div_le_mono mult_le_mono1)
  moreover have "22 * n div 100 < (n + 2) div 3" if "0 < n" for n :: nat using that by arith
  ultimately have "weight ?c (excluded m) < com_validity_threshold ?c"
    using inv wf by (fastforce simp: ancestors_inv_def tracks_excluded_def committee_wf_def)
  then show ?thesis
    using complement_is_quorum [OF wf] excluded_members [of ?c m] inv by (simp add: is_quorum_def reached_validity_def ancestors_inv_def)
qed

lemma update_spec:
  assumes wf: "committee_wf (ctx_committee ctx)" and inv: "ancestors_inv ctx m"
    and acc: "length accepted = committee_size (ctx_committee ctx)"
    and scores: "length (scores_per_authority (as_propagation_scores m)) \<le> committee_size (ctx_committee ctx)"
  shows "\<exists>m' X Y. update_all_ancestors_state ctx ds accepted m = Some m' \<and> ancestors_inv ctx m' \<and>
     as_propagation_scores m' = as_propagation_scores m \<and>
     Y = {a. a < length (scores_per_authority (as_propagation_scores m)) \<and> \<not> is_locked (as_state_map m ! a) (threshold_clock_round ds) \<and>
        ai_state (as_state_map m ! a) \<noteq> Include \<and> (low_score_threshold m < scores_per_authority (as_propagation_scores m) ! a \<or>
           calculate_network_high_quorum_round ctx accepted \<le> snd (accepted ! a))} \<and>
     X \<subseteq> {a. a < length (scores_per_authority (as_propagation_scores m)) \<and> \<not> is_locked (as_state_map m ! a) (threshold_clock_round ds) \<and>
        ai_state (as_state_map m ! a) = Include \<and> scores_per_authority (as_propagation_scores m) ! a \<le> low_score_threshold m} \<and>
     (\<forall>a \<in> members (ctx_committee ctx). as_state_map m' ! a =
        (if a \<in> X then changed (threshold_clock_round ds) (Exclude (scores_per_authority (as_propagation_scores m) ! a))
         else if a \<in> Y then changed (threshold_clock_round ds) Include else as_state_map m ! a))"
proof -
  let ?c = "ctx_committee ctx" and ?r = "threshold_clock_round ds" and ?nh = "calculate_network_high_quorum_round ctx accepted"
  let ?scores = "scores_per_authority (as_propagation_scores m)" and ?infos = "as_state_map m"
  define xs where "xs = List.enumerate 0 ?scores"
  define g where "g = due_of ?c accepted ?nh ?r (low_score_threshold m) ?infos"
  note gp = due_of_parts [of ?c accepted ?nh ?r "low_score_threshold m" ?infos, folded g_def]
  have tr: "tracks_excluded ?c m" and len: "length ?infos = committee_size ?c" using inv by (auto simp: ancestors_inv_def tracks_excluded_def)
  have xs: "x \<in> set xs \<longleftrightarrow> fst x < length ?scores \<and> snd x = ?scores ! fst x" for x
    by (cases x) (auto simp: xs_def in_set_enumerate_eq)
  have due: "traverse (due_transition ctx accepted ?nh ?r (low_score_threshold m) ?infos) xs = Some (map g xs)"
    by (rule traverse_total) (use xs scores len acc in \<open>auto simp: g_def due_transition_eq\<close>)
  have ids: "tr_authority_id t = fst x" if "g x = Some (Inl t) \<or> g x = Some (Inr t)" for x t using that by (auto simp: gp)
  have "distinct (map fst xs)" by (simp add: xs_def)
  note dist = due_distinct [OF this, of g, OF ids]
  have ex: "t \<in> set (to_exclude (map g xs)) \<longleftrightarrow> (\<exists>x \<in> set xs. g x = Some (Inl t))"
    and inc: "t \<in> set (to_include (map g xs)) \<longleftrightarrow> (\<exists>x \<in> set xs. g x = Some (Inr t))" for t
    by (rule to_exclude_in, rule to_include_in)
  have tof: "\<forall>t \<in> set (to_exclude (map g xs)). transition_of ?c t" "\<forall>t \<in> set (to_include (map g xs)). transition_of ?c t"
    using xs scores by (auto simp: ex inc gp transition_of_def members_def)
  have st: "\<forall>t \<in> set (to_include (map g xs)). ai_state (?infos ! tr_authority_id t) \<noteq> Include"
    by (auto simp: inc gp)
  let ?Y = "tr_authority_id ` set (to_include (map g xs))"
  from include_pass [OF tr tof(2) dist(2) st, of ?r] obtain m1 where
    1: "for_each (\<lambda>t. apply_state_change ctx ?r t Include) (to_include (map g xs)) m = Some m1" "tracks_excluded ?c m1"
       "\<forall>a. a < length ?infos \<longrightarrow> as_state_map m1 ! a = (if a \<in> ?Y then changed ?r Include else ?infos ! a)"
       "as_excluded_nodes_stake_threshold m1 = as_excluded_nodes_stake_threshold m"
       "as_total_excluded_stake m1 \<le> as_total_excluded_stake m" "as_propagation_scores m1 = as_propagation_scores m" by blast
  let ?ts = "sort_key tr_score (to_exclude (map g xs))"
  have st1: "\<forall>t \<in> set ?ts. ai_state (as_state_map m1 ! tr_authority_id t) = Include"
    using 1(3) xs scores len by (auto simp: ex gp changed_def)
  have dist': "distinct (map tr_authority_id ?ts)"
    using dist(1) by (metis distinct_map mset_sort set_sort distinct_sort)
  have tot: "as_total_excluded_stake m1 \<le> as_excluded_nodes_stake_threshold m1" using inv 1(4,5) by (simp add: ancestors_inv_def)
  have tof': "\<forall>t \<in> set ?ts. transition_of ?c t" using tof(1) by simp
  from exclude_pass [OF wf 1(2) tof' dist' st1 tot, of ?r] obtain m2 X where
    2: "for_each (try_exclude ctx ?r) ?ts m1 = Some m2" "tracks_excluded ?c m2" "X \<subseteq> set ?ts"
     "\<forall>a. a < length (as_state_map m1) \<longrightarrow> a \<notin> tr_authority_id ` X \<longrightarrow> as_state_map m2 ! a = as_state_map m1 ! a"
     "\<forall>t \<in> X. as_state_map m2 ! tr_authority_id t = changed ?r (Exclude (tr_score t))"
     "as_excluded_nodes_stake_threshold m2 = as_excluded_nodes_stake_threshold m1"
     "as_total_excluded_stake m2 \<le> as_excluded_nodes_stake_threshold m1" "as_propagation_scores m2 = as_propagation_scores m1" by blast
  have "update_all_ancestors_state ctx ds accepted m = Some m2"
    using due 1(1) 2(1) by (simp add: update_all_ancestors_state_def xs_def Let_def)
  moreover have "ancestors_inv ctx m2" using inv 1(4) 2(2,6,7) by (simp add: ancestors_inv_def)
  moreover have "as_propagation_scores m2 = as_propagation_scores m" using 1(6) 2(8) by simp
  moreover have "?Y = {a. a < length ?scores \<and> \<not> is_locked (?infos ! a) ?r \<and> ai_state (?infos ! a) \<noteq> Include \<and>
      (low_score_threshold m < ?scores ! a \<or> ?nh \<le> snd (accepted ! a))}"
  proof (intro equalityI subsetI)
    fix a assume a: "a \<in> {a. a < length ?scores \<and> \<not> is_locked (?infos ! a) ?r \<and> ai_state (?infos ! a) \<noteq> Include \<and>
      (low_score_threshold m < ?scores ! a \<or> ?nh \<le> snd (accepted ! a))}"
    let ?t = "\<lparr> tr_authority_id = a, tr_score = ?scores ! a, tr_stake = auth_stake (com_authorities ?c ! a),
      tr_high_quorum_round = snd (accepted ! a) \<rparr>"
    have "g (a, ?scores ! a) = Some (Inr ?t)" "(a, ?scores ! a) \<in> set xs" using a by (auto simp: gp xs)
    then have "?t \<in> set (to_include (map g xs))" unfolding inc by blast
    then show "a \<in> ?Y" by (rule rev_image_eqI) simp
  qed (auto simp: inc xs gp)
  moreover have X: "tr_authority_id t < length ?scores \<and> \<not> is_locked (?infos ! tr_authority_id t) ?r \<and>
      ai_state (?infos ! tr_authority_id t) = Include \<and> ?scores ! tr_authority_id t \<le> low_score_threshold m \<and> tr_score t = ?scores ! tr_authority_id t" if t_in: "t \<in> X" for t
  proof -
    have "t \<in> set (to_exclude (map g xs))" using t_in 2(3) by auto
    then show ?thesis by (auto simp: ex xs gp)
  qed
  then have "tr_authority_id ` X \<subseteq> {a. a < length ?scores \<and> \<not> is_locked (?infos ! a) ?r \<and> ai_state (?infos ! a) = Include \<and>
      ?scores ! a \<le> low_score_threshold m}" by blast
  moreover have "\<forall>a \<in> members ?c. as_state_map m2 ! a = (if a \<in> tr_authority_id ` X then changed ?r (Exclude (?scores ! a))
      else if a \<in> ?Y then changed ?r Include else ?infos ! a)"
    using 1(2,3) 2(4,5) X len by (auto simp: members_def tracks_excluded_def)
  ultimately show ?thesis by blast
qed

section \<open>Properties\<close>

text \<open>
  C0. \<open>update_all_ancestors_state\<close> never panics and keeps the exclusion bounded: the running total is the
  stake of the excluded authorities, it stays within the threshold, and the authorities that are not
  excluded always hold a quorum. A locked authority keeps its state, every change is locked for
  \<open>STATE_LOCK_CLOCK_ROUNDS\<close> rounds, only low scores are newly excluded, and an excluded authority that is not
  locked is included again exactly when its score recovered or its blocks are accepted as far as the network's.
\<close>

theorem ancestor_exclusion_bounded:
  assumes wf: "committee_wf (ctx_committee ctx)" and th: "consensus_bad_nodes_stake_threshold ctx \<le> 33" and inv: "ancestors_inv ctx m"
    and acc: "length accepted = committee_size (ctx_committee ctx)"
    and scores: "length (scores_per_authority (as_propagation_scores m)) = committee_size (ctx_committee ctx)"
  shows "\<exists>m'. update_all_ancestors_state ctx ds accepted m = Some m' \<and> ancestors_inv ctx m' \<and>
     as_total_excluded_stake m' = weight (ctx_committee ctx) (excluded m') \<and>
     is_quorum (ctx_committee ctx) (members (ctx_committee ctx) - excluded m') \<and>
     (\<forall>a \<in> members (ctx_committee ctx).
        (is_locked (as_state_map m ! a) (threshold_clock_round ds) \<longrightarrow> as_state_map m' ! a = as_state_map m ! a) \<and>
        (as_state_map m' ! a \<noteq> as_state_map m ! a \<longrightarrow>
           ai_lock_until_round (as_state_map m' ! a) = add_u32 (threshold_clock_round ds) STATE_LOCK_CLOCK_ROUNDS) \<and>
        (a \<in> excluded m' - excluded m \<longrightarrow> scores_per_authority (as_propagation_scores m) ! a \<le> low_score_threshold m) \<and>
        (a \<in> excluded m \<and> \<not> is_locked (as_state_map m ! a) (threshold_clock_round ds) \<longrightarrow>
           (a \<notin> excluded m' \<longleftrightarrow> low_score_threshold m < scores_per_authority (as_propagation_scores m) ! a \<or>
              calculate_network_high_quorum_round ctx accepted \<le> snd (accepted ! a))))"
proof -
  let ?c = "ctx_committee ctx" and ?r = "threshold_clock_round ds" and ?s = "scores_per_authority (as_propagation_scores m)"
  let ?better = "\<lambda>a. low_score_threshold m < ?s ! a \<or> calculate_network_high_quorum_round ctx accepted \<le> snd (accepted ! a)"
  have le: "length ?s \<le> committee_size ?c" using scores by simp
  from update_spec [OF wf inv acc le, of ds] obtain m' X Y where u: "update_all_ancestors_state ctx ds accepted m = Some m'"
    "ancestors_inv ctx m'"
    "Y = {a. a < length ?s \<and> \<not> is_locked (as_state_map m ! a) ?r \<and> ai_state (as_state_map m ! a) \<noteq> Include \<and> ?better a}"
    "X \<subseteq> {a. a < length ?s \<and> \<not> is_locked (as_state_map m ! a) ?r \<and> ai_state (as_state_map m ! a) = Include \<and> ?s ! a \<le> low_score_threshold m}"
    "\<forall>a \<in> members ?c. as_state_map m' ! a = (if a \<in> X then changed ?r (Exclude (?s ! a)) else if a \<in> Y then changed ?r Include else as_state_map m ! a)"
    by blast
  have ex: "a \<in> excluded m \<longleftrightarrow> ai_state (as_state_map m ! a) \<noteq> Include" "a \<in> excluded m' \<longleftrightarrow> ai_state (as_state_map m' ! a) \<noteq> Include"
    if "a \<in> members ?c" for a
    using that inv u(2) by (auto simp: excluded_def ancestors_inv_def tracks_excluded_def members_def)
  have "(is_locked (as_state_map m ! a) ?r \<longrightarrow> as_state_map m' ! a = as_state_map m ! a) \<and>
      (as_state_map m' ! a \<noteq> as_state_map m ! a \<longrightarrow> ai_lock_until_round (as_state_map m' ! a) = add_u32 ?r STATE_LOCK_CLOCK_ROUNDS) \<and>
      (a \<in> excluded m' - excluded m \<longrightarrow> ?s ! a \<le> low_score_threshold m) \<and>
      (a \<in> excluded m \<and> \<not> is_locked (as_state_map m ! a) ?r \<longrightarrow> (a \<notin> excluded m' \<longleftrightarrow> ?better a))" if a: "a \<in> members ?c" for a
  proof -
    have len: "a < length ?s" using a scores by (simp add: members_def)
    consider "a \<in> X" "ai_state (as_state_map m ! a) = Include" | "a \<notin> X" "a \<in> Y" | "a \<notin> X" "a \<notin> Y" using u(4) by blast
    then show ?thesis
    proof cases
      case 1
      then show ?thesis using u(4,5) a ex [OF a] by (auto simp: changed_def)
    next
      case 2
      then show ?thesis using u(3,5) a ex [OF a] by (auto simp: changed_def)
    next
      case 3
      then show ?thesis using u(3,5) a ex [OF a] len by auto
    qed
  qed
  then show ?thesis using u(1,2) included_quorum [OF wf u(2) th] by (auto simp: ancestors_inv_def tracks_excluded_def)
qed

text \<open>The sample committee after its first scores, one of them low.\<close>

definition sample_ancestors :: ancestor_state_manager where
  "sample_ancestors = set_propagation_scores (reputation_scores_new (range_new 1 10) [100, 5, 90, 95]) (ancestor_state_manager_new sample_context)"

theorem ancestor_exclusion_bounded_witness:
  "\<exists>m'. update_all_ancestors_state sample_context (initial_state sample_context []) (replicate 4 (0, 0)) sample_ancestors = Some m' \<and>
     is_quorum sample_committee (members sample_committee - excluded m')"
proof -
  have inv: "ancestors_inv sample_context sample_ancestors"
    unfolding sample_ancestors_def by (rule ancestors_inv_scores [OF ancestors_inv_new])
  have size: "committee_size (ctx_committee sample_context) = 4" by code_simp
  have "length (scores_per_authority (as_propagation_scores sample_ancestors)) = committee_size (ctx_committee sample_context)"
    unfolding size by code_simp
  moreover have "consensus_bad_nodes_stake_threshold sample_context \<le> 33" by (simp add: sample_context_def)
  moreover have "length (replicate 4 (0 :: nat, 0 :: nat)) = committee_size (ctx_committee sample_context)" unfolding size by simp
  ultimately show ?thesis
    using ancestor_exclusion_bounded [of sample_context, simplified, OF sample_committee_wf _ inv] by (metis sample_context_committee)
qed

end
