(* ===== verification/Spec2Isabelle.thy ===== *)
theory Spec2Isabelle
  imports Stake_Aggregator Block_Verifier Threshold_Clock Commits Mem_Store Total_Order Dag_Properties Ancestor_States
begin

text \<open>
  Verification of the consensus core (Mysticeti) of the repository. This root theory imports the
  component theories and states the properties that span them.

  \<^item> \<open>Prelude\<close>: machine integers, panics, loops and ordered containers.
  \<^item> \<open>Committee\<close>: \<^verbatim>\<open>consensus/config/src/committee.rs\<close>.
  \<^item> \<open>Stake_Aggregator\<close>: \<^verbatim>\<open>consensus/core/src/stake_aggregator.rs\<close>.
  \<^item> \<open>Blocks\<close>: \<^verbatim>\<open>consensus/types/src/block.rs\<close>, \<^verbatim>\<open>consensus/core/src/block.rs\<close>.
  \<^item> \<open>Block_Verifier\<close>: \<^verbatim>\<open>consensus/core/src/block_verifier.rs\<close>.
\<close>

end
